(* ===== verification/Limine_Prelude.thy ===== *)
theory Limine_Prelude
  imports Main "HOL-Library.Word" "HOL-Library.Multiset"
begin

text \<open>
  Shared vocabulary of the development: machine integers at their C widths, the
  \<^verbatim>\<open>panic()\<close> outcome as an error value, the overflow-checking builtins, the rounding macros
  of \<^verbatim>\<open>common/lib/misc.h\<close>, and the generic facts on words and lists that the component
  theories use.
\<close>

unbundle bit_operations_syntax

named_theorems c_arith \<open>conversion of word comparisons and sums to natural numbers\<close>

section \<open>Machine integers and results\<close>

type_synonym u8 = "8 word"
type_synonym u16 = "16 word"
type_synonym u32 = "32 word"
type_synonym u64 = "64 word"

text \<open>
  \<^verbatim>\<open>noreturn void panic(bool allow_menu, const char *fmt, ...)\<close>: a call that panics never
  returns to its caller, so it is the error side of a sum.
\<close>

datatype panic = Panic (allow_menu: bool) (message: string)

type_synonym 'a res = "panic + 'a"

definition bind_res :: "'e + 'a \<Rightarrow> ('a \<Rightarrow> 'e + 'b) \<Rightarrow> 'e + 'b" where
  "bind_res x f = (case x of Inl e \<Rightarrow> Inl e | Inr a \<Rightarrow> f a)"

lemma bind_res_simps [simp]:
  "bind_res (Inl e) f = Inl e"
  "bind_res (Inr a) f = f a"
  by (simp_all add: bind_res_def)

lemma bind_res_eq_Inr_iff [simp]:
  "bind_res x f = Inr b \<longleftrightarrow> (\<exists>a. x = Inr a \<and> f a = Inr b)"
  by (cases x) simp_all

lemma bind_res_eq_Inl_iff:
  "bind_res x f = Inl e \<longleftrightarrow> x = Inl e \<or> (\<exists>a. x = Inr a \<and> f a = Inl e)"
  by (cases x) auto

section \<open>Overflow-checking builtins\<close>

text \<open>
  \<^verbatim>\<open>__builtin_add_overflow\<close> and \<^verbatim>\<open>__builtin_mul_overflow\<close>: the value when the exact result
  fits in the type, nothing when it does not.
\<close>

definition builtin_add_overflow :: "'a::len word \<Rightarrow> 'a word \<Rightarrow> 'a word option" where
  "builtin_add_overflow a b =
     (if unat a + unat b < 2 ^ LENGTH('a) then Some (a + b) else None)"

definition builtin_mul_overflow :: "'a::len word \<Rightarrow> 'a word \<Rightarrow> 'a word option" where
  "builtin_mul_overflow a b =
     (if unat a * unat b < 2 ^ LENGTH('a) then Some (a * b) else None)"

lemma unat_add_nowrap [c_arith]:
  fixes a b :: "'a::len word"
  shows "unat a + unat b < 2 ^ LENGTH('a) \<Longrightarrow> unat (a + b) = unat a + unat b"
  by (simp add: unat_word_ariths)

lemma unat_mult_nowrap [c_arith]:
  fixes a b :: "'a::len word"
  shows "unat a * unat b < 2 ^ LENGTH('a) \<Longrightarrow> unat (a * b) = unat a * unat b"
  by (simp add: unat_word_ariths)

lemma unat_sub_nowrap [c_arith]:
  fixes a b :: "'a::len word"
  shows "b \<le> a \<Longrightarrow> unat (a - b) = unat a - unat b"
  by (rule unat_sub)

lemma builtin_add_overflow_eq_Some:
  fixes a b c :: "'a::len word"
  shows "builtin_add_overflow a b = Some c \<longleftrightarrow> c = a + b \<and> unat c = unat a + unat b"
proof -
  have "unat (a + b) < 2 ^ LENGTH('a)" by (rule unsigned_less)
  then have "unat (a + b) = unat a + unat b \<longleftrightarrow> unat a + unat b < 2 ^ LENGTH('a)"
    using unat_add_nowrap [of a b] by linarith
  then show ?thesis by (auto simp: builtin_add_overflow_def)
qed

lemma builtin_mul_overflow_eq_Some:
  fixes a b c :: "'a::len word"
  shows "builtin_mul_overflow a b = Some c \<longleftrightarrow> c = a * b \<and> unat c = unat a * unat b"
proof -
  have "unat (a * b) < 2 ^ LENGTH('a)" by (rule unsigned_less)
  then have "unat (a * b) = unat a * unat b \<longleftrightarrow> unat a * unat b < 2 ^ LENGTH('a)"
    using unat_mult_nowrap [of a b] by linarith
  then show ?thesis by (auto simp: builtin_mul_overflow_def)
qed

lemma builtin_add_overflow_eq_None:
  fixes a b :: "'a::len word"
  shows "builtin_add_overflow a b = None \<longleftrightarrow> 2 ^ LENGTH('a) \<le> unat a + unat b"
  by (auto simp: builtin_add_overflow_def)

text \<open>An overflowing sum is smaller than either summand: the wrapped end of a range that
  overflows lies below its start.\<close>

lemma add_wraps_less:
  fixes a b :: "'a::len word"
  assumes "2 ^ LENGTH('a) \<le> unat a + unat b"
  shows "a + b < a"
proof -
  have "unat a < 2 ^ LENGTH('a)" "unat b < 2 ^ LENGTH('a)" by (rule unsigned_less)+
  then have "(unat a + unat b - 2 ^ LENGTH('a)) mod 2 ^ LENGTH('a) = unat a + unat b - 2 ^ LENGTH('a)"
    by (intro mod_less) linarith
  with assms have "unat (a + b) = unat a + unat b - 2 ^ LENGTH('a)"
    by (simp add: unat_word_ariths le_mod_geq)
  with \<open>unat b < 2 ^ LENGTH('a)\<close> assms show ?thesis
    unfolding word_less_nat_alt by linarith
qed

section \<open>Rounding macros\<close>

definition DIV_ROUNDUP :: "'a::len word \<Rightarrow> 'a word \<Rightarrow> 'a word" where
  "DIV_ROUNDUP a b = (a + (b - 1)) div b"

definition ALIGN_UP :: "'a::len word \<Rightarrow> 'a word \<Rightarrow> 'a word" where
  "ALIGN_UP x a = DIV_ROUNDUP x a * a"

definition ALIGN_DOWN :: "'a::len word \<Rightarrow> 'a word \<Rightarrow> 'a word" where
  "ALIGN_DOWN x a = (x div a) * a"

lemma unat_ALIGN_DOWN:
  fixes x a :: "'a::len word"
  shows "unat (ALIGN_DOWN x a) = unat x div unat a * unat a"
proof -
  have "unat x div unat a * unat a \<le> unat x" by (rule div_times_less_eq_dividend)
  also have "\<dots> < 2 ^ LENGTH('a)" by (rule unsigned_less)
  finally show ?thesis
    by (simp add: ALIGN_DOWN_def unat_mult_nowrap unat_div)
qed

lemma ALIGN_DOWN_le: "ALIGN_DOWN x a \<le> x"
  by (simp add: word_le_nat_alt unat_ALIGN_DOWN)

lemma ALIGN_DOWN_dvd: "unat a dvd unat (ALIGN_DOWN x a)"
  by (simp add: unat_ALIGN_DOWN)

lemma ALIGN_DOWN_greatest:
  assumes "unat a dvd k" and "k \<le> unat x"
  shows "k \<le> unat (ALIGN_DOWN x a)"
proof -
  from assms(1) obtain q where q: "k = unat a * q" by (rule dvdE)
  show ?thesis
  proof (cases "unat a = 0")
    case False
    with assms(2) q have "q \<le> unat x div unat a"
      by (simp add: less_eq_div_iff_mult_less_eq mult.commute)
    with q show ?thesis by (simp add: unat_ALIGN_DOWN mult.commute)
  qed (simp add: q)
qed

text \<open>Rounding up is exact as long as adding \<^verbatim>\<open>align - 1\<close> does not wrap.\<close>

lemma unat_ALIGN_UP:
  fixes x a :: "'a::len word"
  assumes "0 < unat a" and "unat x + (unat a - 1) < 2 ^ LENGTH('a)"
  shows "unat (ALIGN_UP x a) = (unat x + (unat a - 1)) div unat a * unat a"
proof -
  have "unat (a - 1) = unat a - 1"
    using assms(1) by (simp add: unat_sub_nowrap word_le_nat_alt)
  with assms(2) have s: "unat (x + (a - 1)) = unat x + (unat a - 1)"
    by (metis unat_add_nowrap)
  have "unat (ALIGN_DOWN (x + (a - 1)) a) = (unat x + (unat a - 1)) div unat a * unat a"
    unfolding unat_ALIGN_DOWN s ..
  then show ?thesis by (simp only: ALIGN_UP_def DIV_ROUNDUP_def ALIGN_DOWN_def)
qed

lemma round_up_bounds:
  fixes x a :: nat
  assumes "0 < a"
  shows "x \<le> (x + (a - 1)) div a * a" and "(x + (a - 1)) div a * a < x + a"
proof -
  have "(x + (a - 1)) div a * a + (x + (a - 1)) mod a = x + (a - 1)"
    by (rule div_mult_mod_eq)
  moreover have "(x + (a - 1)) mod a < a" using assms by simp
  ultimately show "x \<le> (x + (a - 1)) div a * a" and "(x + (a - 1)) div a * a < x + a"
    using assms by linarith+
qed

lemma ALIGN_UP_bounds:
  fixes x a :: "'a::len word"
  assumes "0 < unat a" and "unat x + (unat a - 1) < 2 ^ LENGTH('a)"
  shows "x \<le> ALIGN_UP x a" and "unat a dvd unat (ALIGN_UP x a)"
    and "unat (ALIGN_UP x a) < unat x + unat a"
  unfolding word_le_nat_alt unat_ALIGN_UP [OF assms]
  by (rule round_up_bounds [OF assms(1)] dvd_triv_right)+

section \<open>Signed comparisons\<close>

lemma sint_small:
  fixes x :: u64
  assumes "unat x < 2 ^ 63"
  shows "sint x = int (unat x)"
proof -
  from assms have "int (unat x) < int (2 ^ 63)" by (simp only: of_nat_less_iff)
  then have u: "uint x < 2 ^ 63" by simp
  have "- (2 ^ 63) \<le> (0::int)" "(0::int) \<le> uint x" by simp_all
  then have "- (2 ^ 63) \<le> uint x" by (rule order_trans)
  with u have "sint x = uint x" unfolding sint_uint by (intro signed_take_bit_int_eq_self) simp_all
  then show ?thesis by simp
qed

lemma sint_big:
  fixes x :: u64
  assumes "2 ^ 63 \<le> unat x"
  shows "sint x < 0"
proof -
  have "unat x < 2 ^ 64" using unsigned_less [of x] by simp
  then have "unat x div 2 ^ 63 = 1" using assms by (intro div_nat_eqI) simp_all
  then have "bit (unat x) 63" by (simp add: bit_iff_odd)
  then have "bit x 63" by (simp add: bit_unsigned_iff)
  then show ?thesis by (simp add: sint_uint bit_unsigned_iff)
qed

lemma signed_order_small:
  fixes x y :: u64
  assumes "unat x < 2 ^ 63" and "unat y < 2 ^ 63"
  shows "x <s y \<longleftrightarrow> unat x < unat y" and "x \<le>s y \<longleftrightarrow> unat x \<le> unat y"
  unfolding word_sless_alt word_sle_eq sint_small [OF assms(1)] sint_small [OF assms(2)] by (rule of_nat_less_iff of_nat_le_iff)+

lemma signed_less_negative:
  fixes x y :: u64
  assumes "2 ^ 63 \<le> unat x" and "unat y < 2 ^ 63"
  shows "x <s y"
  using sint_big [OF assms(1)] unfolding word_sless_alt sint_small [OF assms(2)]
  by (rule less_le_trans) simp

lemma unat_sub_wrap:
  fixes a b :: "'a::len word"
  assumes "a < b"
  shows "unat (a - b) = 2 ^ LENGTH('a) + unat a - unat b"
  using assms by (simp add: unat_sub_if_size word_less_nat_alt word_size)

lemma ALIGN_DOWN_gt: "0 < unat a \<Longrightarrow> unat x < unat (ALIGN_DOWN x a) + unat a"
  unfolding unat_ALIGN_DOWN using div_mult_mod_eq [of "unat x" "unat a"]
    mod_less_divisor [of "unat a" "unat x"] by linarith

lemma unat_of_nat_small: "n < 2 ^ LENGTH('a) \<Longrightarrow> unat (of_nat n :: 'a::len word) = n"
  by (simp add: unat_of_nat take_bit_nat_eq_self)

lemma u64_bound: "unat (a :: u64) < 2 ^ 64"
  using unsigned_less [of a] by simp

lemma unat_all_ones: "unat (- 1 :: u64) = 0xffffffffffffffff"
  by (simp add: unat_eq_nat_uint uint_word_ariths)

lemma unat_ucast_up:
  fixes x :: "'a::len word"
  assumes "LENGTH('a) \<le> LENGTH('b::len)"
  shows "unat (ucast x :: 'b word) = unat x"
proof -
  have "unat x < 2 ^ LENGTH('a)" by (rule unsigned_less)
  also have "(2 :: nat) ^ LENGTH('a) \<le> 2 ^ LENGTH('b)" using assms by simp
  finally have "take_bit LENGTH('b) (unat x) = unat x" by (rule take_bit_nat_eq_self)
  then show ?thesis by (simp add: unsigned_ucast_eq)
qed

end
