(* ===== verification/Memmap.thy ===== *)
theory Memmap
  imports Limine_Prelude
begin

text \<open>
  The memory map of the physical memory manager (\<^verbatim>\<open>common/mm/pmm.s2.c\<close>,
  \<^verbatim>\<open>common/mm/pmm.c\<close>): the entry type, the sanitiser and the range allocator that edits the
  map in place. The array \<^verbatim>\<open>m\<close> with its \<^verbatim>\<open>count\<close> is the list of its first \<^verbatim>\<open>count\<close>
  elements; an element is removed the way the code does it, by moving the last one over it.
\<close>

section \<open>Entries\<close>

record memmap_entry =
  me_base :: u64
  me_length :: u64
  me_type :: u32

definition MEMMAP_USABLE :: u32 where "MEMMAP_USABLE = 1"
definition MEMMAP_RESERVED :: u32 where "MEMMAP_RESERVED = 2"
definition MEMMAP_ACPI_RECLAIMABLE :: u32 where "MEMMAP_ACPI_RECLAIMABLE = 3"
definition MEMMAP_ACPI_NVS :: u32 where "MEMMAP_ACPI_NVS = 4"
definition MEMMAP_BAD_MEMORY :: u32 where "MEMMAP_BAD_MEMORY = 5"
definition MEMMAP_BOOTLOADER_RECLAIMABLE :: u32 where "MEMMAP_BOOTLOADER_RECLAIMABLE = 0x1000"
definition MEMMAP_KERNEL_AND_MODULES :: u32 where "MEMMAP_KERNEL_AND_MODULES = 0x1001"
definition MEMMAP_FRAMEBUFFER :: u32 where "MEMMAP_FRAMEBUFFER = 0x1002"
definition MEMMAP_RESERVED_MAPPED :: u32 where "MEMMAP_RESERVED_MAPPED = 0x1003"
definition MEMMAP_EFI_RECLAIMABLE :: u32 where "MEMMAP_EFI_RECLAIMABLE = 0x2000"

lemmas memmap_type_defs =
  MEMMAP_USABLE_def MEMMAP_RESERVED_def MEMMAP_ACPI_RECLAIMABLE_def MEMMAP_ACPI_NVS_def
  MEMMAP_BAD_MEMORY_def MEMMAP_BOOTLOADER_RECLAIMABLE_def MEMMAP_KERNEL_AND_MODULES_def
  MEMMAP_FRAMEBUFFER_def MEMMAP_RESERVED_MAPPED_def MEMMAP_EFI_RECLAIMABLE_def

definition PAGE_SIZE :: u64 where "PAGE_SIZE = 4096"

abbreviation me_top :: "memmap_entry \<Rightarrow> u64" where
  "me_top e \<equiv> me_base e + me_length e"

text \<open>Removal of element \<open>i\<close>: the last element takes its place unless it is the last.\<close>

definition swap_remove :: "'a list \<Rightarrow> nat \<Rightarrow> 'a list" where
  "swap_remove m i =
     (if i < length m - 1 then butlast (m[i := last m]) else butlast m)"

section \<open>The sanitiser\<close>

text \<open>\<^verbatim>\<open>align_entry\<close> returns whether the entry survives, with the base and length it wrote.\<close>

definition align_entry :: "u64 \<Rightarrow> u64 \<Rightarrow> bool \<times> u64 \<times> u64" where
  "align_entry base0 length0 =
     (if length0 < PAGE_SIZE then (False, base0, length0)
      else
        let orig_base = base0;
            base' = ALIGN_UP base0 PAGE_SIZE;
            length1 = length0 - (base' - orig_base);
            length' = ALIGN_DOWN length1 PAGE_SIZE
        in if length' = 0 then (False, base', length') else (True, base', length'))"

text \<open>
  First pass of \<^verbatim>\<open>pmm_sanitise_entries\<close>, inner loop over \<open>j\<close>: the usable entry \<open>i\<close> is
  trimmed against every other entry.
\<close>

function trim_entry :: "memmap_entry list \<Rightarrow> nat \<Rightarrow> nat \<Rightarrow> memmap_entry list res" where
  "trim_entry m i j =
     (if j < length m then
        if j = i then trim_entry m i (Suc j)
        else
          let base = me_base (m ! i);
              top0 = base + me_length (m ! i);
              res_base = me_base (m ! j);
              res_top = res_base + me_length (m ! j)
          in if res_base \<le> base \<and> res_top \<ge> top0
             then Inr (m[i := (m ! i)\<lparr>me_base := top0, me_length := 0\<rparr>])
             else if (res_base \<ge> base \<and> res_base < top0) \<and> (res_top \<ge> base \<and> res_top < top0)
             then Inl (Panic False
               ''A non-usable memory map entry is inside a usable section.'')
             else
               let top1 = (if res_base \<ge> base \<and> res_base < top0 then res_base else top0);
                   base' = (if res_top \<ge> base \<and> res_top < top1 then res_top else base)
               in trim_entry (m[i := (m ! i)\<lparr>me_base := base', me_length := top1 - base'\<rparr>])
                    i (Suc j)
      else Inr m)"
  by pat_completeness auto
termination
  by (relation "measure (\<lambda>(m, i, j). length m - j)") auto

declare trim_entry.simps [simp del]

lemma trim_entry_length: "trim_entry m i j = Inr m' \<Longrightarrow> length m' = length m"
proof (induction m i j rule: trim_entry.induct)
  case (1 m i j)
  from "1.IH" "1.prems" show ?case
    by (auto simp: trim_entry.simps [of m i j] Let_def split: if_splits)
qed

text \<open>First pass, outer loop over \<open>i\<close>.\<close>

function sanitise_overlaps :: "bool \<Rightarrow> memmap_entry list \<Rightarrow> nat \<Rightarrow> memmap_entry list res" where
  "sanitise_overlaps align_entries m i =
     (if i < length m then
        if me_type (m ! i) \<noteq> MEMMAP_USABLE then sanitise_overlaps align_entries m (Suc i)
        else
          (case trim_entry m i 0 of
             Inl e \<Rightarrow> Inl e
           | Inr m1 \<Rightarrow>
               if me_length (m1 ! i) = 0
               then sanitise_overlaps align_entries (swap_remove m1 i) i
               else if align_entries
               then
                 (case align_entry (me_base (m1 ! i)) (me_length (m1 ! i)) of
                    (ok, b, l) \<Rightarrow>
                      let m2 = m1[i := (m1 ! i)\<lparr>me_base := b, me_length := l\<rparr>] in
                      if \<not> ok then sanitise_overlaps align_entries (swap_remove m2 i) i
                      else sanitise_overlaps align_entries m2 (Suc i))
               else sanitise_overlaps align_entries m1 (Suc i))
      else Inr m)"
  by pat_completeness auto
termination
  by (relation "measure (\<lambda>(a, m, i). length m - i)")
    (auto simp: swap_remove_def dest!: trim_entry_length)

declare sanitise_overlaps.simps [simp del]

text \<open>Second pass: usable memory below the first page goes, unless the sanitiser keeps it.\<close>

function sanitise_low :: "bool \<Rightarrow> memmap_entry list \<Rightarrow> nat \<Rightarrow> memmap_entry list" where
  "sanitise_low keep_first_page m i =
     (if i < length m then
        if me_type (m ! i) \<noteq> MEMMAP_USABLE then sanitise_low keep_first_page m (Suc i)
        else if \<not> keep_first_page \<and> me_base (m ! i) < 0x1000 then
          (case builtin_add_overflow (me_base (m ! i)) (me_length (m ! i)) of
             None \<Rightarrow> sanitise_low keep_first_page (swap_remove m i) i
           | Some entry_top \<Rightarrow>
               if entry_top \<le> 0x1000 then sanitise_low keep_first_page (swap_remove m i) i
               else
                 let e = (m ! i)\<lparr>me_base := 0x1000,
                           me_length := me_length (m ! i) - (0x1000 - me_base (m ! i))\<rparr>
                 in if me_length e = 0
                    then sanitise_low keep_first_page (swap_remove (m[i := e]) i) i
                    else sanitise_low keep_first_page (m[i := e]) (Suc i))
        else if me_length (m ! i) = 0
        then sanitise_low keep_first_page (swap_remove m i) i
        else sanitise_low keep_first_page m (Suc i)
      else m)"
  by pat_completeness auto
termination
  by (relation "measure (\<lambda>(k, m, i). length m - i)") (auto simp: swap_remove_def)

declare sanitise_low.simps [simp del]

text \<open>Third pass: selection sort on the base address.\<close>

function find_min_index :: "memmap_entry list \<Rightarrow> u64 \<Rightarrow> nat \<Rightarrow> nat \<Rightarrow> nat" where
  "find_min_index m min_base min_index i =
     (if i < length m then
        if me_base (m ! i) < min_base then find_min_index m (me_base (m ! i)) i (Suc i)
        else find_min_index m min_base min_index (Suc i)
      else min_index)"
  by pat_completeness auto
termination
  by (relation "measure (\<lambda>(m, mb, mi, i). length m - i)") auto

declare find_min_index.simps [simp del]

function sort_entries :: "memmap_entry list \<Rightarrow> nat \<Rightarrow> memmap_entry list" where
  "sort_entries m p =
     (if p + 1 < length m then
        let min_index = find_min_index m (me_base (m ! p)) p p;
            min_e = m ! min_index
        in sort_entries (m[min_index := m ! p, p := min_e]) (Suc p)
      else m)"
  by pat_completeness auto
termination
  by (relation "measure (\<lambda>(m, p). length m - p)") (auto simp: Let_def)

declare sort_entries.simps [simp del]

text \<open>Fourth pass: neighbours of one mergeable type that touch become one entry.\<close>

definition mergeable :: "u32 \<Rightarrow> bool" where
  "mergeable t \<longleftrightarrow> \<not> (t \<noteq> MEMMAP_BOOTLOADER_RECLAIMABLE \<and> t \<noteq> MEMMAP_RESERVED_MAPPED
     \<and> t \<noteq> MEMMAP_USABLE)"

function merge_entries :: "memmap_entry list \<Rightarrow> nat \<Rightarrow> memmap_entry list" where
  "merge_entries m i =
     (if i + 1 < length m then
        if \<not> mergeable (me_type (m ! i)) then merge_entries m (Suc i)
        else if me_type (m ! (i + 1)) = me_type (m ! i)
              \<and> me_base (m ! (i + 1)) = me_base (m ! i) + me_length (m ! i)
        then
          let m1 = m[i := (m ! i)\<lparr>me_length := me_length (m ! i) + me_length (m ! (i + 1))\<rparr>]
          in merge_entries (take (i + 1) m1 @ drop (i + 2) m1) i
        else merge_entries m (Suc i)
      else m)"
  by pat_completeness auto
termination
  by (relation "measure (\<lambda>(m, i). length m - i)") auto

declare merge_entries.simps [simp del]

definition pmm_sanitise_entries ::
    "bool \<Rightarrow> bool \<Rightarrow> memmap_entry list \<Rightarrow> memmap_entry list res" where
  "pmm_sanitise_entries keep_first_page align_entries m =
     (case sanitise_overlaps align_entries m 0 of
        Inl e \<Rightarrow> Inl e
      | Inr m1 \<Rightarrow>
          let m2 = sanitise_low keep_first_page m1 0;
              m3 = sort_entries m2 0
          in Inr (merge_entries m3 0))"

section \<open>The range allocator\<close>

text \<open>
  \<^verbatim>\<open>pmm_new_entry\<close>: every entry that meets \<open>[base, top)\<close> is dropped, shaved or split, then
  the new entry is appended. \<open>mx\<close> is \<^verbatim>\<open>memmap_max_entries\<close>.
\<close>

function carve_entries ::
    "nat \<Rightarrow> u64 \<Rightarrow> u64 \<Rightarrow> memmap_entry list \<Rightarrow> nat \<Rightarrow> memmap_entry list res" where
  "carve_entries mx base top0 m i =
     (if i < length m then
        let entry_base = me_base (m ! i) in
        (case builtin_add_overflow (me_base (m ! i)) (me_length (m ! i)) of
           None \<Rightarrow> carve_entries mx base top0 m (Suc i)
         | Some entry_top \<Rightarrow>
             if base \<le> entry_base \<and> top0 \<ge> entry_top
             then carve_entries mx base top0 (swap_remove m i) i
             else if base \<le> entry_base \<and> top0 < entry_top \<and> top0 > entry_base
             then carve_entries mx base top0
               (m[i := (m ! i)\<lparr>me_base := me_base (m ! i) + (top0 - entry_base),
                     me_length := me_length (m ! i) - (top0 - entry_base)\<rparr>]) (Suc i)
             else if base > entry_base \<and> base < entry_top \<and> top0 \<ge> entry_top
             then carve_entries mx base top0
               (m[i := (m ! i)\<lparr>me_length := me_length (m ! i) - (entry_top - base)\<rparr>]) (Suc i)
             else if base > entry_base \<and> top0 < entry_top
             then
               if length m \<ge> mx then Inl (Panic False ''Memory map exhausted.'')
               else
                 carve_entries mx base top0
                   (m[i := (m ! i)\<lparr>me_length := me_length (m ! i) - (entry_top - base)\<rparr>]
                     @ [\<lparr>me_base = top0, me_length = entry_top - top0, me_type = me_type (m ! i)\<rparr>])
                   (Suc i)
             else carve_entries mx base top0 m (Suc i))
      else Inr m)"
  by pat_completeness auto
termination
  by (relation "measures [\<lambda>(mx, b, t, m, i). max mx (length m) - i,
        \<lambda>(mx, b, t, m, i). length m]")
    (auto simp: swap_remove_def)

declare carve_entries.simps [simp del]

definition pmm_new_entry ::
    "nat \<Rightarrow> memmap_entry list \<Rightarrow> u64 \<Rightarrow> u64 \<Rightarrow> u32 \<Rightarrow> (bool \<times> memmap_entry list) res" where
  "pmm_new_entry mx m base len ty =
     (case builtin_add_overflow base len of
        None \<Rightarrow> Inl (Panic False ''pmm: Integer overflow in memory range calculation'')
      | Some top0 \<Rightarrow>
          (case carve_entries mx base top0 m 0 of
             Inl e \<Rightarrow> Inl e
           | Inr m1 \<Rightarrow>
               if length m1 \<ge> mx then Inl (Panic False ''Memory map exhausted.'')
               else Inr (True, m1 @ [\<lparr>me_base = base, me_length = len, me_type = ty\<rparr>])))"

definition pmm_check_type :: "memmap_entry list \<Rightarrow> u64 \<Rightarrow> u64" where
  "pmm_check_type m addr =
     (case find (\<lambda>e. addr \<ge> me_base e \<and> addr < me_top e) m of
        Some e \<Rightarrow> ucast (me_type e)
      | None \<Rightarrow> - 1)"

text \<open>
  \<^verbatim>\<open>memmap_alloc_range_in\<close>: the loop stops at the first entry of the overlay type that holds
  the range; \<^verbatim>\<open>pmm_new_entry\<close> either panics or succeeds, so the loop goes no further.
\<close>

definition range_in_entry :: "u64 \<Rightarrow> u64 \<Rightarrow> u32 \<Rightarrow> memmap_entry \<Rightarrow> bool" where
  "range_in_entry base top0 overlay_type e \<longleftrightarrow>
     \<not> (overlay_type \<noteq> 0 \<and> me_type e \<noteq> overlay_type) \<and>
     (case builtin_add_overflow (me_base e) (me_length e) of
        None \<Rightarrow> False
      | Some entry_top \<Rightarrow> base \<ge> me_base e \<and> base < entry_top \<and> top0 \<le> entry_top)"

definition memmap_alloc_range_in ::
    "bool \<Rightarrow> nat \<Rightarrow> memmap_entry list \<Rightarrow> u64 \<Rightarrow> u64 \<Rightarrow> u32 \<Rightarrow> u32 \<Rightarrow> bool \<Rightarrow> bool \<Rightarrow> bool
     \<Rightarrow> (bool \<times> memmap_entry list) res" where
  "memmap_alloc_range_in keep mx m base len ty overlay_type do_panic simulation new_entry =
     (if len = 0 then Inr (True, m)
      else if simulation \<and> new_entry then Inr (True, m)
      else
        (case builtin_add_overflow base len of
           None \<Rightarrow> if do_panic then Inl (Panic False ''Memory allocation overflow.'')
                    else Inr (False, m)
         | Some top0 \<Rightarrow>
             let add = bind_res (pmm_new_entry mx m base len ty)
                   (\<lambda>(ok, m1). if \<not> ok then Inr (False, m)
                      else bind_res (pmm_sanitise_entries keep False m1)
                             (\<lambda>m2. Inr (True, m2)))
             in if list_ex (range_in_entry base top0 overlay_type) m
                then (if simulation then Inr (True, m) else add)
                else if \<not> new_entry \<and> do_panic
                then Inl (Panic False ''Memory allocation failure.'')
                else if \<not> new_entry then Inr (False, m)
                else add))"

section \<open>What a map says of an address\<close>

text \<open>
  An entry holds the addresses from its base up to its end as the code computes it, so an entry
  whose end wraps around holds none. The abstract value of a map is, for every address, the
  multiset of the types of the entries that hold it.
\<close>

definition in_entry :: "u64 \<Rightarrow> memmap_entry \<Rightarrow> bool" where
  "in_entry a e \<longleftrightarrow> me_base e \<le> a \<and> a < me_top e"

definition type_at :: "memmap_entry \<Rightarrow> u64 \<Rightarrow> u32 multiset" where
  "type_at e a = (if in_entry a e then {#me_type e#} else {#})"

definition types_of :: "memmap_entry multiset \<Rightarrow> u64 \<Rightarrow> u32 multiset" where
  "types_of M a = image_mset me_type (filter_mset (in_entry a) M)"

abbreviation types_at :: "memmap_entry list \<Rightarrow> u64 \<Rightarrow> u32 multiset" where
  "types_at m \<equiv> types_of (mset m)"

definition wf_entry :: "memmap_entry \<Rightarrow> bool" where
  "wf_entry e \<longleftrightarrow> me_base e < me_top e"

definition no_wrap :: "memmap_entry \<Rightarrow> bool" where
  "no_wrap e \<longleftrightarrow> me_base e \<le> me_top e"

definition wf_map :: "memmap_entry list \<Rightarrow> bool" where
  "wf_map m \<longleftrightarrow> (\<forall>e \<in> set m. wf_entry e) \<and> (\<forall>a. size (types_at m a) \<le> 1)"

lemma wf_entry_iff:
  "wf_entry e \<longleftrightarrow> 0 < me_length e \<and> unat (me_base e) + unat (me_length e) < 2 ^ 64"
proof (cases "unat (me_base e) + unat (me_length e) < 2 ^ 64")
  case True
  then have "unat (me_top e) = unat (me_base e) + unat (me_length e)"
    by (intro unat_add_nowrap) simp
  with True show ?thesis by (simp add: wf_entry_def word_less_nat_alt)
next
  case False
  then have "me_top e < me_base e" by (intro add_wraps_less) simp
  with False show ?thesis by (auto simp: wf_entry_def)
qed

lemma wf_entry_no_wrap: "wf_entry e \<longleftrightarrow> no_wrap e \<and> me_length e \<noteq> 0"
  by (auto simp: wf_entry_def no_wrap_def)
    (metis add.right_neutral add_left_cancel le_neq_trans)

lemma types_of_simps [simp]:
  "types_of {#} a = {#}"
  "types_of (add_mset e M) a = type_at e a + types_of M a"
  "types_of (M + N) a = types_of M a + types_of N a"
  by (simp_all add: types_of_def type_at_def)

lemma mset_swap_remove: "i < length m \<Longrightarrow> mset (swap_remove m i) = mset m - {#m ! i#}"
proof -
  assume i: "i < length m"
  then obtain xs x where m: "m = xs @ [x]" by (cases m rule: rev_cases) auto
  show ?thesis
  proof (cases "i < length xs")
    case True
    then have "swap_remove m i = xs[i := x]"
      by (simp add: swap_remove_def m list_update_append)
    with True show ?thesis by (simp add: m mset_update nth_append)
  next
    case False
    with i m have "i = length xs" by simp
    then show ?thesis by (simp add: m swap_remove_def)
  qed
qed

lemma nth_swap_remove: "k < i \<Longrightarrow> i < length m \<Longrightarrow> swap_remove m i ! k = m ! k"
  by (auto simp: swap_remove_def nth_butlast)

lemma length_swap_remove [simp]: "length (swap_remove m i) = length m - 1"
  by (simp add: swap_remove_def)

lemma mset_nth_split: "i < length m \<Longrightarrow> mset m = add_mset (m ! i) (mset m - {#m ! i#})"
  by simp

lemma types_at_nth:
  "i < length m \<Longrightarrow> types_at m a = type_at (m ! i) a + types_of (mset m - {#m ! i#}) a"
  using mset_nth_split [of i m] by (metis types_of_simps(2))

lemma types_at_update:
  "i < length m \<Longrightarrow> types_at (m[i := e]) a = type_at e a + types_of (mset m - {#m ! i#}) a"
  by (simp add: mset_update)

lemma types_at_update_same:
  assumes "i < length m" and "type_at e a = type_at (m ! i) a"
  shows "types_at (m[i := e]) a = types_at m a"
  using types_at_update [OF assms(1), of e a] types_at_nth [OF assms(1), of a] assms(2) by simp

lemma types_at_swap_remove:
  assumes "i < length m"
  shows "types_at (swap_remove m i) a = types_of (mset m - {#m ! i#}) a"
  using assms by (simp add: mset_swap_remove)

lemma set_swap_remove_subset: "i < length m \<Longrightarrow> set (swap_remove m i) \<subseteq> set m"
  by (metis mset_swap_remove in_diffD set_mset_mset subsetI)

section \<open>Carving a range out of the map\<close>

definition avoids :: "u64 \<Rightarrow> u64 \<Rightarrow> memmap_entry \<Rightarrow> bool" where
  "avoids base top0 e \<longleftrightarrow> (\<forall>a. base \<le> a \<and> a < top0 \<longrightarrow> \<not> in_entry a e)"

definition outside :: "u64 \<Rightarrow> u64 \<Rightarrow> u64 \<Rightarrow> bool" where
  "outside base top0 a \<longleftrightarrow> a < base \<or> top0 \<le> a"

lemma overflow_in_entry:
  "builtin_add_overflow (me_base e) (me_length e) = None \<Longrightarrow> \<not> in_entry a e"
  using add_wraps_less [of "me_base e" "me_length e"]
  by (auto simp: builtin_add_overflow_eq_None in_entry_def)

text \<open>
  What one entry leaves after the range has been cut out of it. The loop of
  \<^verbatim>\<open>pmm_new_entry\<close> replaces every entry of the map by its pieces, in some order.
\<close>

definition cut_pieces :: "u64 \<Rightarrow> u64 \<Rightarrow> memmap_entry \<Rightarrow> memmap_entry list" where
  "cut_pieces base top0 e =
     (if \<not> me_base e \<le> me_top e then [e]
      else if base \<le> me_base e \<and> me_top e \<le> top0 then []
      else if base \<le> me_base e \<and> top0 < me_top e \<and> me_base e < top0
      then [e\<lparr>me_base := top0, me_length := me_top e - top0\<rparr>]
      else if me_base e < base \<and> base < me_top e \<and> me_top e \<le> top0
      then [e\<lparr>me_length := base - me_base e\<rparr>]
      else if me_base e < base \<and> top0 < me_top e
      then [e\<lparr>me_length := base - me_base e\<rparr>, e\<lparr>me_base := top0, me_length := me_top e - top0\<rparr>]
      else [e])"

lemma builtin_add_overflow_order [code]:
  fixes a b :: "'a::len word"
  shows "builtin_add_overflow a b = (if a \<le> a + b then Some (a + b) else None)"
proof (cases "unat a + unat b < 2 ^ LENGTH('a)")
  case True
  then have "a \<le> a + b" by (simp add: word_le_nat_alt unat_add_nowrap)
  with True show ?thesis by (simp add: builtin_add_overflow_def)
next
  case False
  then have "a + b < a" by (intro add_wraps_less) simp
  with False show ?thesis by (simp add: builtin_add_overflow_def)
qed

lemma cut_pieces_avoids: "base \<le> top0 \<Longrightarrow> p \<in> set (cut_pieces base top0 e) \<Longrightarrow> avoids base top0 p"
  unfolding avoids_def in_entry_def cut_pieces_def
  by (auto split: if_splits)

lemma cut_pieces_types:
  "base \<le> top0 \<Longrightarrow> outside base top0 a \<Longrightarrow> types_at (cut_pieces base top0 e) a = type_at e a"
  by (auto simp: cut_pieces_def type_at_def outside_def in_entry_def)

lemma cut_pieces_wf: "wf_entry e \<Longrightarrow> p \<in> set (cut_pieces base top0 e) \<Longrightarrow> wf_entry p"
  by (auto simp: cut_pieces_def wf_entry_def split: if_splits)

lemma cut_pieces_above:
  "me_base e = top0 \<Longrightarrow> top0 < me_top e \<Longrightarrow> base \<le> top0 \<Longrightarrow> cut_pieces base top0 e = [e]"
  by (auto simp: cut_pieces_def)

lemma cut_pieces_cases:
  "cut_pieces base top0 e = [] \<or> (\<exists>e'. cut_pieces base top0 e = [e'])
   \<or> (\<exists>e1 e2. cut_pieces base top0 e = [e1, e2] \<and> me_base e2 = top0 \<and> top0 < me_top e2)"
  by (simp add: cut_pieces_def)

lemma carve_entries_step:
  assumes "i < length m"
  shows "carve_entries mx base top0 m i =
     (case cut_pieces base top0 (m ! i) of
        [] \<Rightarrow> carve_entries mx base top0 (swap_remove m i) i
      | [e1] \<Rightarrow> carve_entries mx base top0 (m[i := e1]) (Suc i)
      | e1 # es \<Rightarrow> if mx \<le> length m then Inl (Panic False ''Memory map exhausted.'')
                   else carve_entries mx base top0 (m[i := e1] @ es) (Suc i))"
proof -
  have eq: "me_length (m ! i) - (me_top (m ! i) - base) = base - me_base (m ! i)"
    "me_length (m ! i) - (top0 - me_base (m ! i)) = me_top (m ! i) - top0"
    "\<lparr>me_base = top0, me_length = me_top (m ! i) - top0, me_type = me_type (m ! i)\<rparr>
      = (m ! i)\<lparr>me_base := top0, me_length := me_top (m ! i) - top0\<rparr>"
    by simp_all
  show ?thesis using assms
    unfolding carve_entries.simps [of mx base top0 m i] builtin_add_overflow_order
      cut_pieces_def Let_def
    by (auto simp: eq)
qed


definition pieces :: "u64 \<Rightarrow> u64 \<Rightarrow> memmap_entry multiset \<Rightarrow> memmap_entry multiset" where
  "pieces base top0 M = (\<Sum>e \<in># M. mset (cut_pieces base top0 e))"

lemma pieces_simps [simp]:
  "pieces base top0 {#} = {#}"
  "pieces base top0 (add_mset e M) = mset (cut_pieces base top0 e) + pieces base top0 M"
  "pieces base top0 (M + N) = pieces base top0 M + pieces base top0 N"
  by (simp_all add: pieces_def)

lemma mset_drop_swap_remove:
  "i < length m \<Longrightarrow> mset (drop i (swap_remove m i)) = mset (drop (Suc i) m)"
proof -
  assume i: "i < length m"
  then obtain xs x where m: "m = xs @ [x]" by (cases m rule: rev_cases) auto
  show ?thesis
  proof (cases "i < length xs")
    case True
    then have "drop i (xs[i := x]) = x # drop (Suc i) xs"
      by (simp add: Cons_nth_drop_Suc [symmetric])
    with True show ?thesis by (simp add: swap_remove_def m list_update_append)
  qed (use i m in \<open>simp add: swap_remove_def\<close>)
qed

lemma take_swap_remove: "i < length m \<Longrightarrow> take i (swap_remove m i) = take i m"
  by (auto simp: swap_remove_def take_butlast butlast_conv_take dest: le_antisym)

lemma carve_entries_pieces:
  assumes "carve_entries mx base top0 m i = Inr m'" and bt: "base \<le> top0" and "i \<le> length m"
  shows "mset m' = mset (take i m) + pieces base top0 (mset (drop i m))"
  using assms(1,3)
proof (induction "(m, i)" arbitrary: m i rule: wf_induct_rule [OF wf_measures
      [of "[\<lambda>(m, i). max mx (length m) - i, \<lambda>(m, i). length m]"]])
  case 1
  show ?case
  proof (cases "i < length m")
    case False
    with "1.prems" show ?thesis by (simp add: carve_entries.simps)
  next
    case i: True
    let ?p = "cut_pieces base top0 (m ! i)"
    have d: "mset (drop i m) = add_mset (m ! i) (mset (drop (Suc i) m))"
      using i by (metis Cons_nth_drop_Suc mset.simps(2))
    from cut_pieces_cases [of base top0 "m ! i"] show ?thesis
    proof (elim disjE exE conjE)
      assume p: "?p = []"
      with "1.prems" i have "carve_entries mx base top0 (swap_remove m i) i = Inr m'"
        by (simp add: carve_entries_step)
      moreover have "max mx (length m - 1) - i < max mx (length m) - i \<or>
          max mx (length m - 1) - i = max mx (length m) - i" and "i \<le> length m - 1"
        and "length m - 1 < length m" using i by linarith+
      ultimately show ?thesis using "1.hyps" [of "swap_remove m i" i] i p
        by (simp add: d take_swap_remove mset_drop_swap_remove)
    next
      fix e' assume p: "?p = [e']"
      with "1.prems" i have "carve_entries mx base top0 (m[i := e']) (Suc i) = Inr m'"
        by (simp add: carve_entries_step)
      from "1.hyps" [OF _ this] i p show ?thesis
        by (simp add: d take_Suc_conv_app_nth)
    next
      fix e1 e2 assume p: "?p = [e1, e2]" and e2: "me_base e2 = top0" "top0 < me_top e2"
      with "1.prems" i have room: "\<not> mx \<le> length m"
        and "carve_entries mx base top0 (m[i := e1] @ [e2]) (Suc i) = Inr m'"
        by (simp_all add: carve_entries_step split: if_splits)
      from "1.hyps" [OF _ this(2)] i p room cut_pieces_above [OF e2 bt] show ?thesis
        by (simp add: d take_Suc_conv_app_nth)
    qed
  qed
qed

text \<open>The effect of the whole loop on the abstract map.\<close>

lemma types_of_pieces:
  "base \<le> top0 \<Longrightarrow> outside base top0 a \<Longrightarrow> types_of (pieces base top0 M) a = types_of M a"
  by (induction M) (simp_all add: cut_pieces_types)

lemma in_pieces: "p \<in># pieces base top0 M \<Longrightarrow> \<exists>e \<in># M. p \<in> set (cut_pieces base top0 e)"
  by (induction M) auto

lemma types_of_avoids:
  assumes "\<And>p. p \<in># M \<Longrightarrow> avoids base top0 p" and "\<not> outside base top0 a"
  shows "types_of M a = {#}"
proof -
  have "\<not> in_entry a p" if "p \<in># M" for p
    using assms(1) [OF that] assms(2) by (simp add: avoids_def outside_def not_less not_le)
  then show ?thesis by (auto simp: types_of_def filter_mset_eq_mempty_iff)
qed

lemma types_of_pieces_inside:
  "base \<le> top0 \<Longrightarrow> \<not> outside base top0 a \<Longrightarrow> types_of (pieces base top0 M) a = {#}"
  by (rule types_of_avoids) (auto dest!: in_pieces intro: cut_pieces_avoids)

lemma pieces_wf: "\<forall>e \<in># M. wf_entry e \<Longrightarrow> p \<in># pieces base top0 M \<Longrightarrow> wf_entry p"
  by (auto dest!: in_pieces intro: cut_pieces_wf)

lemma pmm_new_entry_mset:
  assumes "pmm_new_entry mx m base len ty = Inr (ok, m')"
  shows "ok" and "base \<le> base + len"
    and "mset m' = add_mset \<lparr>me_base = base, me_length = len, me_type = ty\<rparr>
           (pieces base (base + len) (mset m))"
    and "length m' \<le> mx"
proof -
  from assms obtain m1 where le: "base \<le> base + len" and "ok"
    and c: "carve_entries mx base (base + len) m 0 = Inr m1" and "length m1 < mx"
    and m': "m' = m1 @ [\<lparr>me_base = base, me_length = len, me_type = ty\<rparr>]"
    by (auto simp: pmm_new_entry_def builtin_add_overflow_order split: if_splits sum.splits)
  then show "ok" "base \<le> base + len" "length m' \<le> mx" by simp_all
  show "mset m' = add_mset \<lparr>me_base = base, me_length = len, me_type = ty\<rparr>
           (pieces base (base + len) (mset m))"
    using carve_entries_pieces [OF c le] by (simp add: m')
qed

lemma pmm_new_entry_types:
  assumes "pmm_new_entry mx m base len ty = Inr (ok, m')"
  shows "types_at m' a =
    (if base \<le> a \<and> a < base + len then {#ty#} else types_at m a)"
proof (cases "outside base (base + len) a")
  case True
  with pmm_new_entry_mset [OF assms] show ?thesis
    by (auto simp: types_of_pieces type_at_def in_entry_def outside_def)
next
  case False
  with pmm_new_entry_mset [OF assms] show ?thesis
    by (auto simp: types_of_pieces_inside type_at_def in_entry_def outside_def)
qed

lemma pmm_new_entry_wf:
  assumes "pmm_new_entry mx m base len ty = Inr (ok, m')" and "wf_map m" and "0 < len"
  shows "wf_map m'"
proof -
  note new = pmm_new_entry_mset [OF assms(1)]
  from new(2) assms(3) have "base < base + len" by (metis add_left_cancel le_neq_trans less_irrefl add_0_right)
  then have "wf_entry \<lparr>me_base = base, me_length = len, me_type = ty\<rparr>"
    by (simp add: wf_entry_def)
  moreover have "wf_entry p" if "p \<in># pieces base (base + len) (mset m)" for p
    using that assms(2) by (intro pieces_wf) (auto simp: wf_map_def)
  ultimately have "\<forall>e \<in># mset m'. wf_entry e" unfolding new(3) by auto
  moreover have "size (types_at m' a) \<le> 1" for a
    using assms(2) by (simp add: pmm_new_entry_types [OF assms(1)] wf_map_def)
  ultimately show ?thesis by (simp add: wf_map_def)
qed

text \<open>Room for the new entries: a range splits at most one entry of a well-formed map.\<close>

definition split_count :: "u64 \<Rightarrow> u64 \<Rightarrow> memmap_entry list \<Rightarrow> nat" where
  "split_count base top0 m = length (filter (\<lambda>e. length (cut_pieces base top0 e) = 2) m)"

lemma split_count_Cons:
  "split_count base top0 (e # m)
     = (if length (cut_pieces base top0 e) = 2 then 1 else 0) + split_count base top0 m"
  by (simp add: split_count_def)

lemma split_count_mset: "mset m = mset m' \<Longrightarrow> split_count base top0 m = split_count base top0 m'"
  unfolding split_count_def by (metis mset_filter size_mset)

lemma carve_entries_room:
  assumes "base \<le> top0" and "i \<le> length m"
    and "length m + split_count base top0 (drop i m) \<le> mx"
  shows "\<exists>m'. carve_entries mx base top0 m i = Inr m'
    \<and> length m' \<le> length m + split_count base top0 (drop i m)"
  using assms(2,3)
proof (induction "(m, i)" arbitrary: m i rule: wf_induct_rule [OF wf_measures
      [of "[\<lambda>(m, i). max mx (length m) - i, \<lambda>(m, i). length m]"]])
  case 1
  show ?case
  proof (cases "i < length m")
    case False
    with "1.prems" show ?thesis by (simp add: carve_entries.simps)
  next
    case i: True
    let ?p = "cut_pieces base top0 (m ! i)"
    have d: "drop i m = m ! i # drop (Suc i) m" using i by (simp add: Cons_nth_drop_Suc)
    from cut_pieces_cases [of base top0 "m ! i"] show ?thesis
    proof (elim disjE exE conjE)
      assume p: "?p = []"
      have "split_count base top0 (drop i (swap_remove m i)) = split_count base top0 (drop (Suc i) m)"
        by (rule split_count_mset) (rule mset_drop_swap_remove [OF i])
      moreover have "max mx (length m - 1) - i < max mx (length m) - i \<or>
          max mx (length m - 1) - i = max mx (length m) - i" and "i \<le> length m - 1"
        and "length m - 1 < length m" using i by linarith+
      ultimately show ?thesis using "1.hyps" [of "swap_remove m i" i] "1.prems" i p
        by (fastforce simp: carve_entries_step d split_count_Cons)
    next
      fix e' assume p: "?p = [e']"
      with "1.hyps" [of "m[i := e']" "Suc i"] "1.prems" i show ?thesis
        by (simp add: carve_entries_step d split_count_Cons)
    next
      fix e1 e2 assume p: "?p = [e1, e2]" and e2: "me_base e2 = top0" "top0 < me_top e2"
      have "split_count base top0 (drop (Suc i) m @ [e2]) = split_count base top0 (drop (Suc i) m)"
        using cut_pieces_above [OF e2 assms(1)] by (simp add: split_count_def)
      with "1.hyps" [of "m[i := e1] @ [e2]" "Suc i"] "1.prems" i p show ?thesis
        by (simp add: carve_entries_step d split_count_Cons)
    qed
  qed
qed

lemma split_count_le_1:
  assumes "wf_map m" and "base < top0"
  shows "split_count base top0 m \<le> 1"
proof -
  have "in_entry base e" if "length (cut_pieces base top0 e) = 2" for e
    using that assms(2) by (auto simp: cut_pieces_def in_entry_def split: if_splits)
  then have "split_count base top0 m \<le> length (filter (in_entry base) m)"
    unfolding split_count_def by (induction m) auto
  also have "\<dots> = size (types_at m base)" by (simp add: types_of_def flip: mset_filter)
  also have "\<dots> \<le> 1" using assms(1) by (simp add: wf_map_def)
  finally show ?thesis .
qed

lemma pmm_new_entry_room:
  assumes "wf_map m" and "base < base + len" and "length m + 2 \<le> mx"
  shows "\<exists>m'. pmm_new_entry mx m base len ty = Inr (True, m')"
proof -
  have "length m + split_count base (base + len) (drop 0 m) \<le> mx"
    using split_count_le_1 [OF assms(1,2)] assms(3) by simp
  from carve_entries_room [OF less_imp_le [OF assms(2)] le0 this] obtain m'
    where "carve_entries mx base (base + len) m 0 = Inr m'" and "length m' < mx"
    using split_count_le_1 [OF assms(1,2)] assms(3) by fastforce
  with assms(2) show ?thesis by (simp add: pmm_new_entry_def builtin_add_overflow_order)
qed

end
