(* ===== verification/Sanitise.thy ===== *)
theory Sanitise
  imports Memmap
begin

text \<open>
  Correctness of \<^verbatim>\<open>pmm_sanitise_entries\<close>, pass by pass: the sort permutes the map and orders
  it, the merge keeps every address's type and leaves no two touching neighbours of one
  mergeable type, the low pass drops usable memory below the first page, and the overlap pass
  leaves a well-formed map alone.
\<close>

section \<open>The selection sort\<close>

lemma find_min_index_spec:
  assumes "mb = me_base (m ! mi)" and "mi < length m"
  shows "find_min_index m mb mi i < length m
    \<and> (find_min_index m mb mi i = mi \<or> i \<le> find_min_index m mb mi i)
    \<and> me_base (m ! find_min_index m mb mi i) \<le> mb
    \<and> (\<forall>k. i \<le> k \<and> k < length m \<longrightarrow> me_base (m ! find_min_index m mb mi i) \<le> me_base (m ! k))"
  using assms
proof (induction m mb mi i rule: find_min_index.induct)
  case (1 m mb mi i)
  show ?case
  proof (cases "i < length m")
    case False
    with "1.prems" show ?thesis by (auto simp: find_min_index.simps)
  next
    case i: True
    let ?r = "find_min_index m mb mi i"
    have k: "(\<forall>k. i \<le> k \<and> k < length m \<longrightarrow> P k) \<longleftrightarrow> P i \<and> (\<forall>k. Suc i \<le> k \<and> k < length m \<longrightarrow> P k)"
      for P using i by (metis Suc_leD Suc_leI le_less order_refl)
    show ?thesis
    proof (cases "me_base (m ! i) < mb")
      case True
      with i have "?r = find_min_index m (me_base (m ! i)) i (Suc i)"
        by (simp add: find_min_index.simps [of m mb mi i])
      with "1.IH"(1) [OF i True refl i] True show ?thesis unfolding k by auto
    next
      case False
      with i have "?r = find_min_index m mb mi (Suc i)"
        by (simp add: find_min_index.simps [of m mb mi i])
      with "1.IH"(2) [OF i False "1.prems"] False show ?thesis unfolding k by auto
    qed
  qed
qed

lemma sort_entries_step:
  assumes "p + 1 < length m"
  obtains r where "p \<le> r" "r < length m" "\<And>k. p \<le> k \<Longrightarrow> k < length m \<Longrightarrow> me_base (m ! r) \<le> me_base (m ! k)"
    and "sort_entries m p = sort_entries (m[r := m ! p, p := m ! r]) (Suc p)"
proof -
  let ?r = "find_min_index m (me_base (m ! p)) p p"
  have "sort_entries m p = sort_entries (m[?r := m ! p, p := m ! ?r]) (Suc p)"
    using assms by (simp add: sort_entries.simps [of m p] Let_def)
  with find_min_index_spec [of "me_base (m ! p)" m p p] assms show ?thesis
    by (intro that [of ?r]) auto
qed

lemma mset_sort_entries: "mset (sort_entries m p) = mset m"
proof (induction "length m - p" arbitrary: m p)
  case 0
  then show ?case by (simp add: sort_entries.simps)
next
  case (Suc n)
  show ?case
  proof (cases "p + 1 < length m")
    case True
    obtain r where "p \<le> r" "r < length m"
      and eq: "sort_entries m p = sort_entries (m[r := m ! p, p := m ! r]) (Suc p)"
      by (rule sort_entries_step [OF True])
    with Suc.hyps(1) [of "m[r := m ! p, p := m ! r]" "Suc p"] Suc.hyps(2) True show ?thesis
      by (simp add: mset_swap)
  qed (simp add: sort_entries.simps)
qed

lemma length_sort_entries [simp]: "length (sort_entries m p) = length m"
  by (metis mset_sort_entries size_mset)

definition sorted_prefix :: "memmap_entry list \<Rightarrow> nat \<Rightarrow> bool" where
  "sorted_prefix m p \<longleftrightarrow>
     (\<forall>i j. i < p \<and> i \<le> j \<and> j < length m \<longrightarrow> me_base (m ! i) \<le> me_base (m ! j))"

lemma sort_entries_sorted_prefix:
  "sorted_prefix m p \<Longrightarrow> sorted_prefix (sort_entries m p) (length m)"
proof (induction "length m - p" arbitrary: m p)
  case 0
  then show ?case by (simp add: sort_entries.simps) (simp add: sorted_prefix_def)
next
  case (Suc n)
  show ?case
  proof (cases "p + 1 < length m")
    case True
    obtain r where r: "p \<le> r" "r < length m"
      and min: "\<And>k. p \<le> k \<Longrightarrow> k < length m \<Longrightarrow> me_base (m ! r) \<le> me_base (m ! k)"
      and eq: "sort_entries m p = sort_entries (m[r := m ! p, p := m ! r]) (Suc p)"
      using sort_entries_step [OF True] by blast
    let ?m = "m[r := m ! p, p := m ! r]"
    have "sorted_prefix ?m (Suc p)"
      unfolding sorted_prefix_def
    proof (intro allI impI, elim conjE)
      fix i j assume ij: "i < Suc p" "i \<le> j" "j < length ?m"
      show "me_base (?m ! i) \<le> me_base (?m ! j)"
      proof (cases "i = p")
        case True
        with ij r min show ?thesis by (auto simp: nth_list_update)
      next
        case False
        with ij r Suc.prems show ?thesis
          by (auto simp: nth_list_update sorted_prefix_def)
      qed
    qed
    with Suc.hyps(1) [of ?m "Suc p"] Suc.hyps(2) True eq show ?thesis by simp
  next
    case False
    have "me_base (m ! i) \<le> me_base (m ! j)" if "i \<le> j" "j < length m" for i j
    proof (cases "i < p")
      case True
      with that Suc.prems show ?thesis by (simp add: sorted_prefix_def)
    next
      case False
      with that \<open>\<not> p + 1 < length m\<close> have "i = j" by linarith
      then show ?thesis by simp
    qed
    with False show ?thesis by (simp add: sort_entries.simps) (simp add: sorted_prefix_def)
  qed
qed

lemma sorted_sort_entries: "sorted (map me_base (sort_entries m 0))"
  using sort_entries_sorted_prefix [of m 0]
  by (simp add: sorted_prefix_def sorted_iff_nth_mono)

section \<open>Merging neighbours\<close>

definition touching :: "memmap_entry \<Rightarrow> memmap_entry \<Rightarrow> bool" where
  "touching e f \<longleftrightarrow> mergeable (me_type e) \<and> me_type f = me_type e \<and> me_base f = me_top e"

lemma type_at_merge:
  assumes "no_wrap e" and "no_wrap f" and "me_type f = me_type e" and "me_base f = me_top e"
  shows "type_at (e\<lparr>me_length := me_length e + me_length f\<rparr>) a = type_at e a + type_at f a"
    and "no_wrap (e\<lparr>me_length := me_length e + me_length f\<rparr>)"
    and "wf_entry e \<Longrightarrow> wf_entry (e\<lparr>me_length := me_length e + me_length f\<rparr>)"
  using assms by (auto simp: type_at_def in_entry_def no_wrap_def wf_entry_def add.assoc)

lemma nth_split2:
  assumes "i + 1 < length m"
  shows "m = take i m @ m ! i # m ! (i + 1) # drop (i + 2) m"
  using assms by (simp add: Cons_nth_drop_Suc)

lemma merge_entries_step:
  assumes "i + 1 < length m" and "touching (m ! i) (m ! (i + 1))"
  shows "merge_entries m i = merge_entries (take i m
    @ (m ! i)\<lparr>me_length := me_length (m ! i) + me_length (m ! (i + 1))\<rparr> # drop (i + 2) m) i"
  using assms unfolding touching_def merge_entries.simps [of m i]
  by (simp add: Let_def take_Suc_conv_app_nth)

lemma merge_entries_skip:
  assumes "i + 1 < length m" and "\<not> touching (m ! i) (m ! (i + 1))"
  shows "merge_entries m i = merge_entries m (Suc i)"
  using assms unfolding touching_def merge_entries.simps [of m i] by auto

definition merge_at :: "memmap_entry list \<Rightarrow> nat \<Rightarrow> memmap_entry list" where
  "merge_at m i = take i m
    @ (m ! i)\<lparr>me_length := me_length (m ! i) + me_length (m ! (i + 1))\<rparr> # drop (i + 2) m"

text \<open>The loop as an invariant rule: what one merge and one skip keep, the whole pass keeps.\<close>

lemma merge_entries_invariant:
  assumes merge: "\<And>m i. i + 1 < length m \<Longrightarrow> touching (m ! i) (m ! (i + 1)) \<Longrightarrow> P m i \<Longrightarrow> P (merge_at m i) i"
    and skip: "\<And>m i. i + 1 < length m \<Longrightarrow> \<not> touching (m ! i) (m ! (i + 1)) \<Longrightarrow> P m i \<Longrightarrow> P m (Suc i)"
    and "P m i"
  shows "\<exists>n. length (merge_entries m i) \<le> n + 1 \<and> P (merge_entries m i) n"
  using \<open>P m i\<close>
proof (induction "length m - i" arbitrary: m i rule: less_induct)
  case less
  consider (merge) "i + 1 < length m" "touching (m ! i) (m ! (i + 1))"
    | (skip) "i + 1 < length m" "\<not> touching (m ! i) (m ! (i + 1))"
    | (stop) "\<not> i + 1 < length m" by blast
  then show ?case
  proof cases
    case merge
    then have "length (merge_at m i) - i < length m - i" by (auto simp: merge_at_def)
    from less.hyps [OF this assms(1) [OF merge less.prems]] show ?thesis
      by (simp add: merge_entries_step [OF merge] merge_at_def)
  next
    case skip
    then have "length m - Suc i < length m - i" by auto
    from less.hyps [OF this assms(2) [OF skip less.prems]] show ?thesis
      by (simp add: merge_entries_skip [OF skip])
  next
    case stop
    with less.prems show ?thesis by (auto simp: merge_entries.simps intro!: exI [of _ i])
  qed
qed

lemma types_at_merge_at:
  assumes "i + 1 < length m" and "touching (m ! i) (m ! (i + 1))" and "\<forall>e \<in> set m. no_wrap e"
  shows "types_at (merge_at m i) a = types_at m a" and "\<forall>e \<in> set (merge_at m i). no_wrap e"
    and "\<forall>e \<in> set m. wf_entry e \<Longrightarrow> \<forall>e \<in> set (merge_at m i). wf_entry e"
proof -
  let ?e = "(m ! i)\<lparr>me_length := me_length (m ! i) + me_length (m ! (i + 1))\<rparr>"
  note m = nth_split2 [OF assms(1)]
  from assms have nw: "no_wrap (m ! i)" "no_wrap (m ! (i + 1))" by simp_all
  with assms(2) have e: "type_at ?e a = type_at (m ! i) a + type_at (m ! (i + 1)) a" "no_wrap ?e"
    "wf_entry (m ! i) \<Longrightarrow> wf_entry ?e"
    by (auto simp: touching_def type_at_merge)
  have "types_at m a = types_at (take i m @ m ! i # m ! (i + 1) # drop (i + 2) m) a"
    using m by simp
  with e(1) show "types_at (merge_at m i) a = types_at m a" by (simp add: merge_at_def ac_simps)
  from e(2) assms(3) show "\<forall>e \<in> set (merge_at m i). no_wrap e"
    by (auto simp: merge_at_def dest: in_set_takeD in_set_dropD)
  assume "\<forall>e \<in> set m. wf_entry e"
  with e(3) assms(1) show "\<forall>e \<in> set (merge_at m i). wf_entry e"
    by (auto simp: merge_at_def dest: in_set_takeD in_set_dropD)
qed

lemma merge_entries_types:
  assumes "\<forall>e \<in> set m. no_wrap e"
  shows "types_at (merge_entries m i) a = types_at m a"
    and "\<forall>e \<in> set (merge_entries m i). no_wrap e"
proof -
  have "\<exists>n. length (merge_entries m i) \<le> n + 1 \<and> types_at (merge_entries m i) a = types_at m a
      \<and> (\<forall>e \<in> set (merge_entries m i). no_wrap e)"
    by (rule merge_entries_invariant
        [where P = "\<lambda>m' n. types_at m' a = types_at m a \<and> (\<forall>e \<in> set m'. no_wrap e)"])
      (use assms types_at_merge_at(1,2) in auto)
  then show "types_at (merge_entries m i) a = types_at m a"
    and "\<forall>e \<in> set (merge_entries m i). no_wrap e" by blast+
qed

lemma merge_entries_wf:
  assumes "\<forall>e \<in> set m. wf_entry e"
  shows "\<forall>e \<in> set (merge_entries m i). wf_entry e"
proof -
  have "\<exists>n. length (merge_entries m i) \<le> n + 1 \<and> (\<forall>e \<in> set (merge_entries m i). wf_entry e)"
    by (rule merge_entries_invariant [where P = "\<lambda>m' n. \<forall>e \<in> set m'. wf_entry e"])
      (use assms types_at_merge_at(3) in \<open>auto simp: wf_entry_no_wrap\<close>)
  then show ?thesis by blast
qed

lemma sorted_merge_at:
  assumes "i + 1 < length m" and "sorted (map me_base m)"
  shows "sorted (map me_base (merge_at m i))"
proof -
  have "map me_base m = map me_base (take i m @ m ! i # m ! (i + 1) # drop (i + 2) m)"
    using nth_split2 [OF assms(1)] by simp
  with assms(2) have "sorted (map me_base (take i m @ m ! i # m ! (i + 1) # drop (i + 2) m))" by simp
  then show ?thesis by (simp add: merge_at_def sorted_append)
qed

lemma sorted_merge_entries:
  assumes "sorted (map me_base m)"
  shows "sorted (map me_base (merge_entries m i)) \<and> length (merge_entries m i) \<le> length m"
proof -
  have "\<exists>n. length (merge_entries m i) \<le> n + 1 \<and> sorted (map me_base (merge_entries m i))
      \<and> length (merge_entries m i) \<le> length m"
    by (rule merge_entries_invariant
        [where P = "\<lambda>m' n. sorted (map me_base m') \<and> length m' \<le> length m"])
      (use assms sorted_merge_at in \<open>auto simp: merge_at_def\<close>)
  then show ?thesis by blast
qed

lemma merge_entries_no_touching:
  assumes "k + 1 < length (merge_entries m 0)"
  shows "\<not> touching (merge_entries m 0 ! k) (merge_entries m 0 ! (k + 1))"
proof -
  let ?P = "\<lambda>m i. \<forall>k < i. k + 1 < length m \<longrightarrow> \<not> touching (m ! k) (m ! (k + 1))"
  have "\<exists>n. length (merge_entries m 0) \<le> n + 1 \<and> ?P (merge_entries m 0) n"
  proof (rule merge_entries_invariant)
    fix m :: "memmap_entry list" and i
    assume "i + 1 < length m" "?P m i"
    moreover from this have "merge_at m i ! k = m ! k" if "k < i" for k
      using that by (simp add: merge_at_def nth_append)
    moreover from \<open>i + 1 < length m\<close>
    have "me_base (merge_at m i ! i) = me_base (m ! i)" "me_type (merge_at m i ! i) = me_type (m ! i)"
      by (simp_all add: merge_at_def nth_append)
    ultimately show "?P (merge_at m i) i"
      by (auto simp: touching_def) (metis Suc_lessI Suc_lessD less_trans_Suc)
  qed (auto simp: less_Suc_eq)
  with assms show ?thesis by auto
qed

section \<open>Dropping usable memory below the first page\<close>

definition low_pieces :: "bool \<Rightarrow> memmap_entry \<Rightarrow> memmap_entry list" where
  "low_pieces keep e =
     (if me_type e \<noteq> MEMMAP_USABLE then [e]
      else if me_length e = 0 then []
      else if \<not> keep \<and> me_base e < 0x1000 then
        (if me_top e \<le> 0x1000 then []
         else [e\<lparr>me_base := 0x1000, me_length := me_top e - 0x1000\<rparr>])
      else [e])"

definition low_types :: "bool \<Rightarrow> u64 \<Rightarrow> u32 multiset \<Rightarrow> u32 multiset" where
  "low_types keep a T =
     (if keep \<or> 0x1000 \<le> a then T else filter_mset (\<lambda>t. t \<noteq> MEMMAP_USABLE) T)"

lemma low_types_simps [simp]:
  "low_types True a T = T"
  "low_types keep a {#} = {#}"
  "low_types keep a (S + T) = low_types keep a S + low_types keep a T"
  by (simp_all add: low_types_def)

lemma low_pieces_types:
  "no_wrap e \<Longrightarrow> types_at (low_pieces keep e) a = low_types keep a (type_at e a)"
  by (auto simp: low_pieces_def type_at_def in_entry_def low_types_def no_wrap_def)

lemma low_pieces_wf:
  "wf_entry e \<Longrightarrow> p \<in> set (low_pieces keep e) \<Longrightarrow> wf_entry p"
  "no_wrap e \<Longrightarrow> p \<in> set (low_pieces keep e) \<Longrightarrow> no_wrap p"
  by (auto simp: low_pieces_def wf_entry_def no_wrap_def split: if_splits)

text \<open>Both passes that remove by swapping follow one scheme: each entry at or after \<open>i\<close> is
  replaced by at most one piece.\<close>

lemma sanitise_low_step:
  assumes "i < length m" and "no_wrap (m ! i)"
  shows "sanitise_low keep m i =
     (case low_pieces keep (m ! i) of
        [] \<Rightarrow> sanitise_low keep (swap_remove m i) i
      | e # _ \<Rightarrow> sanitise_low keep (m[i := e]) (Suc i))"
proof -
  have le: "me_base (m ! i) \<le> me_top (m ! i)" using assms(2) by (simp add: no_wrap_def)
  have eq: "me_length (m ! i) - (0x1000 - me_base (m ! i)) = me_top (m ! i) - 0x1000" by simp
  from assms(1) le show ?thesis
    unfolding sanitise_low.simps [of keep m i] builtin_add_overflow_order low_pieces_def Let_def eq
    by auto
qed

lemma sanitise_low_pieces:
  assumes "\<forall>e \<in> set m. no_wrap e" and "i \<le> length m"
  shows "mset (sanitise_low keep m i)
    = mset (take i m) + (\<Sum>e \<in># mset (drop i m). mset (low_pieces keep e))"
  using assms
proof (induction "length m - i" arbitrary: m i rule: less_induct)
  case less
  show ?case
  proof (cases "i < length m")
    case False
    with less.prems show ?thesis by (simp add: sanitise_low.simps)
  next
    case i: True
    have d: "mset (drop i m) = add_mset (m ! i) (mset (drop (Suc i) m))"
      using i by (metis Cons_nth_drop_Suc mset.simps(2))
    have wf: "no_wrap (m ! i)" using less.prems(1) i by simp
    show ?thesis
    proof (cases "low_pieces keep (m ! i)")
      case Nil
      have "\<forall>e \<in> set (swap_remove m i). no_wrap e"
        using set_swap_remove_subset [OF i] less.prems(1) by blast
      with less.hyps [of "swap_remove m i" i] i Nil show ?thesis
        by (simp add: sanitise_low_step [OF i wf] d take_swap_remove mset_drop_swap_remove)
    next
      case (Cons e es)
      then have "es = []" by (auto simp: low_pieces_def split: if_splits)
      moreover have "\<forall>x \<in> set (m[i := e]). no_wrap x"
        using low_pieces_wf(2) [OF wf, of e keep] Cons less.prems(1)
        by (auto dest!: set_update_subset_insert [THEN subsetD])
      ultimately show ?thesis using less.hyps [of "m[i := e]" "Suc i"] i Cons
        by (simp add: sanitise_low_step [OF i wf] d take_Suc_conv_app_nth)
    qed
  qed
qed

lemma sum_pieces_types:
  assumes "\<And>e. e \<in># M \<Longrightarrow> types_at (f e) a = g (type_at e a)"
    and "g {#} = {#}" and "\<And>S T. g (S + T) = g S + g T"
  shows "types_of (\<Sum>e \<in># M. mset (f e)) a = g (types_of M a)"
  using assms by (induction M) simp_all

lemma sanitise_low_types:
  assumes "\<forall>e \<in> set m. no_wrap e"
  shows "types_at (sanitise_low keep m 0) a = low_types keep a (types_at m a)"
    and "\<forall>e \<in> set (sanitise_low keep m 0). no_wrap e"
    and "\<forall>e \<in> set m. wf_entry e \<Longrightarrow> \<forall>e \<in> set (sanitise_low keep m 0). wf_entry e"
    and "length (sanitise_low keep m 0) \<le> length m"
proof -
  note p = sanitise_low_pieces [OF assms le0, of keep, simplified]
  show "types_at (sanitise_low keep m 0) a = low_types keep a (types_at m a)"
    unfolding p by (rule sum_pieces_types) (use assms in \<open>auto simp: low_pieces_types\<close>)
  have mem: "\<exists>x \<in> set m. e \<in> set (low_pieces keep x)" if "e \<in> set (sanitise_low keep m 0)" for e
    using that by (auto simp: p simp flip: set_mset_mset)
  then show "\<forall>e \<in> set (sanitise_low keep m 0). no_wrap e" using assms low_pieces_wf(2) by blast
  show "\<forall>e \<in> set (sanitise_low keep m 0). wf_entry e" if "\<forall>e \<in> set m. wf_entry e"
    using that mem low_pieces_wf(1) by blast
  have l: "length (low_pieces keep e) \<le> 1" for e by (simp add: low_pieces_def)
  have "size (\<Sum>e \<in># M. mset (low_pieces keep e)) \<le> size M" for M
  proof (induction M)
    case (add e M)
    with l [of e] show ?case by simp
  qed simp
  then show "length (sanitise_low keep m 0) \<le> length m"
    by (metis p size_mset)
qed

section \<open>The overlap pass on a well-formed map\<close>

lemma wf_map_disjoint:
  assumes "wf_map m" and "i < length m" and "j < length m" and "i \<noteq> j"
  shows "\<not> (in_entry a (m ! i) \<and> in_entry a (m ! j))"
proof
  assume "in_entry a (m ! i) \<and> in_entry a (m ! j)"
  with assms have "{i, j} \<subseteq> {k. k < length m \<and> in_entry a (m ! k)}" by auto
  from card_mono [OF _ this] assms(4) have "2 \<le> card {k. k < length m \<and> in_entry a (m ! k)}"
    by simp
  also have "\<dots> = size (types_at m a)"
    by (simp add: types_of_def length_filter_conv_card flip: mset_filter)
  finally show False using assms(1) by (auto simp: wf_map_def dest: spec [of _ a])
qed

lemma disjoint_ranges:
  fixes b t rb rt :: "'a::linorder"
  assumes "b < t" and "rb < rt" and "\<And>a. \<not> ((b \<le> a \<and> a < t) \<and> (rb \<le> a \<and> a < rt))"
  shows "rt \<le> b \<or> t \<le> rb"
  using assms(1,2) assms(3) [of "max b rb"] by (auto simp: max_def split: if_splits)

lemma trim_entry_id:
  assumes "wf_map m" and "i < length m"
  shows "trim_entry m i j = Inr m"
proof (induction "length m - j" arbitrary: j)
  case 0
  then show ?case by (simp add: trim_entry.simps)
next
  case (Suc n)
  then have IH: "trim_entry m i (Suc j) = Inr m" and j: "j < length m" by simp_all
  show ?case
  proof (cases "j = i")
    case True
    with IH j show ?thesis by (simp add: trim_entry.simps [of m i i])
  next
    case False
    have ne: "me_base (m ! i) < me_top (m ! i)" "me_base (m ! j) < me_top (m ! j)"
      using assms j by (auto simp: wf_map_def wf_entry_def)
    have "me_top (m ! j) \<le> me_base (m ! i) \<or> me_top (m ! i) \<le> me_base (m ! j)"
      by (rule disjoint_ranges [OF ne])
        (use wf_map_disjoint [OF assms j] False in \<open>auto simp: in_entry_def\<close>)
    with ne False j IH show ?thesis
      unfolding trim_entry.simps [of m i j] Let_def by auto
  qed
qed

lemma sanitise_overlaps_id:
  assumes "wf_map m"
  shows "sanitise_overlaps False m i = Inr m"
proof (induction "length m - i" arbitrary: i)
  case 0
  then show ?case by (simp add: sanitise_overlaps.simps)
next
  case (Suc n)
  then have IH: "sanitise_overlaps False m (Suc i) = Inr m" and i: "i < length m" by simp_all
  moreover have "wf_entry (m ! i)" using assms i by (simp add: wf_map_def)
  then have "me_length (m ! i) \<noteq> 0" by (auto simp: wf_entry_def)
  ultimately show ?case
    by (simp add: sanitise_overlaps.simps [of False m i] trim_entry_id [OF assms])
qed

text \<open>The sanitiser without alignment, as the allocator calls it after every change.\<close>

lemma pmm_sanitise_wf:
  assumes "wf_map m"
  obtains m' where "pmm_sanitise_entries keep False m = Inr m'"
    and "wf_map m'" and "\<And>a. types_at m' a = low_types keep a (types_at m a)"
    and "sorted (map me_base m')" and "length m' \<le> length m"
    and "\<And>k. k + 1 < length m' \<Longrightarrow> \<not> touching (m' ! k) (m' ! (k + 1))"
proof
  let ?m1 = "sanitise_low keep m 0"
  let ?m = "merge_entries (sort_entries ?m1 0) 0"
  from assms have wfe: "\<forall>e \<in> set m. wf_entry e" by (simp add: wf_map_def)
  then have nw: "\<forall>e \<in> set m. no_wrap e" by (simp add: wf_entry_no_wrap)
  note low = sanitise_low_types [OF nw, of keep]
  have set: "set (sort_entries ?m1 0) = set ?m1" by (metis mset_sort_entries set_mset_mset)
  show "pmm_sanitise_entries keep False m = Inr ?m"
    by (simp add: pmm_sanitise_entries_def sanitise_overlaps_id [OF assms])
  show ty: "types_at ?m a = low_types keep a (types_at m a)" for a
    by (simp add: merge_entries_types(1) set low(1,2) mset_sort_entries)
  have "size (low_types keep a T) \<le> size T" for a T
    by (simp add: low_types_def size_filter_mset_lesseq)
  with assms have "size (types_at ?m a) \<le> 1" for a
    unfolding ty wf_map_def by (metis le_trans)
  moreover have "\<forall>e \<in> set ?m. wf_entry e" by (rule merge_entries_wf) (simp add: set low(3) wfe)
  ultimately show "wf_map ?m" by (simp add: wf_map_def)
  show "sorted (map me_base ?m)"
    using sorted_merge_entries [OF sorted_sort_entries] by blast
  show "length ?m \<le> length m"
    using sorted_merge_entries [OF sorted_sort_entries, of ?m1 0] low(4) by simp
  show "\<And>k. k + 1 < length ?m \<Longrightarrow> \<not> touching (?m ! k) (?m ! (k + 1))"
    by (rule merge_entries_no_touching)
qed

section \<open>The overlap pass on an arbitrary map\<close>

text \<open>
  Firmware maps may overlap. The pass trims usable entries only, and only where another entry
  holds the address, so an address that any non-usable entry holds ends up with exactly its
  non-usable types and any other held address ends up usable once.
\<close>

definition resolve :: "u32 multiset \<Rightarrow> u32 multiset" where
  "resolve T =
     (let N = filter_mset (\<lambda>t. t \<noteq> MEMMAP_USABLE) T
      in if N \<noteq> {#} then N else if T = {#} then {#} else {#MEMMAP_USABLE#})"

definition apart :: "memmap_entry \<Rightarrow> memmap_entry \<Rightarrow> bool" where
  "apart e f \<longleftrightarrow> (\<forall>a. \<not> (in_entry a e \<and> in_entry a f))"

definition trimmed :: "memmap_entry list \<Rightarrow> nat \<Rightarrow> nat \<Rightarrow> memmap_entry \<Rightarrow> bool" where
  "trimmed m i j e \<longleftrightarrow> me_type e = me_type (m ! i) \<and> no_wrap e
     \<and> (\<forall>a. in_entry a e \<longrightarrow> in_entry a (m ! i))
     \<and> (\<forall>a. in_entry a (m ! i) \<and> \<not> in_entry a e \<longrightarrow>
          (\<exists>k < length m. k \<noteq> i \<and> in_entry a (m ! k)))
     \<and> (\<forall>k < length m. j \<le> k \<and> k \<noteq> i \<longrightarrow> apart e (m ! k))"

lemma trim_against:
  fixes base top0 rb rt :: "'a::linorder"
  assumes "base \<le> top0" and "rb \<le> rt" and "\<not> (rb \<le> base \<and> top0 \<le> rt)"
    and "\<not> ((base \<le> rb \<and> rb < top0) \<and> (base \<le> rt \<and> rt < top0))"
    and "top1 = (if base \<le> rb \<and> rb < top0 then rb else top0)"
    and "base1 = (if base \<le> rt \<and> rt < top1 then rt else base)"
  shows "base1 \<le> top1 \<and> base \<le> base1 \<and> top1 \<le> top0 \<and>
     (\<forall>a. base \<le> a \<and> a < top0 \<and> \<not> (base1 \<le> a \<and> a < top1) \<longrightarrow> rb \<le> a \<and> a < rt) \<and>
     (\<forall>a. base1 \<le> a \<and> a < top1 \<longrightarrow> \<not> (rb \<le> a \<and> a < rt))"
proof (cases "base \<le> rb \<and> rb < top0")
  case True
  then have rb: "base \<le> rb" "rb < top0" by blast+
  with assms(2,4) have rt: "top0 \<le> rt" by (meson not_le order_trans)
  with rb(2) have "\<not> rt < rb" using assms(2) by (simp only: not_less)
  with True assms(5,6) have "top1 = rb" "base1 = base" by simp_all
  with rb rt show ?thesis by (metis less_imp_le less_le_trans not_le order_refl)
next
  case out: False
  with assms(5) have t: "top1 = top0" by (simp only: if_False)
  show ?thesis
  proof (cases "base \<le> rt \<and> rt < top0")
    case True
    with out assms(2) have rb: "rb < base" by (meson le_less_trans not_le)
    from True t assms(6) have "base1 = rt" by simp
    with True rb t show ?thesis by (metis less_imp_le less_le_trans not_le order_refl)
  next
    case False
    with t assms(6) have b: "base1 = base" by (simp only: if_False)
    from False out assms(3) have "rt < base \<or> top0 \<le> rb" by (meson less_imp_le not_le)
    with b t assms(1) show ?thesis by (metis le_less_trans less_le_trans not_le order_refl order_less_imp_le)
  qed
qed

lemma trimmed_step:
  assumes "i < length m" and "j < length m" and "j \<noteq> i"
    and e1: "me_type e1 = me_type (m ! i)" "\<And>a. in_entry a e1 \<Longrightarrow> in_entry a (m ! i)"
      "\<And>a. in_entry a (m ! i) \<Longrightarrow> \<not> in_entry a e1 \<Longrightarrow> in_entry a (m ! j)" "apart e1 (m ! j)"
    and t: "trimmed (m[i := e1]) i (Suc j) e"
  shows "trimmed m i j e"
proof -
  have old: "m[i := e1] ! k = m ! k" if "k \<noteq> i" for k using that by simp
  have cov: "\<exists>k < length m. k \<noteq> i \<and> in_entry a (m ! k)" if "in_entry a (m ! i)" "\<not> in_entry a e" for a
  proof (cases "in_entry a e1")
    case True
    with t that(2) assms(1) obtain k where "k < length m" "k \<noteq> i" "in_entry a (m[i := e1] ! k)"
      unfolding trimmed_def by auto
    with old show ?thesis by auto
  next
    case False
    with that(1) e1(3) assms(2,3) show ?thesis by blast
  qed
  have "apart e (m ! k)" if "k < length m" "j \<le> k" "k \<noteq> i" for k
  proof (cases "k = j")
    case True
    with t assms(1) e1(4) show ?thesis by (auto simp: trimmed_def apart_def)
  next
    case False
    with that t show ?thesis by (auto simp: trimmed_def)
  qed
  with t assms(1) e1(1,2) cov show ?thesis by (auto simp: trimmed_def)
qed

lemma trim_entry_trimmed:
  assumes "trim_entry m i j = Inr m'" and "i < length m" and "\<forall>e \<in> set m. no_wrap e"
  shows "\<exists>e. m' = m[i := e] \<and> trimmed m i j e"
  using assms
proof (induction "length m - j" arbitrary: m j)
  case 0
  then have "m' = m[i := m ! i]" by (simp add: trim_entry.simps)
  moreover from 0 have "trimmed m i j (m ! i)" by (auto simp: trimmed_def)
  ultimately show ?case by blast
next
  case (Suc n)
  then have j: "j < length m" by simp
  note i = Suc.prems(2)
  show ?case
  proof (cases "j = i")
    case True
    with Suc.prems(1) j have "trim_entry m i (Suc j) = Inr m'" by (simp add: trim_entry.simps [of m i i])
    moreover have "n = length m - Suc j" using Suc.hyps(2) by simp
    ultimately obtain e where "m' = m[i := e]" "trimmed m i (Suc j) e"
      using Suc.hyps(1) Suc.prems(2,3) by blast
    moreover from this True have "trimmed m i j e" unfolding trimmed_def
      by (metis Suc_leI le_neq_implies_less)
    ultimately show ?thesis by blast
  next
    case ji: False
    let ?b = "me_base (m ! i)" and ?t = "me_top (m ! i)"
      and ?rb = "me_base (m ! j)" and ?rt = "me_top (m ! j)"
    have nw: "?b \<le> ?t" "?rb \<le> ?rt" using Suc.prems i j by (simp_all add: no_wrap_def)
    show ?thesis
    proof (cases "?rb \<le> ?b \<and> ?t \<le> ?rt")
      case True
      with Suc.prems(1) j ji have m': "m' = m[i := (m ! i)\<lparr>me_base := ?t, me_length := 0\<rparr>]"
        by (simp add: trim_entry.simps [of m i j] Let_def)
      moreover have "in_entry a (m ! j)" if "in_entry a (m ! i)" for a
        using that True unfolding in_entry_def by (elim conjE, intro conjI) order+
      moreover have "\<not> in_entry a ((m ! i)\<lparr>me_base := ?t, me_length := 0\<rparr>)" for a
        by (auto simp: in_entry_def)
      ultimately have "trimmed m i j ((m ! i)\<lparr>me_base := ?t, me_length := 0\<rparr>)"
        using ji j by (auto simp: trimmed_def no_wrap_def apart_def)
      with m' show ?thesis by blast
    next
      case False
      define top1 where "top1 = (if ?b \<le> ?rb \<and> ?rb < ?t then ?rb else ?t)"
      define base1 where "base1 = (if ?b \<le> ?rt \<and> ?rt < top1 then ?rt else ?b)"
      let ?e = "(m ! i)\<lparr>me_base := base1, me_length := top1 - base1\<rparr>"
      have "trim_entry m i j =
        (if (?b \<le> ?rb \<and> ?rb < ?t) \<and> (?b \<le> ?rt \<and> ?rt < ?t)
         then Inl (Panic False ''A non-usable memory map entry is inside a usable section.'')
         else trim_entry (m[i := ?e]) i (Suc j))"
        unfolding trim_entry.simps [of m i j] Let_def top1_def base1_def
        by (simp only: j ji False if_True if_False simp_thms)
      with Suc.prems(1) have inside: "\<not> ((?b \<le> ?rb \<and> ?rb < ?t) \<and> (?b \<le> ?rt \<and> ?rt < ?t))"
        and go: "trim_entry (m[i := ?e]) i (Suc j) = Inr m'" by (simp_all split: if_splits)
      have tr: "base1 \<le> top1" "?b \<le> base1" "top1 \<le> ?t"
        "\<And>a. ?b \<le> a \<Longrightarrow> a < ?t \<Longrightarrow> \<not> (base1 \<le> a \<and> a < top1) \<Longrightarrow> ?rb \<le> a \<and> a < ?rt"
        "\<And>a. base1 \<le> a \<Longrightarrow> a < top1 \<Longrightarrow> \<not> (?rb \<le> a \<and> a < ?rt)"
        using trim_against [OF nw False inside top1_def base1_def] by simp_all
      have nw': "\<forall>e \<in> set (m[i := ?e]). no_wrap e"
        using Suc.prems(3) tr(1) set_update_subset_insert [of m i ?e] by (auto simp: no_wrap_def)
      have "n = length (m[i := ?e]) - Suc j" using Suc.hyps(2) by simp
      from Suc.hyps(1) [OF this go _ nw'] i
      obtain e where "m' = m[i := e]" "trimmed (m[i := ?e]) i (Suc j) e" by auto
      moreover have ie: "in_entry a ?e \<longleftrightarrow> base1 \<le> a \<and> a < top1"
        and ij: "in_entry a (m ! i) \<longleftrightarrow> ?b \<le> a \<and> a < ?t" "in_entry a (m ! j) \<longleftrightarrow> ?rb \<le> a \<and> a < ?rt"
        for a by (simp_all add: in_entry_def)
      have "in_entry a (m ! i)" if "in_entry a ?e" for a
        using that tr(2,3) unfolding ie ij by (elim conjE, intro conjI) order+
      moreover have "in_entry a (m ! j)" if "in_entry a (m ! i)" "\<not> in_entry a ?e" for a
        using that tr(4) [of a] unfolding ie ij by simp
      moreover have "apart ?e (m ! j)" using tr(5) unfolding apart_def ie ij by blast
      ultimately have "trimmed m i j e"
        by (intro trimmed_step [OF i j ji _ _ _ _ \<open>trimmed (m[i := ?e]) i (Suc j) e\<close>]) simp_all
      with \<open>m' = m[i := e]\<close> show ?thesis by blast
    qed
  qed
qed

text \<open>The outer loop: usable entries before \<open>i\<close> are apart from every other entry.\<close>

definition settled :: "memmap_entry list \<Rightarrow> nat \<Rightarrow> bool" where
  "settled m i \<longleftrightarrow> (\<forall>p < length m. \<forall>q < length m. p < i \<and> p \<noteq> q
     \<and> me_type (m ! p) = MEMMAP_USABLE \<longrightarrow> apart (m ! p) (m ! q))"

definition fixed_part :: "memmap_entry list \<Rightarrow> memmap_entry multiset" where
  "fixed_part m = filter_mset (\<lambda>e. me_type e \<noteq> MEMMAP_USABLE) (mset m)"

definition covered :: "memmap_entry list \<Rightarrow> u64 \<Rightarrow> bool" where
  "covered m a \<longleftrightarrow> (\<exists>e \<in> set m. in_entry a e)"

lemma covered_nth: "covered m a \<longleftrightarrow> (\<exists>k < length m. in_entry a (m ! k))"
  unfolding covered_def by (metis in_set_conv_nth)

lemma trimmed_update:
  assumes "trimmed m i 0 e" and "i < length m" and "settled m i"
    and "me_type (m ! i) = MEMMAP_USABLE"
  shows "settled (m[i := e]) (Suc i)" and "fixed_part (m[i := e]) = fixed_part m"
    and "covered (m[i := e]) a \<longleftrightarrow> covered m a"
proof -
  note t = assms(1) [unfolded trimmed_def]
  show "fixed_part (m[i := e]) = fixed_part m"
    using t assms(2,4) by (simp add: fixed_part_def mset_update)
  have nth: "m[i := e] ! k = (if k = i then e else m ! k)" if "k < length m" for k
    using that by simp
  show "covered (m[i := e]) a \<longleftrightarrow> covered m a"
    using t assms(2) unfolding covered_nth by (auto simp: nth_list_update)
  have "apart (m ! p) e" if "p < i" "me_type (m ! p) = MEMMAP_USABLE" for p
    using that assms(2,3) t unfolding settled_def apart_def by (metis less_trans less_irrefl)
  moreover have "apart e (m ! q)" if "q < length m" "q \<noteq> i" for q using that t by simp
  ultimately have "apart (m[i := e] ! p) (m[i := e] ! q)"
    if "p < length m" "q < length m" "p < Suc i" "p \<noteq> q" "me_type (m[i := e] ! p) = MEMMAP_USABLE"
    for p q using that assms(2,3) unfolding settled_def
    by (cases "p = i"; cases "q = i") (auto simp: less_Suc_eq)
  then show "settled (m[i := e]) (Suc i)" by (simp add: settled_def)
qed

lemma settled_swap_remove:
  assumes "settled m (Suc i)" and "i < length m"
  shows "settled (swap_remove m i) i"
proof -
  have nth: "swap_remove m i ! k = m ! (if k = i then length m - 1 else k)" if "k < length m - 1" for k
  proof -
    from assms(2) have "m \<noteq> []" by auto
    with that assms(2) show ?thesis by (auto simp: swap_remove_def nth_butlast last_conv_nth)
  qed
  show ?thesis
    unfolding settled_def using assms(2) assms(1) [unfolded settled_def]
    by (auto simp: nth)
qed

lemma removed_empty:
  assumes "i < length m" and "me_length (m ! i) = 0" and "me_type (m ! i) = MEMMAP_USABLE"
  shows "fixed_part (swap_remove m i) = fixed_part m"
    and "covered (swap_remove m i) a \<longleftrightarrow> covered m a"
proof -
  show "fixed_part (swap_remove m i) = fixed_part m"
    using assms by (simp add: fixed_part_def mset_swap_remove)
  have "\<not> in_entry a (m ! i)" using assms(2) by (auto simp: in_entry_def)
  moreover have "x \<in># mset m \<longleftrightarrow> x = m ! i \<or> x \<in># mset (swap_remove m i)" for x
    using assms(1) by (metis insert_iff mset_nth_split mset_swap_remove set_mset_add_mset_insert)
  ultimately show "covered (swap_remove m i) a \<longleftrightarrow> covered m a"
    by (auto simp: covered_def)
qed

lemma sanitise_overlaps_settled:
  assumes "sanitise_overlaps False m i = Inr m'" and "\<forall>e \<in> set m. no_wrap e" and "settled m i"
  shows "settled m' (length m') \<and> fixed_part m' = fixed_part m
    \<and> (\<forall>a. covered m' a \<longleftrightarrow> covered m a) \<and> (\<forall>e \<in> set m'. no_wrap e)"
  using assms
proof (induction "length m - i" arbitrary: m i rule: less_induct)
  case less
  show ?case
  proof (cases "i < length m")
    case False
    with less.prems show ?thesis by (auto simp: sanitise_overlaps.simps settled_def)
  next
    case i: True
    show ?thesis
    proof (cases "me_type (m ! i) = MEMMAP_USABLE")
      case False
      with less.prems(1) i have "sanitise_overlaps False m (Suc i) = Inr m'"
        by (simp add: sanitise_overlaps.simps [of False m i])
      moreover have "settled m (Suc i)"
        using less.prems(3) False by (auto simp: settled_def less_Suc_eq)
      ultimately show ?thesis using less.hyps [of m "Suc i"] less.prems(2) i by auto
    next
      case us: True
      then obtain m1 where t: "trim_entry m i 0 = Inr m1"
        using less.prems(1) i by (cases "trim_entry m i 0") (auto simp: sanitise_overlaps.simps [of False m i])
      then obtain e where m1: "m1 = m[i := e]" and e: "trimmed m i 0 e"
        using trim_entry_trimmed [OF t i less.prems(2)] by blast
      note upd = trimmed_update [OF e i less.prems(3) us, folded m1]
      have nw: "\<forall>e \<in> set m1. no_wrap e"
        using e less.prems(2) set_update_subset_insert [of m i e] by (auto simp: m1 trimmed_def)
      have len: "length m1 = length m" and us1: "me_type (m1 ! i) = MEMMAP_USABLE"
        using e i us by (auto simp: m1 trimmed_def)
      show ?thesis
      proof (cases "me_length (m1 ! i) = 0")
        case True
        with less.prems(1) i us t have "sanitise_overlaps False (swap_remove m1 i) i = Inr m'"
          by (simp add: sanitise_overlaps.simps [of False m i])
        moreover have "\<forall>e \<in> set (swap_remove m1 i). no_wrap e"
          using nw set_swap_remove_subset [of i m1] i len by auto
        moreover have "settled (swap_remove m1 i) i"
          using settled_swap_remove [OF upd(1)] i len by simp
        ultimately show ?thesis
          using less.hyps [of "swap_remove m1 i" i] i len upd removed_empty [of i m1, OF _ True us1]
          by auto
      next
        case False
        with less.prems(1) i us t have "sanitise_overlaps False m1 (Suc i) = Inr m'"
          by (simp add: sanitise_overlaps.simps [of False m i])
        with less.hyps [of m1 "Suc i"] i len nw upd show ?thesis by auto
      qed
    qed
  qed
qed

text \<open>In terms of the abstract map.\<close>

lemma types_at_fixed:
  "filter_mset (\<lambda>t. t \<noteq> MEMMAP_USABLE) (types_at m a) = types_of (fixed_part m) a"
  by (simp add: types_of_def fixed_part_def filter_mset_image_mset filter_filter_mset conj_commute)

lemma covered_types: "covered m a \<longleftrightarrow> types_at m a \<noteq> {#}"
  by (auto simp: covered_def types_of_def filter_mset_eq_mempty_iff)

lemma settled_types:
  assumes "settled m (length m)" and "p < length m" and "in_entry a (m ! p)"
    and "me_type (m ! p) = MEMMAP_USABLE"
  shows "types_at m a = {#MEMMAP_USABLE#}"
proof -
  have "{k. k < length m \<and> in_entry a (m ! k)} = {p}"
    using assms by (auto simp: settled_def apart_def)
  then have "size (types_at m a) = 1"
    by (simp add: types_of_def length_filter_conv_card flip: mset_filter)
  moreover have "MEMMAP_USABLE \<in># types_at m a"
    using assms(2-) by (force simp: types_of_def)
  ultimately show ?thesis by (metis One_nat_def size_1_singleton_mset set_mset_single singletonD)
qed

lemma sanitise_overlaps_resolve:
  assumes "sanitise_overlaps False m 0 = Inr m'" and "\<forall>e \<in> set m. no_wrap e"
  shows "types_at m' a = resolve (types_at m a)"
proof -
  let ?N = "filter_mset (\<lambda>t. t \<noteq> MEMMAP_USABLE)"
  from sanitise_overlaps_settled [OF assms]
  have s: "settled m' (length m')" and f: "fixed_part m' = fixed_part m"
    and c: "covered m' a \<longleftrightarrow> covered m a" by (simp_all add: settled_def)
  from f have N: "?N (types_at m' a) = ?N (types_at m a)" by (simp add: types_at_fixed)
  show ?thesis
  proof (cases "\<exists>p < length m'. in_entry a (m' ! p) \<and> me_type (m' ! p) = MEMMAP_USABLE")
    case True
    with settled_types [OF s] have t: "types_at m' a = {#MEMMAP_USABLE#}" by blast
    with N have "?N (types_at m a) = {#}" by simp
    moreover have "types_at m a \<noteq> {#}" using c t by (simp add: covered_types)
    ultimately show ?thesis by (simp add: resolve_def t)
  next
    case False
    then have "\<forall>t \<in># types_at m' a. t \<noteq> MEMMAP_USABLE"
      by (auto simp: types_of_def in_set_conv_nth)
    then have "?N (types_at m' a) = types_at m' a" by (simp add: filter_mset_eq_conv)
    with N c show ?thesis by (auto simp: resolve_def Let_def covered_types)
  qed
qed

text \<open>The whole sanitiser on a firmware map.\<close>

lemma pmm_sanitise_resolve:
  assumes "pmm_sanitise_entries keep False m = Inr m'" and "\<forall>e \<in> set m. no_wrap e"
  shows "types_at m' a = low_types keep a (resolve (types_at m a))"
    and "sorted (map me_base m')"
    and "k + 1 < length m' \<Longrightarrow> \<not> touching (m' ! k) (m' ! (k + 1))"
proof -
  from assms(1) obtain m1 where m1: "sanitise_overlaps False m 0 = Inr m1"
    and m': "m' = merge_entries (sort_entries (sanitise_low keep m1 0) 0) 0"
    by (auto simp: pmm_sanitise_entries_def split: sum.splits)
  have nw: "\<forall>e \<in> set m1. no_wrap e"
    using sanitise_overlaps_settled [OF m1 assms(2)] by (simp add: settled_def)
  note low = sanitise_low_types [OF nw, of keep]
  have "set (sort_entries (sanitise_low keep m1 0) 0) = set (sanitise_low keep m1 0)"
    by (metis mset_sort_entries set_mset_mset)
  with low(2) show "types_at m' a = low_types keep a (resolve (types_at m a))"
    by (simp add: m' merge_entries_types(1) mset_sort_entries low(1)
        sanitise_overlaps_resolve [OF m1 assms(2)])
  show "sorted (map me_base m')"
    unfolding m' using sorted_merge_entries [OF sorted_sort_entries] by blast
  show "k + 1 < length m' \<Longrightarrow> \<not> touching (m' ! k) (m' ! (k + 1))"
    unfolding m' by (rule merge_entries_no_touching)
qed

section \<open>Page alignment of the final map\<close>

definition full_page :: "u64 \<Rightarrow> memmap_entry \<Rightarrow> bool" where
  "full_page a e \<longleftrightarrow>
     unat (me_base e) \<le> unat a div 4096 * 4096
     \<and> unat a div 4096 * 4096 + 4096 \<le> unat (me_base e) + unat (me_length e)"

definition align_pieces :: "memmap_entry \<Rightarrow> memmap_entry list" where
  "align_pieces e =
     (if me_type e \<noteq> MEMMAP_USABLE then [e]
      else case align_entry (me_base e) (me_length e) of
        (ok, b, l) \<Rightarrow> if ok then [e\<lparr>me_base := b, me_length := l\<rparr>] else [])"

lemma align_arith:
  fixes B L a :: nat
  defines "u \<equiv> (B + 4095) div 4096"
  assumes "4096 \<le> L"
  shows "u * 4096 \<le> B + L"
    and "(u * 4096 \<le> a \<and> a < u * 4096 + (L - (u * 4096 - B)) div 4096 * 4096)
      \<longleftrightarrow> (B \<le> a div 4096 * 4096 \<and> a div 4096 * 4096 + 4096 \<le> B + L)"
proof -
  have u: "B \<le> u * 4096" "u * 4096 < B + 4096"
    unfolding u_def using round_up_bounds [of 4096 B] by simp_all
  then show le: "u * 4096 \<le> B + L" using assms(2) by linarith
  have "L - (u * 4096 - B) = B + L - u * 4096" using u le by linarith
  then have d: "u * 4096 + (L - (u * 4096 - B)) div 4096 * 4096 = (B + L) div 4096 * 4096"
  proof -
    from le obtain r where r: "B + L = u * 4096 + r" by (auto simp: le_iff_add)
    with \<open>L - (u * 4096 - B) = B + L - u * 4096\<close> have "L - (u * 4096 - B) = r" by simp
    moreover have "(u * 4096 + r) div 4096 = u + r div 4096" by simp
    ultimately show ?thesis unfolding r by (simp add: add_mult_distrib)
  qed
  have "u * 4096 \<le> a \<longleftrightarrow> u \<le> a div 4096" by (simp add: less_eq_div_iff_mult_less_eq)
  also have "\<dots> \<longleftrightarrow> B \<le> a div 4096 * 4096" using u by linarith
  finally have lo: "u * 4096 \<le> a \<longleftrightarrow> B \<le> a div 4096 * 4096" .
  have "a < (B + L) div 4096 * 4096 \<longleftrightarrow> a div 4096 < (B + L) div 4096"
    by (simp add: div_less_iff_less_mult)
  also have "\<dots> \<longleftrightarrow> Suc (a div 4096) \<le> (B + L) div 4096" by linarith
  also have "\<dots> \<longleftrightarrow> Suc (a div 4096) * 4096 \<le> B + L" by (simp only: less_eq_div_iff_mult_less_eq zero_less_numeral)
  finally have hi: "a < (B + L) div 4096 * 4096 \<longleftrightarrow> a div 4096 * 4096 + 4096 \<le> B + L"
    by (simp add: add.commute)
  show "(u * 4096 \<le> a \<and> a < u * 4096 + (L - (u * 4096 - B)) div 4096 * 4096)
      \<longleftrightarrow> (B \<le> a div 4096 * 4096 \<and> a div 4096 * 4096 + 4096 \<le> B + L)"
    unfolding d lo hi ..
qed

lemma align_entry_unat:
  assumes "wf_entry e" and "align_entry (me_base e) (me_length e) = (ok, b, l)"
    and "\<not> me_length e < PAGE_SIZE"
  defines "u \<equiv> (unat (me_base e) + 4095) div 4096"
  shows "unat b = u * 4096"
    and "unat l = (unat (me_length e) - (u * 4096 - unat (me_base e))) div 4096 * 4096"
    and "ok \<longleftrightarrow> l \<noteq> 0"
proof -
  let ?B = "unat (me_base e)" and ?L = "unat (me_length e)"
  let ?b = "ALIGN_UP (me_base e) PAGE_SIZE"
  have L: "4096 \<le> ?L" using assms(3) by (simp add: PAGE_SIZE_def word_less_nat_alt)
  have BL: "?B + ?L < 2 ^ 64" using assms(1) by (simp add: wf_entry_iff)
  have bl: "b = ?b" "l = ALIGN_DOWN (me_length e - (?b - me_base e)) PAGE_SIZE" "ok \<longleftrightarrow> l \<noteq> 0"
    using assms(2,3) by (auto simp: align_entry_def Let_def split: if_splits)
  show "ok \<longleftrightarrow> l \<noteq> 0" by (fact bl(3))
  have pre: "0 < unat PAGE_SIZE" "?B + (unat PAGE_SIZE - 1) < 2 ^ LENGTH(64)"
    using L BL by (simp_all add: PAGE_SIZE_def)
  show b: "unat b = u * 4096"
    unfolding bl(1) unat_ALIGN_UP [OF pre] by (simp add: PAGE_SIZE_def u_def)
  have "me_base e \<le> ?b" "unat ?b < ?B + 4096"
    using ALIGN_UP_bounds [OF pre] by (simp_all add: PAGE_SIZE_def)
  then have d: "unat (?b - me_base e) = u * 4096 - ?B" and "?b - me_base e \<le> me_length e"
    using b L by (simp_all add: unat_sub_nowrap bl(1) word_le_nat_alt)
  then show "unat l = (?L - (u * 4096 - ?B)) div 4096 * 4096"
    unfolding bl(2) unat_ALIGN_DOWN by (simp add: unat_sub_nowrap d PAGE_SIZE_def)
qed

lemma align_pieces_full_page:
  assumes "wf_entry e" and "me_type e = MEMMAP_USABLE"
  shows "types_at (align_pieces e) a = (if full_page a e then {#MEMMAP_USABLE#} else {#})"
    and "p \<in> set (align_pieces e) \<Longrightarrow> wf_entry p \<and> me_type p = MEMMAP_USABLE
       \<and> 4096 dvd unat (me_base p) \<and> 4096 dvd unat (me_length p)"
proof -
  obtain ok b l where al: "align_entry (me_base e) (me_length e) = (ok, b, l)" by (metis prod_cases3)
  let ?B = "unat (me_base e)" and ?L = "unat (me_length e)"
  let ?p = "e\<lparr>me_base := b, me_length := l\<rparr>"
  let ?u = "(?B + 4095) div 4096"
  have BL: "?B + ?L < 2 ^ 64" using assms(1) by (simp add: wf_entry_iff)
  have ap: "align_pieces e = (if ok then [?p] else [])" using assms(2) by (simp add: align_pieces_def al)
  show "types_at (align_pieces e) a = (if full_page a e then {#MEMMAP_USABLE#} else {#})"
  proof (cases "me_length e < PAGE_SIZE")
    case True
    then have "\<not> full_page a e" by (simp add: full_page_def PAGE_SIZE_def word_less_nat_alt)
    with True al show ?thesis by (auto simp: ap align_entry_def)
  next
    case False
    then have L: "4096 \<le> ?L" by (simp add: PAGE_SIZE_def word_less_nat_alt)
    note u = align_entry_unat [OF assms(1) al False]
    have "unat b + unat l < 2 ^ 64"
      using align_arith(1) [OF L, of ?B] BL div_times_less_eq_dividend [of "?L - (?u * 4096 - ?B)" 4096]
      unfolding u(1,2) by linarith
    then have t: "unat (b + l) = unat b + unat l" by (intro unat_add_nowrap) simp
    have "in_entry a ?p \<longleftrightarrow> full_page a e"
      using align_arith(2) [OF L, of ?B "unat a"]
      by (simp add: in_entry_def full_page_def word_le_nat_alt word_less_nat_alt t u(1,2))
    moreover have "\<not> in_entry a ?p" if "l = 0" using that by (auto simp: in_entry_def)
    ultimately show ?thesis using u(3) assms(2) by (auto simp: ap type_at_def)
  qed
  assume p: "p \<in> set (align_pieces e)"
  then have ok: "ok" and pp: "p = ?p" by (auto simp: ap split: if_splits)
  then have nl: "\<not> me_length e < PAGE_SIZE" using al by (auto simp: align_entry_def)
  then have L: "4096 \<le> ?L" by (simp add: PAGE_SIZE_def word_less_nat_alt)
  note u = align_entry_unat [OF assms(1) al nl]
  have "unat b + unat l < 2 ^ 64"
    using align_arith(1) [OF L, of ?B] BL div_times_less_eq_dividend [of "?L - (?u * 4096 - ?B)" 4096]
    unfolding u(1,2) by linarith
  then have "wf_entry p" using ok u(3) by (simp add: pp wf_entry_iff word_gt_0)
  with u(1,2) assms(2) show "wf_entry p \<and> me_type p = MEMMAP_USABLE
       \<and> 4096 dvd unat (me_base p) \<and> 4096 dvd unat (me_length p)"
    by (simp add: pp)
qed

lemma full_page_in_entry:
  assumes "full_page a e" and "wf_entry e"
  shows "in_entry a e"
proof -
  have t: "unat (me_top e) = unat (me_base e) + unat (me_length e)"
    using assms(2) by (intro unat_add_nowrap) (simp add: wf_entry_iff)
  have "unat a = unat a div 4096 * 4096 + unat a mod 4096" and "unat a mod 4096 < 4096"
    by simp_all
  with assms(1) show ?thesis
    unfolding full_page_def in_entry_def word_le_nat_alt word_less_nat_alt t by linarith
qed

lemma wf_map_update:
  assumes "wf_map m" and "i < length m" and "wf_entry e"
    and "\<And>a. size (type_at e a) \<le> size (type_at (m ! i) a)"
  shows "wf_map (m[i := e])"
proof -
  have "size (types_at (m[i := e]) a) \<le> 1" for a
  proof -
    have "size (types_at (m[i := e]) a) \<le> size (types_at m a)"
      using assms(4) [of a] by (simp add: types_at_update [OF assms(2)] types_at_nth [OF assms(2)])
    also have "\<dots> \<le> 1" using assms(1) by (simp add: wf_map_def)
    finally show ?thesis .
  qed
  moreover have "\<forall>x \<in> set (m[i := e]). wf_entry x"
    using assms(1,3) set_update_subset_insert [of m i e] by (auto simp: wf_map_def)
  ultimately show ?thesis by (simp add: wf_map_def)
qed

lemma wf_map_swap_remove:
  assumes "wf_map m" and "i < length m"
  shows "wf_map (swap_remove m i)"
proof -
  have "size (types_at (swap_remove m i) a) \<le> 1" for a
  proof -
    have "size (types_at (swap_remove m i) a) \<le> size (types_at m a)"
      by (simp add: types_at_swap_remove [OF assms(2)] types_at_nth [OF assms(2)])
    also have "\<dots> \<le> 1" using assms(1) by (simp add: wf_map_def)
    finally show ?thesis .
  qed
  then show ?thesis
    using assms set_swap_remove_subset [OF assms(2)] by (auto simp: wf_map_def)
qed

lemma sanitise_overlaps_align_step:
  assumes "wf_map m" and "i < length m"
  shows "\<exists>m2 e. align_pieces (m ! i) = [] \<and> m2 = m[i := e]
       \<and> sanitise_overlaps True m i = sanitise_overlaps True (swap_remove m2 i) i
     \<or> align_pieces (m ! i) = [e]
       \<and> sanitise_overlaps True m i = sanitise_overlaps True (m[i := e]) (Suc i)"
proof -
  have "wf_entry (m ! i)" using assms by (simp add: wf_map_def)
  then have "me_length (m ! i) \<noteq> 0" by (simp add: wf_entry_no_wrap)
  with assms(2) trim_entry_id [OF assms] show ?thesis
    by (cases "align_entry (me_base (m ! i)) (me_length (m ! i))")
      (auto simp: sanitise_overlaps.simps [of True m i] align_pieces_def)
qed

lemma swap_remove_update: "i < length m \<Longrightarrow> swap_remove (m[i := e]) i = swap_remove m i"
  by (cases m rule: rev_cases) (auto simp: swap_remove_def list_update_append)

lemma align_piece_shrinks:
  assumes "wf_entry e" and "align_pieces e = [e']"
  shows "wf_entry e'" and "size (type_at e' a) \<le> size (type_at e a)"
proof -
  show "wf_entry e'"
    using assms align_pieces_full_page(2) [OF assms(1), of e']
    by (cases "me_type e = MEMMAP_USABLE") (auto simp: align_pieces_def)
  show "size (type_at e' a) \<le> size (type_at e a)"
  proof (cases "me_type e = MEMMAP_USABLE")
    case True
    from align_pieces_full_page(1) [OF assms(1) this, of a] full_page_in_entry [OF _ assms(1), of a]
    show ?thesis by (auto simp: assms(2) type_at_def split: if_splits)
  qed (use assms(2) in \<open>simp add: align_pieces_def\<close>)
qed

lemma sanitise_overlaps_align:
  assumes "wf_map m" and "i \<le> length m"
  shows "\<exists>m'. sanitise_overlaps True m i = Inr m' \<and> wf_map m'
    \<and> mset m' = mset (take i m) + (\<Sum>e \<in># mset (drop i m). mset (align_pieces e))"
  using assms
proof (induction "length m - i" arbitrary: m i rule: less_induct)
  case less
  show ?case
  proof (cases "i < length m")
    case False
    with less.prems show ?thesis by (simp add: sanitise_overlaps.simps)
  next
    case i: True
    have d: "mset (drop i m) = add_mset (m ! i) (mset (drop (Suc i) m))"
      using i by (metis Cons_nth_drop_Suc mset.simps(2))
    have wf: "wf_entry (m ! i)" using less.prems(1) i by (simp add: wf_map_def)
    from sanitise_overlaps_align_step [OF less.prems(1) i] show ?thesis
    proof (elim exE disjE conjE)
      fix m2 e
      assume p: "align_pieces (m ! i) = []" and "m2 = m[i := e]"
        and "sanitise_overlaps True m i = sanitise_overlaps True (swap_remove m2 i) i"
      then have "sanitise_overlaps True m i = sanitise_overlaps True (swap_remove m i) i"
        using i by (simp add: swap_remove_update)
      with less.hyps [of "swap_remove m i" i] wf_map_swap_remove [OF less.prems(1) i] i p
      show ?thesis by (simp add: d take_swap_remove mset_drop_swap_remove)
    next
      fix e
      assume p: "align_pieces (m ! i) = [e]"
        and "sanitise_overlaps True m i = sanitise_overlaps True (m[i := e]) (Suc i)"
      with less.hyps [of "m[i := e]" "Suc i"] i
        wf_map_update [OF less.prems(1) i align_piece_shrinks [OF wf p]]
      show ?thesis by (simp add: d take_Suc_conv_app_nth)
    qed
  qed
qed

end
