(* ===== verification/Libc.thy ===== *)
theory Libc
  imports Limine_Prelude
begin

text \<open>
  The string and memory routines of \<^verbatim>\<open>common/lib/libc.s2.c\<close>, \<^verbatim>\<open>common/lib/libc.c\<close>,
  \<^verbatim>\<open>common/lib/memory.s2.c\<close> and the number parser of \<^verbatim>\<open>common/lib/misc.s2.c\<close>. A C string is
  the list of its characters without the terminating zero: reading at the end gives that zero, and
  a pointer into a string is the list of the characters from there on. Plain memory is a function
  from addresses to bytes.
\<close>

section \<open>Characters\<close>

abbreviation NUL :: char where
  "NUL \<equiv> CHR 0x00"

definition uchar :: "char \<Rightarrow> int" where
  "uchar c = of_char c"

definition schar :: "char \<Rightarrow> int" where
  "schar c = (if uchar c < 128 then uchar c else uchar c - 256)"

definition chd :: "string \<Rightarrow> char" where
  "chd s = (case s of [] \<Rightarrow> NUL | c # _ \<Rightarrow> c)"

definition cstring :: "string \<Rightarrow> bool" where
  "cstring s \<longleftrightarrow> NUL \<notin> set s"

definition isprint :: "int \<Rightarrow> bool" where
  "isprint c \<longleftrightarrow> c \<ge> uchar CHR '' '' \<and> c \<le> uchar CHR ''~''"

definition isspace :: "int \<Rightarrow> bool" where
  "isspace c \<longleftrightarrow> (c \<ge> 9 \<and> c \<le> 0xD) \<or> c = uchar CHR '' ''"

definition isalpha :: "int \<Rightarrow> bool" where
  "isalpha c \<longleftrightarrow> (c \<ge> uchar CHR ''a'' \<and> c \<le> uchar CHR ''z'')
     \<or> (c \<ge> uchar CHR ''A'' \<and> c \<le> uchar CHR ''Z'')"

definition isdigit :: "int \<Rightarrow> bool" where
  "isdigit c \<longleftrightarrow> c \<ge> uchar CHR ''0'' \<and> c \<le> uchar CHR ''9''"

definition toupper :: "int \<Rightarrow> int" where
  "toupper c = (if c \<ge> uchar CHR ''a'' \<and> c \<le> uchar CHR ''z'' then c - 0x20 else c)"

definition tolower :: "int \<Rightarrow> int" where
  "tolower c = (if c \<ge> uchar CHR ''A'' \<and> c \<le> uchar CHR ''Z'' then c + 0x20 else c)"

definition digit_to_int :: "char \<Rightarrow> int" where
  "digit_to_int c =
     (if schar c \<ge> schar CHR ''a'' \<and> schar c \<le> schar CHR ''f'' then schar c - schar CHR ''a'' + 10
      else if schar c \<ge> schar CHR ''A'' \<and> schar c \<le> schar CHR ''F'' then schar c - schar CHR ''A'' + 10
      else if schar c \<ge> schar CHR ''0'' \<and> schar c \<le> schar CHR ''9'' then schar c - schar CHR ''0''
      else - 1)"

section \<open>Strings\<close>

fun strlen :: "string \<Rightarrow> nat" where
  "strlen [] = 0"
| "strlen (c # s) = (if c = NUL then 0 else Suc (strlen s))"

fun strnlen :: "string \<Rightarrow> nat \<Rightarrow> nat" where
  "strnlen s 0 = 0"
| "strnlen s (Suc maxlen) = (if chd s = NUL then 0 else Suc (strnlen (tl s) maxlen))"

text \<open>\<^verbatim>\<open>strcpy\<close> and \<^verbatim>\<open>strncpy\<close> overwrite a prefix of the destination buffer.\<close>

fun strcpy :: "char list \<Rightarrow> string \<Rightarrow> char list" where
  "strcpy dest [] = NUL # tl dest"
| "strcpy dest (c # s) = (if c = NUL then NUL # tl dest else c # strcpy (tl dest) s)"

fun strncpy :: "char list \<Rightarrow> string \<Rightarrow> nat \<Rightarrow> char list" where
  "strncpy dest src 0 = dest"
| "strncpy dest src (Suc n) =
     (if chd src = NUL then NUL # strncpy (tl dest) [] n
      else chd src # strncpy (tl dest) (tl src) n)"

function strcmp :: "string \<Rightarrow> string \<Rightarrow> int" where
  "strcmp s1 s2 =
     (let c1 = chd s1; c2 = chd s2 in
      if c1 \<noteq> c2 then (if uchar c1 < uchar c2 then - 1 else 1)
      else if c1 = NUL then 0
      else strcmp (tl s1) (tl s2))"
  by pat_completeness auto
termination
  by (relation "measure (\<lambda>(s1, s2). length s1)") (auto simp: chd_def split: list.splits)

function strcasecmp :: "string \<Rightarrow> string \<Rightarrow> int" where
  "strcasecmp s1 s2 =
     (let c1 = chd s1; c2 = chd s2 in
      if tolower (uchar c1) \<noteq> tolower (uchar c2) then (if uchar c1 < uchar c2 then - 1 else 1)
      else if c1 = NUL then 0
      else strcasecmp (tl s1) (tl s2))"
  by pat_completeness auto
termination
  by (relation "measure (\<lambda>(s1, s2). length s1)") (auto simp: chd_def split: list.splits)

fun strncmp :: "string \<Rightarrow> string \<Rightarrow> nat \<Rightarrow> int" where
  "strncmp s1 s2 0 = 0"
| "strncmp s1 s2 (Suc n) =
     (let c1 = chd s1; c2 = chd s2 in
      if c1 \<noteq> c2 then (if uchar c1 < uchar c2 then - 1 else 1)
      else if c1 = NUL then 0
      else strncmp (tl s1) (tl s2) n)"

fun strncasecmp :: "string \<Rightarrow> string \<Rightarrow> nat \<Rightarrow> int" where
  "strncasecmp s1 s2 0 = 0"
| "strncasecmp s1 s2 (Suc n) =
     (let c1 = chd s1; c2 = chd s2 in
      if tolower (uchar c1) \<noteq> tolower (uchar c2) then (if uchar c1 < uchar c2 then - 1 else 1)
      else if c1 = NUL then 0
      else strncasecmp (tl s1) (tl s2) n)"

declare strcmp.simps [simp del] strcasecmp.simps [simp del]

text \<open>The searches return the rest of the string from the character found.\<close>

fun strchr :: "string \<Rightarrow> char \<Rightarrow> string option" where
  "strchr [] ch = (if ch = NUL then Some [] else None)"
| "strchr (c # s) ch =
     (if c = ch then Some (c # s) else if c = NUL then None else strchr s ch)"

fun strrchr_from :: "string option \<Rightarrow> string \<Rightarrow> char \<Rightarrow> string option" where
  "strrchr_from p [] ch = (if ch = NUL then Some [] else p)"
| "strrchr_from p (c # s) ch =
     (let p' = (if c = ch then Some (c # s) else p)
      in if c = NUL then p' else strrchr_from p' s ch)"

definition strrchr :: "string \<Rightarrow> char \<Rightarrow> string option" where
  "strrchr s ch = strrchr_from None s ch"

text \<open>The buffers of \<^verbatim>\<open>memchr\<close> and \<^verbatim>\<open>memcmp\<close> hold at least \<open>n\<close> bytes.\<close>

fun memchr :: "u8 list \<Rightarrow> u8 \<Rightarrow> nat \<Rightarrow> u8 list option" where
  "memchr p ch 0 = None"
| "memchr p ch (Suc n) =
     (case p of [] \<Rightarrow> None
      | b # p' \<Rightarrow> if b = ch then Some p else memchr p' ch n)"

section \<open>Numbers in text\<close>

fun strtoui_from :: "u64 \<Rightarrow> string \<Rightarrow> int \<Rightarrow> u64 \<times> string" where
  "strtoui_from n [] base = (n, [])"
| "strtoui_from n (c # s) base =
     (let d = digit_to_int c in
      if d = - 1 \<or> d \<ge> base then (n, c # s)
      else
        (case builtin_mul_overflow n (of_int base) of
           None \<Rightarrow> (- 1, c # s)
         | Some mul_result \<Rightarrow>
             (case builtin_add_overflow mul_result (of_int d) of
                None \<Rightarrow> (- 1, c # s)
              | Some n' \<Rightarrow> strtoui_from n' s base)))"

definition strtoui :: "string \<Rightarrow> int \<Rightarrow> u64 \<times> string" where
  "strtoui s base = strtoui_from 0 s base"

text \<open>\<^verbatim>\<open>inet_pton\<close> returns the four octets, or nothing where the code returns \<open>-1\<close>; the
  counter \<open>i\<close> is the number of octets already read.\<close>

function inet_pton_from :: "nat \<Rightarrow> u8 list \<Rightarrow> string \<Rightarrow> u8 list option" where
  "inet_pton_from i array current =
     (if i < 4 then
        (case strtoui current 10 of (val0, newcur) \<Rightarrow>
           if newcur = current then None
           else if i < 3 \<and> chd newcur \<noteq> CHR ''.'' then None
           else if \<not> i < 3 \<and> chd newcur \<noteq> NUL then None
           else if val0 > 255 then None
           else inet_pton_from (Suc i) (array @ [ucast val0]) (if i < 3 then tl newcur else newcur))
      else Some array)"
  by pat_completeness auto
termination
  by (relation "measure (\<lambda>(i, array, current). 4 - i)") auto

declare inet_pton_from.simps [simp del]

definition inet_pton :: "string \<Rightarrow> u8 list option" where
  "inet_pton src = inet_pton_from 0 [] src"

text \<open>\<^verbatim>\<open>strtoul\<close>: white space, sign and prefix, then the digit loop. \<open>any\<close> is 0 before the first
  digit, 1 after one and -1 after an overflow; \<^verbatim>\<open>unsigned long\<close> has 64 bits.\<close>

fun skip_spaces :: "string \<Rightarrow> string" where
  "skip_spaces [] = []"
| "skip_spaces (c # s) = (if isspace (uchar c) then skip_spaces s else c # s)"

definition strtoul_digit :: "char \<Rightarrow> int option" where
  "strtoul_digit c =
     (if schar c \<ge> schar CHR ''0'' \<and> schar c \<le> schar CHR ''9'' then Some (schar c - schar CHR ''0'')
      else if schar c \<ge> schar CHR ''A'' \<and> schar c \<le> schar CHR ''Z''
      then Some (schar c - (schar CHR ''A'' - 10))
      else if schar c \<ge> schar CHR ''a'' \<and> schar c \<le> schar CHR ''z''
      then Some (schar c - (schar CHR ''a'' - 10))
      else None)"

fun strtoul_loop :: "int \<Rightarrow> u64 \<Rightarrow> int \<Rightarrow> string \<Rightarrow> u64 \<times> int \<times> string" where
  "strtoul_loop base acc any [] = (acc, any, [])"
| "strtoul_loop base acc any (c # s) =
     (case strtoul_digit c of
        None \<Rightarrow> (acc, any, c # s)
      | Some d \<Rightarrow>
          if d \<ge> base then (acc, any, c # s)
          else
            let cutoff = (- 1 :: u64) div of_int base;
                cutlim = uint ((- 1 :: u64) mod of_int base)
            in if any < 0 \<or> acc > cutoff \<or> (acc = cutoff \<and> d > cutlim)
               then strtoul_loop base acc (- 1) s
               else strtoul_loop base (acc * of_int base + of_int d) 1 s)"

definition is_hex_prefix :: "string \<Rightarrow> bool" where
  "is_hex_prefix s \<longleftrightarrow>
     (let c = chd s; x = chd (tl s); h = chd (tl (tl s)) in
      c = CHR ''0'' \<and> (x = CHR ''x'' \<or> x = CHR ''X'')
      \<and> ((schar h \<ge> schar CHR ''0'' \<and> schar h \<le> schar CHR ''9'')
         \<or> (schar h \<ge> schar CHR ''A'' \<and> schar h \<le> schar CHR ''F'')
         \<or> (schar h \<ge> schar CHR ''a'' \<and> schar h \<le> schar CHR ''f'')))"

definition strtoul :: "string \<Rightarrow> int \<Rightarrow> u64 \<times> string" where
  "strtoul nptr base0 =
     (let s1 = skip_spaces nptr;
          neg = (chd s1 = CHR ''-'');
          s2 = (if chd s1 = CHR ''-'' \<or> chd s1 = CHR ''+'' then tl s1 else s1);
          hex = (base0 = 0 \<or> base0 = 16) \<and> is_hex_prefix s2;
          s3 = (if hex then tl (tl s2) else s2);
          base1 = (if hex then 16 else base0);
          base = (if base1 = 0 then (if chd s3 = CHR ''0'' then 8 else 10) else base1)
      in if base < 2 \<or> base > 36 then (0, nptr)
         else
           (case strtoul_loop base 0 0 s3 of (acc, any, s) \<Rightarrow>
              ((if any < 0 then - 1 else if any = 0 then acc else if neg then - acc else acc),
               (if any \<noteq> 0 then s else nptr))))"

section \<open>Memory\<close>

type_synonym memory = "u64 \<Rightarrow> u8"

primrec memcpy_loop :: "memory \<Rightarrow> u64 \<Rightarrow> u64 \<Rightarrow> nat \<Rightarrow> memory" where
  "memcpy_loop f dest src 0 = f"
| "memcpy_loop f dest src (Suc i) =
     (let g = memcpy_loop f dest src i in g(dest + of_nat i := g (src + of_nat i)))"

definition memcpy :: "memory \<Rightarrow> u64 \<Rightarrow> u64 \<Rightarrow> u64 \<Rightarrow> memory" where
  "memcpy f dest src n = memcpy_loop f dest src (unat n)"

primrec memset_loop :: "memory \<Rightarrow> u64 \<Rightarrow> u8 \<Rightarrow> nat \<Rightarrow> memory" where
  "memset_loop f s c 0 = f"
| "memset_loop f s c (Suc i) = (memset_loop f s c i)(s + of_nat i := c)"

definition memset :: "memory \<Rightarrow> u64 \<Rightarrow> u8 \<Rightarrow> u64 \<Rightarrow> memory" where
  "memset f s c n = memset_loop f s c (unat n)"

primrec memmove_down :: "memory \<Rightarrow> u64 \<Rightarrow> u64 \<Rightarrow> nat \<Rightarrow> memory" where
  "memmove_down f dest src 0 = f"
| "memmove_down f dest src (Suc i) =
     memmove_down (f(dest + of_nat i := f (src + of_nat i))) dest src i"

definition memmove :: "memory \<Rightarrow> u64 \<Rightarrow> u64 \<Rightarrow> u64 \<Rightarrow> memory" where
  "memmove f dest src n =
     (if src > dest then memcpy_loop f dest src (unat n)
      else if src < dest then memmove_down f dest src (unat n)
      else f)"

fun memcmp :: "u8 list \<Rightarrow> u8 list \<Rightarrow> nat \<Rightarrow> int" where
  "memcmp (a # s1) (b # s2) (Suc n) =
     (if a \<noteq> b then (if a < b then - 1 else 1) else memcmp s1 s2 n)"
| "memcmp s1 s2 n = 0"

section \<open>Comparison of strings\<close>

lemma uchar_of_nat: "uchar c = int (of_char c)"
  unfolding uchar_def by (rule of_nat_of_char [symmetric])

lemma uchar_bounds: "0 \<le> uchar c" "uchar c < 256"
  using nat_of_char_less_256 [of c] by (simp_all add: uchar_of_nat del: of_nat_of_char)

lemma uchar_eq_iff [simp]: "uchar a = uchar b \<longleftrightarrow> a = b"
  by (simp add: uchar_def)

lemma uchar_NUL [simp]: "uchar NUL = 0"
  by (simp add: uchar_def)

lemma NUL_least [simp]: "0 < uchar c \<longleftrightarrow> c \<noteq> NUL"
  using uchar_bounds(1) [of c] uchar_eq_iff [of c NUL] by (auto simp del: uchar_eq_iff)

lemma chd_simps [simp]: "chd [] = NUL" "chd (c # s) = c"
  by (simp_all add: chd_def)

lemma cstring_simps [simp]: "cstring []" "cstring (c # s) \<longleftrightarrow> c \<noteq> NUL \<and> cstring s"
  by (auto simp: cstring_def)

lemma cstring_append [simp]: "cstring (s @ t) \<longleftrightarrow> cstring s \<and> cstring t"
  by (simp add: cstring_def)

definition char_less :: "(char \<times> char) set" where
  "char_less = {(a, b). uchar a < uchar b}"

lemma strcmp_Nil:
  "strcmp [] s = (if chd s = NUL then 0 else - 1)"
  using NUL_least [of "chd s"] by (auto simp: strcmp.simps)

lemma strcmp_Cons_Nil: "strcmp (c # s) [] = (if c = NUL then 0 else 1)"
  using uchar_bounds(1) [of c] by (simp add: strcmp.simps not_less)

lemma strcmp_Cons:
  "strcmp (a # s) (b # t) =
     (if a = b then (if a = NUL then 0 else strcmp s t) else if uchar a < uchar b then - 1 else 1)"
  by (simp add: strcmp.simps [of "a # s"])

lemma strcmp_lexord:
  assumes "cstring s" and "cstring t"
  shows "strcmp s t = (if s = t then 0 else if (s, t) \<in> lexord char_less then - 1 else 1)"
  using assms
proof (induction s arbitrary: t)
  case Nil
  then show ?case by (cases t) (simp_all add: strcmp_Nil)
next
  case (Cons a s)
  then show ?case
    by (cases t) (auto simp: strcmp_Cons strcmp_Cons_Nil char_less_def)
qed

lemma strcasecmp_simps:
  "strcasecmp [] [] = 0"
  "strcasecmp [] (b # t) = (if b = NUL then 0 else - 1)"
  "strcasecmp (a # s) [] = (if a = NUL then 0 else 1)"
  "strcasecmp (a # s) (b # t) =
     (if tolower (uchar a) = tolower (uchar b) then (if a = NUL then 0 else strcasecmp s t)
      else if uchar a < uchar b then - 1 else 1)"
proof -
  have low0: "tolower 0 = 0" by (simp add: tolower_def uchar_def)
  have low: "tolower (uchar c) \<noteq> 0 \<longleftrightarrow> c \<noteq> NUL" for c
    using NUL_least [of c] low0 by (cases "c = NUL") (auto simp: tolower_def simp del: NUL_least)
  show "strcasecmp [] [] = 0" by (simp add: strcasecmp.simps)
  show "strcasecmp [] (b # t) = (if b = NUL then 0 else - 1)"
    using low [of b] by (auto simp: strcasecmp.simps low0 Let_def)
  show "strcasecmp (a # s) [] = (if a = NUL then 0 else 1)"
    using low [of a] uchar_bounds(1) [of a] by (auto simp: strcasecmp.simps low0 Let_def)
qed (simp add: strcasecmp.simps [of "a # s"])

lemma strcasecmp_eq_0:
  assumes "cstring s" and "cstring t"
  shows "strcasecmp s t = 0 \<longleftrightarrow> map (\<lambda>c. tolower (uchar c)) s = map (\<lambda>c. tolower (uchar c)) t"
  using assms
proof (induction s arbitrary: t)
  case Nil
  then show ?case by (cases t) (simp_all add: strcasecmp_simps)
next
  case (Cons a s)
  then show ?case by (cases t) (simp_all add: strcasecmp_simps)
qed

lemma strncmp_take: "strncmp s t n = strcmp (take n s) (take n t)"
proof (induction n arbitrary: s t)
  case 0
  then show ?case by (simp add: strcmp_Nil)
next
  case (Suc n)
  show ?case
  proof (cases s)
    case Nil
    then show ?thesis using NUL_least [of "chd t"] by (cases t) (auto simp: strcmp_Nil Let_def)
  next
    case (Cons a s')
    with Suc show ?thesis
      using uchar_bounds(1) [of a] by (cases t) (auto simp: strcmp_Cons strcmp_Cons_Nil Let_def)
  qed
qed

lemma strlen_cstring [simp]: "cstring s \<Longrightarrow> strlen s = length s"
  by (induction s) simp_all

section \<open>Values of digit strings\<close>

definition digit_in :: "int \<Rightarrow> char \<Rightarrow> bool" where
  "digit_in base c \<longleftrightarrow> digit_to_int c \<noteq> - 1 \<and> digit_to_int c < base"

definition value_from :: "nat \<Rightarrow> nat \<Rightarrow> string \<Rightarrow> nat" where
  "value_from base n ds = foldl (\<lambda>n c. n * base + nat (digit_to_int c)) n ds"

lemma value_from_simps [simp]:
  "value_from base n [] = n"
  "value_from base n (c # s) = value_from base (n * base + nat (digit_to_int c)) s"
  by (simp_all add: value_from_def)

lemma value_from_append: "value_from base n (s @ t) = value_from base (value_from base n s) t"
  by (simp add: value_from_def)

lemma value_from_mono:
  assumes "1 \<le> base"
  shows "n \<le> value_from base n ds"
proof (induction ds arbitrary: n)
  case (Cons c ds)
  have "n \<le> n * base" using assms by simp
  then have "n \<le> n * base + nat (digit_to_int c)" by linarith
  also have "\<dots> \<le> value_from base (n * base + nat (digit_to_int c)) ds" by (rule Cons.IH)
  finally show ?case by simp
qed simp

lemma digit_to_int_nonneg: "digit_to_int c \<noteq> - 1 \<Longrightarrow> 0 \<le> digit_to_int c"
  unfolding digit_to_int_def by (simp split: if_splits)

lemma schar_literals:
  "schar CHR ''a'' = 97" "schar CHR ''f'' = 102" "schar CHR ''z'' = 122"
  "schar CHR ''A'' = 65" "schar CHR ''F'' = 70" "schar CHR ''Z'' = 90"
  "schar CHR ''0'' = 48" "schar CHR ''9'' = 57"
  by (simp_all add: schar_def uchar_def)

lemma digit_to_int_less: "digit_to_int c < 16"
  unfolding digit_to_int_def schar_literals by simp

text \<open>The parser reads the longest prefix of digits; on overflow it saturates.\<close>

lemma strtoui_from_step:
  assumes "digit_in base c" and "2 \<le> base" and "base \<le> 16"
  shows "strtoui_from n (c # s) base =
    (let v = unat n * nat base + nat (digit_to_int c)
     in if v < 2 ^ 64 then strtoui_from (of_nat v) s base else (- 1, c # s))"
proof -
  let ?d = "digit_to_int c" and ?b = "of_int base :: u64"
  have d: "0 \<le> ?d" "?d < 16" using assms(1) digit_to_int_less [of c]
    by (simp_all add: digit_in_def digit_to_int_nonneg)
  have small: "unat (of_int k :: u64) = nat k" if "0 \<le> k" "k \<le> 16" for k
  proof -
    have "(of_int k :: u64) = of_nat (nat k)" using that(1) by (simp add: of_nat_nat)
    moreover have "unat (of_nat (nat k) :: u64) = nat k"
      by (rule unat_of_nat_small) (use that(2) in simp)
    ultimately show ?thesis by (simp only:)
  qed
  have b: "unat ?b = nat base" and ud: "unat (of_int ?d :: u64) = nat ?d"
    using small [of base] small [of ?d] assms(2,3) d by simp_all
  show ?thesis
  proof (cases "unat n * nat base < 2 ^ 64")
    case True
    then have m: "unat (n * ?b) = unat n * nat base" by (subst unat_mult_nowrap) (simp_all add: b)
    have "of_nat (unat n * nat base + nat ?d) = n * ?b + of_int ?d"
      using assms(2) d by (simp add: of_nat_nat)
    with True m assms(1) show ?thesis
      by (simp add: builtin_mul_overflow_def builtin_add_overflow_def b ud digit_in_def Let_def)
  next
    case False
    with assms(1) show ?thesis
      by (simp add: builtin_mul_overflow_def b digit_in_def Let_def)
  qed
qed

lemma strtoui_from_value:
  assumes "2 \<le> base" and "base \<le> 16"
  defines "v \<equiv> \<lambda>n s. value_from (nat base) (unat n) (takeWhile (digit_in base) s)"
  shows "unat (fst (strtoui_from n s base)) = min (v n s) (2 ^ 64 - 1)
    \<and> (v n s < 2 ^ 64 \<longrightarrow> snd (strtoui_from n s base) = dropWhile (digit_in base) s)"
proof (induction s arbitrary: n)
  case Nil
  then show ?case using u64_bound [of n] by (simp add: v_def min_def)
next
  case (Cons c s)
  show ?case
  proof (cases "digit_in base c")
    case False
    then show ?thesis using u64_bound [of n] by (auto simp: digit_in_def v_def min_def)
  next
    case True
    define w where "w = unat n * nat base + nat (digit_to_int c)"
    have v: "v n (c # s) = value_from (nat base) w (takeWhile (digit_in base) s)"
      using True by (simp add: v_def w_def)
    have step: "strtoui_from n (c # s) base =
        (if w < 2 ^ 64 then strtoui_from (of_nat w) s base else (- 1, c # s))"
      using strtoui_from_step [OF True assms(1,2)] by (simp only: Let_def w_def)
    show ?thesis
    proof (cases "w < 2 ^ 64")
      case fits: True
      then have "unat (of_nat w :: u64) = w" by (intro unat_of_nat_small) simp
      then have "v (of_nat w) s = v n (c # s)" unfolding v by (simp add: v_def)
      with Cons.IH [of "of_nat w"] fits True show ?thesis unfolding step by simp
    next
      case False
      have "w \<le> v n (c # s)" unfolding v using assms(1) by (intro value_from_mono) simp
      with False have "\<not> v n (c # s) < 2 ^ 64" by linarith
      with False show ?thesis unfolding step by (simp add: unat_all_ones min_def)
    qed
  qed
qed

lemma strtoui_digits:
  assumes "2 \<le> base" and "base \<le> 16" and "list_all (digit_in base) ds"
    and "rest = [] \<or> \<not> digit_in base (hd rest)" and "value_from (nat base) 0 ds < 2 ^ 64"
  shows "strtoui (ds @ rest) base = (of_nat (value_from (nat base) 0 ds), rest)"
proof -
  have tw: "takeWhile (digit_in base) (ds @ rest) = ds" "dropWhile (digit_in base) (ds @ rest) = rest"
    using assms(3,4) by (induction ds) (auto simp: takeWhile_eq_Nil_iff dropWhile_eq_self_iff)
  note v = strtoui_from_value [OF assms(1,2), of 0 "ds @ rest", unfolded tw]
  have "unat (fst (strtoui (ds @ rest) base)) = value_from (nat base) 0 ds"
    using v assms(5) by (simp add: strtoui_def)
  moreover have "unat (of_nat (value_from (nat base) 0 ds) :: u64) = value_from (nat base) 0 ds"
    using assms(5) by (intro unat_of_nat_small) simp
  ultimately have "fst (strtoui (ds @ rest) base) = of_nat (value_from (nat base) 0 ds)"
    by (simp add: word_unat_eq_iff)
  moreover have "snd (strtoui (ds @ rest) base) = rest" using v assms(5) by (simp add: strtoui_def)
  ultimately show ?thesis by (simp add: prod_eq_iff)
qed

section \<open>The effect of the memory routines\<close>

definition mem_set :: "u64 \<Rightarrow> u8 \<Rightarrow> u64 \<Rightarrow> memory \<Rightarrow> memory" where
  "mem_set p c n f = (\<lambda>a. if a - p < n then c else f a)"

definition mem_copy :: "u64 \<Rightarrow> u64 \<Rightarrow> u64 \<Rightarrow> memory \<Rightarrow> memory" where
  "mem_copy dst src n f = (\<lambda>a. if a - dst < n then f (src + (a - dst)) else f a)"

lemma offset_eq_iff:
  fixes a p :: u64
  assumes "i < 2 ^ 64"
  shows "a = p + of_nat i \<longleftrightarrow> unat (a - p) = i"
proof -
  have "unat (of_nat i :: u64) = i" using assms by (intro unat_of_nat_small) simp
  then have "a - p = of_nat i \<longleftrightarrow> unat (a - p) = i" by (simp add: word_unat_eq_iff)
  then show ?thesis by (metis add.commute diff_add_cancel add_diff_cancel_left')
qed

lemma memset_loop_eq:
  "i \<le> 2 ^ 64 \<Longrightarrow> memset_loop f s c i a = (if unat (a - s) < i then c else f a)"
  by (induction i) (auto simp: offset_eq_iff less_Suc_eq)

lemma memset_eq_mem_set: "memset f s c n = mem_set s c n f"
  using u64_bound [of n] by (auto simp: memset_def mem_set_def memset_loop_eq word_less_nat_alt)

text \<open>An ascending copy is right unless the destination starts inside the source, a descending one
  unless the source starts inside the destination.\<close>

lemma memcpy_loop_eq:
  assumes "i \<le> 2 ^ 64" and "dest = src \<or> i \<le> unat (dest - src)"
  shows "memcpy_loop f dest src i a = (if unat (a - dest) < i then f (src + (a - dest)) else f a)"
  using assms
proof (induction i arbitrary: a)
  case (Suc i)
  have i: "i < 2 ^ 64" using Suc.prems(1) by simp
  have ih: "memcpy_loop f dest src i b = (if unat (b - dest) < i then f (src + (b - dest)) else f b)" for b
    using Suc by auto
  have "\<not> unat (src + of_nat i - dest) < i \<or> dest = src"
  proof (cases "dest = src")
    case False
    have ui: "unat (of_nat i :: u64) = i" using i by (intro unat_of_nat_small) simp
    have eq: "src + of_nat i - dest = of_nat i - (dest - src)" by simp
    have "(of_nat i :: u64) < dest - src" using Suc.prems(2) False ui by (simp add: word_less_nat_alt)
    from unat_sub_wrap [OF this] have "i \<le> unat (of_nat i - (dest - src))"
      using u64_bound [of "dest - src"] unfolding ui by simp
    then show ?thesis by (simp add: eq)
  qed simp
  then have "memcpy_loop f dest src i (src + of_nat i) = f (src + of_nat i)"
    unfolding ih by (auto simp: algebra_simps)
  then show ?case using i by (auto simp: Let_def ih offset_eq_iff less_Suc_eq simp flip: offset_eq_iff)
qed simp

lemma memmove_down_eq:
  assumes "i \<le> 2 ^ 64" and "i \<le> unat (src - dest)"
  shows "memmove_down f dest src i a = (if unat (a - dest) < i then f (src + (a - dest)) else f a)"
  using assms
proof (induction i arbitrary: f a)
  case (Suc i)
  let ?g = "f(dest + of_nat i := f (src + of_nat i))"
  have i: "i < 2 ^ 64" using Suc.prems(1) by simp
  have ih: "memmove_down ?g dest src i a = (if unat (a - dest) < i then ?g (src + (a - dest)) else ?g a)"
    using Suc by simp
  have "src + (a - dest) \<noteq> dest + of_nat i" if "unat (a - dest) < i"
  proof
    assume "src + (a - dest) = dest + of_nat i"
    then have eq: "of_nat i - (a - dest) = src - dest" by (simp add: algebra_simps)
    have ui: "unat (of_nat i :: u64) = i" using i by (intro unat_of_nat_small) simp
    have "unat (of_nat i - (a - dest)) = i - unat (a - dest)"
      using that ui by (subst unat_sub_nowrap) (simp_all add: word_le_nat_alt)
    then show False using Suc.prems(2) unfolding eq by linarith
  qed
  then show ?case using i by (auto simp: ih offset_eq_iff less_Suc_eq simp flip: offset_eq_iff)
qed simp

lemma memcpy_eq_mem_copy:
  assumes "dest = src \<or> n \<le> dest - src"
  shows "memcpy f dest src n = mem_copy dest src n f"
proof -
  have "unat n \<le> 2 ^ 64" using u64_bound [of n] by simp
  moreover have "dest = src \<or> unat n \<le> unat (dest - src)" using assms by (simp add: word_le_nat_alt)
  ultimately show ?thesis by (auto simp: memcpy_def mem_copy_def memcpy_loop_eq word_less_nat_alt)
qed

section \<open>Properties\<close>

text \<open>C27: \<open>strcmp\<close> orders strings lexicographically by unsigned character and returns only 0, -1 and 1; \<open>strncmp\<close>
  compares the first \<open>n\<close> characters; \<open>strcasecmp\<close> returns 0 exactly when the strings agree after lowering
  every character.\<close>

theorem string_comparison:
  assumes "cstring s" and "cstring t"
  shows "strcmp s t = (if s = t then 0 else if (s, t) \<in> lexord {(a, b). uchar a < uchar b} then - 1 else 1)
    \<and> strncmp s t n = strcmp (take n s) (take n t)
    \<and> (strcasecmp s t = 0 \<longleftrightarrow> map (\<lambda>c. tolower (uchar c)) s = map (\<lambda>c. tolower (uchar c)) t)"
  using strcmp_lexord [OF assms] strcasecmp_eq_0 [OF assms] by (simp add: strncmp_take char_less_def)

theorem string_comparison_witness:
  "cstring ''limine'' \<and> cstring ''Limine''
   \<and> strcmp ''limine'' ''Limine'' = 1 \<and> strncmp ''limine'' ''Limine'' 0 = 0
   \<and> strcasecmp ''limine'' ''Limine'' = 0"
proof -
  have c: "cstring ''limine''" "cstring ''Limine''" by simp_all
  have u: "uchar CHR ''l'' = 108" "uchar CHR ''L'' = 76" by (simp_all add: uchar_def)
  have nl: "(''limine'', ''Limine'') \<notin> lexord {(a, b). uchar a < uchar b}" by (simp add: u)
  have low: "map (\<lambda>c. tolower (uchar c)) ''limine'' = map (\<lambda>c. tolower (uchar c)) ''Limine''" by code_simp
  show ?thesis using string_comparison [OF c, of 0] nl low c by (simp add: strcmp_Nil)
qed

text \<open>C28: \<open>strtoui\<close> reads the longest prefix of digits of the base: it returns their value and the rest of the
  text, and the largest 64-bit number when the value does not fit.\<close>

theorem strtoui_value:
  assumes "2 \<le> base" and "base \<le> 16"
  shows "let v = value_from (nat base) 0 (takeWhile (digit_in base) s) in
    unat (fst (strtoui s base)) = min v (2 ^ 64 - 1)
    \<and> (v < 2 ^ 64 \<longrightarrow> snd (strtoui s base) = dropWhile (digit_in base) s)"
  using strtoui_from_value [OF assms, of 0 s] by (simp add: strtoui_def Let_def)

theorem strtoui_value_witness:
  "unat (fst (strtoui ''99999999999999999999;'' 10)) = 2 ^ 64 - 1 \<and> snd (strtoui ''1f:2'' 16) = '':2''"
proof -
  have "value_from 10 0 (takeWhile (digit_in 10) ''99999999999999999999;'') = 99999999999999999999"
    by (simp add: digit_in_def digit_to_int_def schar_literals schar_def uchar_def)
  moreover have "value_from 16 0 (takeWhile (digit_in 16) ''1f:2'') = 31"
    by (simp add: digit_in_def digit_to_int_def schar_literals schar_def uchar_def)
  moreover have "dropWhile (digit_in 16) ''1f:2'' = '':2''" by code_simp
  ultimately show ?thesis
    using strtoui_value [of 10 "''99999999999999999999;''"] strtoui_value [of 16 "''1f:2''"]
    by (simp add: Let_def)
qed

text \<open>C26: \<open>memmove\<close> copies the old contents of the source whatever the overlap of the two blocks, as long as
  neither block wraps around the address space; nothing else changes.\<close>

theorem memmove_copies:
  assumes "unat src + unat n \<le> 2 ^ 64" and "unat dest + unat n \<le> 2 ^ 64"
  shows "memmove f dest src n a = (if a - dest < n then f (src + (a - dest)) else f a)"
proof -
  have n: "unat n \<le> 2 ^ 64" using u64_bound [of n] by simp
  consider "src > dest" | "src < dest" | "src = dest" by (rule linorder_cases)
  then show ?thesis
  proof cases
    case 1
    have "unat n \<le> unat (dest - src)" using assms(1) unat_sub_wrap [OF 1] by simp
    with 1 n show ?thesis by (simp add: memmove_def memcpy_loop_eq word_less_nat_alt)
  next
    case 2
    have "unat n \<le> unat (src - dest)" using assms(2) unat_sub_wrap [OF 2] by simp
    with 2 n show ?thesis by (simp add: memmove_def memmove_down_eq word_less_nat_alt not_less)
  qed (simp add: memmove_def)
qed

theorem memmove_copies_witness:
  "memmove (\<lambda>a. ucast a) 0x1002 0x1000 8 0x1005 = 3"
  using memmove_copies [of "0x1000" 8 "0x1002" "\<lambda>a. ucast a" "0x1005"] by simp

end
