(* ===== verification/Pmm.thy ===== *)
theory Pmm
  imports Sanitise Libc
begin

text \<open>
  The physical memory allocator of \<^verbatim>\<open>common/mm/pmm.s2.c\<close> over the memory map: the global
  state, the top-down allocator, conventional-memory allocation, free and reallocation, the
  start-up construction of the map from the BIOS table and the reclaiming of UEFI memory, with
  the queries of \<^verbatim>\<open>common/mm/pmm.c\<close>. The allocator is modelled as built for x86-64; memory
  contents are a function from addresses to bytes.
\<close>

section \<open>State\<close>

record pmm =
  memmap :: "memmap_entry list"
  memmap_max_entries :: nat
  allocations_disallowed :: bool
  pmm_sanitiser_keep_first_page :: bool
  conv_base :: u64 \<comment> \<open>the static \<^verbatim>\<open>base\<close> of \<^verbatim>\<open>conv_mem_alloc\<close>\<close>
  ram :: "u64 \<Rightarrow> u8"

definition disallowed :: panic where
  "disallowed = Panic False ''Memory allocations disallowed''"

section \<open>Ranges and sanitising on the global map\<close>

definition memmap_alloc_range ::
    "pmm \<Rightarrow> u64 \<Rightarrow> u64 \<Rightarrow> u32 \<Rightarrow> u32 \<Rightarrow> bool \<Rightarrow> bool \<Rightarrow> bool \<Rightarrow> (bool \<times> pmm) res" where
  "memmap_alloc_range st base len ty overlay_type do_panic simulation new_entry =
     bind_res (memmap_alloc_range_in (pmm_sanitiser_keep_first_page st) (memmap_max_entries st)
         (memmap st) base len ty overlay_type do_panic simulation new_entry)
       (\<lambda>(ok, m). Inr (ok, st\<lparr>memmap := m\<rparr>))"

definition sanitise_global :: "bool \<Rightarrow> pmm \<Rightarrow> pmm res" where
  "sanitise_global align st =
     bind_res (pmm_sanitise_entries (pmm_sanitiser_keep_first_page st) align (memmap st))
       (\<lambda>m. Inr (st\<lparr>memmap := m\<rparr>))"

section \<open>Top-down allocation\<close>

text \<open>One turn of the loop over the entries, from the last to the first: the block the entry
  gives below the limit, with the length that is reserved.\<close>

definition try_entry :: "u64 \<Rightarrow> u64 \<Rightarrow> u64 \<Rightarrow> memmap_entry \<Rightarrow> (u64 \<times> u64) option" where
  "try_entry limit alignment cnt e =
     (if me_type e \<noteq> 1 then None
      else
        let entry_base = me_base e;
            entry_top = me_base e + me_length e
        in if entry_top > limit \<and> limit \<le>s entry_base then None
           else
             let entry_top' = (if entry_top > limit then limit else entry_top);
                 alloc_base = ALIGN_DOWN (entry_top' - cnt) alignment
             in if alloc_base <s entry_base then None
                else Some (alloc_base, entry_top' - alloc_base))"

fun scan_entries :: "u64 \<Rightarrow> u64 \<Rightarrow> u64 \<Rightarrow> memmap_entry list \<Rightarrow> nat \<Rightarrow> (u64 \<times> u64) option" where
  "scan_entries limit alignment cnt m 0 = None"
| "scan_entries limit alignment cnt m (Suc i) =
     (case try_entry limit alignment cnt (m ! i) of
        Some r \<Rightarrow> Some r
      | None \<Rightarrow> scan_entries limit alignment cnt m i)"

definition take_block :: "pmm \<Rightarrow> u32 \<Rightarrow> u64 \<Rightarrow> u64 \<times> u64 \<Rightarrow> (u64 \<times> pmm) res" where
  "take_block st ty cnt r =
     (case r of (alloc_base, aligned_length) \<Rightarrow>
        bind_res (memmap_alloc_range st alloc_base aligned_length ty MEMMAP_USABLE True False False)
          (\<lambda>(_, st1).
             let st2 = st1\<lparr>ram := mem_set alloc_base 0 cnt (ram st1)\<rparr>
             in bind_res (sanitise_global False st2) (\<lambda>st3. Inr (alloc_base, st3))))"

definition ext_mem_alloc_type_aligned_mode ::
    "pmm \<Rightarrow> u64 \<Rightarrow> u32 \<Rightarrow> u64 \<Rightarrow> bool \<Rightarrow> (u64 \<times> pmm) res" where
  "ext_mem_alloc_type_aligned_mode st count0 ty alignment allow_high_allocs =
     (let cnt = ALIGN_UP count0 alignment;
          m = memmap st
      in if allocations_disallowed st then Inl disallowed
         else
           (case scan_entries 0x100000000 alignment cnt m (length m) of
              Some r \<Rightarrow> take_block st ty cnt r
            | None \<Rightarrow>
                if allow_high_allocs then
                  (case scan_entries (- 1) alignment cnt m (length m) of
                     Some r \<Rightarrow> take_block st ty cnt r
                   | None \<Rightarrow> Inl (Panic False ''High memory allocator: Out of memory''))
                else Inl (Panic False ''High memory allocator: Out of memory'')))"

definition ext_mem_alloc_type_aligned :: "pmm \<Rightarrow> u64 \<Rightarrow> u32 \<Rightarrow> u64 \<Rightarrow> (u64 \<times> pmm) res" where
  "ext_mem_alloc_type_aligned st cnt ty alignment =
     ext_mem_alloc_type_aligned_mode st cnt ty alignment False"

definition ext_mem_alloc_type :: "pmm \<Rightarrow> u64 \<Rightarrow> u32 \<Rightarrow> (u64 \<times> pmm) res" where
  "ext_mem_alloc_type st cnt ty = ext_mem_alloc_type_aligned st cnt ty 4096"

definition ext_mem_alloc :: "pmm \<Rightarrow> u64 \<Rightarrow> (u64 \<times> pmm) res" where
  "ext_mem_alloc st cnt = ext_mem_alloc_type st cnt MEMMAP_BOOTLOADER_RECLAIMABLE"

definition pmm_free :: "pmm \<Rightarrow> u64 \<Rightarrow> u64 \<Rightarrow> pmm res" where
  "pmm_free st ptr count0 =
     (let cnt = ALIGN_UP count0 4096
      in if allocations_disallowed st then Inl disallowed
         else bind_res (memmap_alloc_range st ptr cnt MEMMAP_USABLE 0 False False True)
                (\<lambda>(_, st1). Inr st1))"

definition pmm_realloc :: "pmm \<Rightarrow> u64 \<Rightarrow> u64 \<Rightarrow> u64 \<Rightarrow> (u64 \<times> pmm) res" where
  "pmm_realloc st old_ptr old_size new_size =
     (if new_size = 0 then
        (if old_ptr \<noteq> 0 then bind_res (pmm_free st old_ptr old_size) (\<lambda>st1. Inr (0, st1))
         else Inr (0, st))
      else if old_ptr = 0 then ext_mem_alloc st new_size
      else
        bind_res (ext_mem_alloc st new_size)
          (\<lambda>(new_ptr, st1).
             let st2 = st1\<lparr>ram := mem_copy new_ptr old_ptr (min new_size old_size) (ram st1)\<rparr>
             in bind_res (pmm_free st2 old_ptr old_size) (\<lambda>st3. Inr (new_ptr, st3))))"

section \<open>Conventional memory\<close>

lemma conv_step_less:
  fixes b c :: u64
  assumes "\<not> 0x100000 < b + c"
  shows "0x100001 - unat (b + 4096 + c) < 0x100001 - unat (b + c)"
proof -
  have "unat (b + c) \<le> 0x100000" using assms by (simp add: word_less_nat_alt)
  then have "unat (b + c + 4096) = unat (b + c) + 4096" by (subst unat_add_nowrap) simp_all
  moreover have "b + 4096 + c = b + c + 4096" by simp
  ultimately show ?thesis using \<open>unat (b + c) \<le> 0x100000\<close> by (simp only:)
qed

text \<open>The search loop of \<^verbatim>\<open>conv_mem_alloc\<close>; \<open>base\<close> keeps its last value between calls.\<close>

function conv_search :: "pmm \<Rightarrow> u64 \<Rightarrow> (u64 \<times> pmm) res" where
  "conv_search st cnt =
     (let base = conv_base st in
      if base + cnt > 0x100000 then Inl (Panic False ''Conventional memory allocation failed'')
      else
        (case memmap_alloc_range st base cnt MEMMAP_BOOTLOADER_RECLAIMABLE MEMMAP_USABLE
                False False False of
           Inl e \<Rightarrow> Inl e
         | Inr (ok, st1) \<Rightarrow>
             if ok then
               let st2 = st1\<lparr>ram := mem_set base 0 cnt (ram st1), conv_base := base + cnt\<rparr>
               in bind_res (sanitise_global False st2) (\<lambda>st3. Inr (base, st3))
             else conv_search (st1\<lparr>conv_base := base + 4096\<rparr>) cnt))"
  by pat_completeness auto

termination
  by (relation "measure (\<lambda>(st, c). 0x100001 - unat (conv_base st + c))")
    (auto simp del: diff_Suc_eq_diff_pred intro: conv_step_less)

declare conv_search.simps [simp del]

definition conv_mem_alloc :: "pmm \<Rightarrow> u64 \<Rightarrow> (u64 \<times> pmm) res" where
  "conv_mem_alloc st count0 =
     (if allocations_disallowed st then Inl disallowed
      else conv_search st (ALIGN_UP count0 4096))"

section \<open>Building the map at start-up (BIOS)\<close>

text \<open>The loop over the BIOS memory table: usable ranges are cut around the area from the
  extended BIOS data area up to one megabyte.\<close>

fun init_entries ::
    "nat \<Rightarrow> u64 \<Rightarrow> memmap_entry list \<Rightarrow> memmap_entry list \<Rightarrow> memmap_entry list res" where
  "init_entries mx ebda acc [] = Inr acc"
| "init_entries mx ebda acc (e # es) =
     (if length acc = mx then Inl (Panic False ''Memory map exhausted.'')
      else
        let top0 = me_base e + me_length e in
        if me_type e = MEMMAP_USABLE then
          if me_base e \<ge> ebda \<and> me_base e < 0x100000 \<and> top0 \<le> 0x100000
          then init_entries mx ebda acc es
          else
            let e1 = (if me_base e \<ge> ebda \<and> me_base e < 0x100000
                      then e\<lparr>me_length := me_length e - (0x100000 - me_base e),
                             me_base := 0x100000\<rparr>
                      else e);
                e2 = (if top0 > ebda \<and> top0 \<le> 0x100000
                      then e1\<lparr>me_length := me_length e1 - (top0 - ebda)\<rparr>
                      else e1)
            in init_entries mx ebda (acc @ [e2]) es
        else init_entries mx ebda (acc @ [e]) es)"

definition init_memmap :: "pmm \<Rightarrow> u64 \<Rightarrow> u32 \<Rightarrow> memmap_entry list \<Rightarrow> pmm res" where
  "init_memmap st ebda bss_end e820_map =
     bind_res (init_entries (memmap_max_entries st) ebda (memmap st) e820_map)
       (\<lambda>m. bind_res (sanitise_global False (st\<lparr>memmap := m\<rparr>))
         (\<lambda>st1. bind_res (memmap_alloc_range st1 4096 (ucast (ALIGN_UP bss_end 4096 - 4096))
                   MEMMAP_BOOTLOADER_RECLAIMABLE 0 True False False)
           (\<lambda>(_, st2). bind_res (sanitise_global False st2)
             (\<lambda>st3. Inr (st3\<lparr>allocations_disallowed := False\<rparr>)))))"

definition get_memmap_bios :: "pmm \<Rightarrow> (memmap_entry list \<times> pmm) res" where
  "get_memmap_bios st =
     bind_res (sanitise_global True st)
       (\<lambda>st1. Inr (memmap st1, st1\<lparr>allocations_disallowed := True\<rparr>))"

section \<open>Queries\<close>

definition full_overlap_check :: "u64 \<Rightarrow> u64 \<Rightarrow> u64 \<Rightarrow> u64 \<Rightarrow> bool" where
  "full_overlap_check base1 top1 base2 top2 \<longleftrightarrow>
     (base1 \<ge> base2 \<and> base1 < top2) \<and> (top1 > base2 \<and> top1 \<le> top2)"

datatype firmware = BIOS | UEFI

definition is_ram_type :: "firmware \<Rightarrow> u32 \<Rightarrow> bool" where
  "is_ram_type fw t \<longleftrightarrow> \<not> (t \<noteq> MEMMAP_USABLE
     \<and> (fw = UEFI \<longrightarrow> t \<noteq> MEMMAP_EFI_RECLAIMABLE)
     \<and> t \<noteq> MEMMAP_BOOTLOADER_RECLAIMABLE \<and> t \<noteq> MEMMAP_KERNEL_AND_MODULES)"

fun usable_scan :: "firmware \<Rightarrow> u64 \<Rightarrow> u64 \<Rightarrow> u64 \<Rightarrow> memmap_entry list \<Rightarrow> bool" where
  "usable_scan fw base top0 overlap_remaining [] = False"
| "usable_scan fw base top0 overlap_remaining (e # es) =
     (if \<not> is_ram_type fw (me_type e) then usable_scan fw base top0 overlap_remaining es
      else
        let memmap_top = me_base e + me_length e in
        if full_overlap_check base top0 (me_base e) memmap_top then True
        else if me_base e < top0 \<and> memmap_top > base then
          let overlap_bottom = (if me_base e > base then me_base e else base);
              overlap_top = (if memmap_top < top0 then memmap_top else top0);
              remaining = overlap_remaining - (overlap_top - overlap_bottom)
          in if remaining = 0 then True else usable_scan fw base top0 remaining es
        else usable_scan fw base top0 overlap_remaining es)"

definition check_usable_memory :: "firmware \<Rightarrow> memmap_entry list \<Rightarrow> u64 \<Rightarrow> u64 \<Rightarrow> bool" where
  "check_usable_memory fw m base top0 = usable_scan fw base top0 (top0 - base) m"

text \<open>\<^verbatim>\<open>mmap_get_info\<close>: one pass extends both frontiers over the usable entries; passes repeat
  while one of them makes progress.\<close>

fun info_pass :: "memmap_entry list \<Rightarrow> u64 \<Rightarrow> u64 \<Rightarrow> bool \<Rightarrow> u64 \<times> u64 \<times> bool" where
  "info_pass [] lower_end upper_end progress = (lower_end, upper_end, progress)"
| "info_pass (e # es) lower_end upper_end progress =
     (if me_type e \<noteq> MEMMAP_USABLE then info_pass es lower_end upper_end progress
      else
        let base = me_base e;
            top0 = base + me_length e;
            lo = base \<le> lower_end \<and> top0 > lower_end;
            hi = base \<le> upper_end \<and> top0 > upper_end
        in info_pass es (if lo then top0 else lower_end) (if hi then top0 else upper_end)
             (progress \<or> lo \<or> hi))"

lemma info_pass_mono:
  assumes "info_pass m l u p = (l', u', p')"
  shows "l \<le> l' \<and> u \<le> u' \<and> (p' \<longrightarrow> p \<or> l < l' \<or> u < u')"
  using assms
proof (induction m arbitrary: l u p)
  case (Cons e es)
  show ?case
  proof (cases "me_type e = MEMMAP_USABLE")
    case False
    with Cons show ?thesis by simp
  next
    case True
    let ?lo = "me_base e \<le> l \<and> me_top e > l" and ?hi = "me_base e \<le> u \<and> me_top e > u"
    from True Cons.prems have "info_pass es (if ?lo then me_top e else l) (if ?hi then me_top e else u)
        (p \<or> ?lo \<or> ?hi) = (l', u', p')" by (simp add: Let_def)
    from Cons.IH [OF this] show ?thesis by (auto split: if_splits)
  qed
qed simp

function info_loop :: "memmap_entry list \<Rightarrow> u64 \<Rightarrow> u64 \<Rightarrow> u64 \<times> u64" where
  "info_loop m lower_end upper_end =
     (case info_pass m lower_end upper_end False of
        (l, u, progress) \<Rightarrow> if progress then info_loop m l u else (l, u))"
  by pat_completeness auto
termination
proof (relation "measure (\<lambda>(m, l, u). (2 ^ 64 - unat l) + (2 ^ 64 - unat u))", goal_cases)
  case (2 m l u x y xa ya)
  then have "info_pass m l u False = (x, xa, True)" by simp
  from info_pass_mono [OF this] have "unat l \<le> unat x" "unat u \<le> unat xa"
    "unat l < unat x \<or> unat u < unat xa" by (simp_all add: word_le_nat_alt word_less_nat_alt)
  moreover have "unat x < 2 ^ 64" "unat xa < 2 ^ 64" using unsigned_less [of x] unsigned_less [of xa] by simp_all
  ultimately show ?case by (simp only: in_measure case_prod_conv) linarith
qed simp

declare info_loop.simps [simp del]

record meminfo =
  uppermem :: u64
  lowermem :: u64

definition mmap_get_info :: "memmap_entry list \<Rightarrow> meminfo" where
  "mmap_get_info m =
     (case info_loop m 0 0x100000 of
        (lower_end, upper_end) \<Rightarrow>
          \<lparr>uppermem = upper_end - 0x100000,
           lowermem = (if lower_end > 0x100000 then 0x100000 else lower_end)\<rparr>)"

section \<open>The effect of a range on the abstract map\<close>

lemma memmap_alloc_range_in_cases:
  assumes "memmap_alloc_range_in keep mx m base len ty ov dp False ne = Inr (ok, m')" and "len \<noteq> 0"
  obtains (refused) "\<not> ok" "m' = m"
  | (added) m1 where "ok" "pmm_new_entry mx m base len ty = Inr (True, m1)"
      "pmm_sanitise_entries keep False m1 = Inr m'"
      "\<not> ne \<Longrightarrow> list_ex (range_in_entry base (base + len) ov) m"
  using assms
  by (auto simp: memmap_alloc_range_in_def builtin_add_overflow_order Let_def split: if_splits prod.splits
      dest: pmm_new_entry_mset(1))

definition low_clean :: "bool \<Rightarrow> memmap_entry list \<Rightarrow> bool" where
  "low_clean keep m \<longleftrightarrow> (\<forall>a. low_types keep a (types_at m a) = types_at m a)"

lemma low_types_idem [simp]: "low_types keep a (low_types keep a T) = low_types keep a T"
  by (simp add: low_types_def filter_filter_mset)

lemma memmap_alloc_range_in_types:
  assumes "memmap_alloc_range_in keep mx m base len ty ov dp False ne = Inr (True, m')"
    and "len \<noteq> 0" and "wf_map m"
  shows "types_at m' a =
      low_types keep a (if base \<le> a \<and> a < base + len then {#ty#} else types_at m a)"
    and "wf_map m'" and "low_clean keep m'" and "sorted (map me_base m')"
proof -
  from memmap_alloc_range_in_cases [OF assms(1,2)] obtain m1
    where new: "pmm_new_entry mx m base len ty = Inr (True, m1)"
      and san: "pmm_sanitise_entries keep False m1 = Inr m'" by metis
  have wf1: "wf_map m1" using pmm_new_entry_wf [OF new assms(3)] assms(2) by (simp add: word_gt_0)
  from pmm_sanitise_wf [OF wf1, of keep] san
  have *: "wf_map m'" "\<And>a. types_at m' a = low_types keep a (types_at m1 a)" "sorted (map me_base m')"
    by (metis sum.inject(2))+
  then show "wf_map m'" "sorted (map me_base m')" by blast+
  show "low_clean keep m'" by (simp add: low_clean_def *(2))
  show "types_at m' a =
      low_types keep a (if base \<le> a \<and> a < base + len then {#ty#} else types_at m a)"
    by (simp add: *(2) pmm_new_entry_types [OF new])
qed

lemma range_in_entry_usable:
  assumes "list_ex (range_in_entry base (base + len) MEMMAP_USABLE) m" and "wf_map m"
    and "base \<le> a" and "a < base + len"
  shows "types_at m a = {#MEMMAP_USABLE#}"
proof -
  from assms(1) obtain e where e: "e \<in> set m" "range_in_entry base (base + len) MEMMAP_USABLE e"
    by (auto simp: list_ex_iff)
  then have "in_entry a e" "me_type e = MEMMAP_USABLE"
    using assms(3,4) by (auto simp: range_in_entry_def in_entry_def memmap_type_defs
        builtin_add_overflow_order split: if_splits)
  with e(1) have "MEMMAP_USABLE \<in># types_at m a" by (force simp: types_of_def)
  moreover have "size (types_at m a) \<le> 1" using assms(2) by (simp add: wf_map_def)
  ultimately show ?thesis by (auto dest!: multi_member_split)
qed

section \<open>The top-down allocator\<close>

definition block_top :: "u64 \<Rightarrow> memmap_entry \<Rightarrow> nat" where
  "block_top limit e = min (unat (me_top e)) (unat limit)"

lemma try_entry_spec:
  assumes "wf_entry e" and "me_type e = MEMMAP_USABLE" and top: "unat (me_top e) \<le> 2 ^ 63"
    and lim: "limit = 0x100000000 \<or> limit = - 1"
    and small: "0 < unat al" "0 < unat cnt" "unat al + unat cnt < 2 ^ 62"
  defines "T \<equiv> block_top limit e"
  shows "try_entry limit al cnt e =
    (if unat (me_base e) + unat cnt \<le> T \<and> unat (me_base e) \<le> (T - unat cnt) div unat al * unat al
     then Some (of_nat ((T - unat cnt) div unat al * unat al),
                of_nat (T - (T - unat cnt) div unat al * unat al))
     else None)"
proof -
  let ?B = "unat (me_base e)" and ?C = "unat cnt" and ?A = "unat al"
  let ?q = "(T - ?C) div ?A * ?A"
  define tw where "tw = (if limit < me_top e then limit else me_top e)"
  have tw: "unat tw = T" by (auto simp: tw_def T_def block_top_def min_def word_less_nat_alt)
  have B: "?B < 2 ^ 63" using assms(1) top by (simp add: wf_entry_def word_less_nat_alt)
  have T: "T \<le> 2 ^ 63" using top by (simp add: T_def block_top_def)
  have eq: "try_entry limit al cnt e =
     (if limit < me_top e \<and> limit \<le>s me_base e then None
      else if ALIGN_DOWN (tw - cnt) al <s me_base e then None
      else Some (ALIGN_DOWN (tw - cnt) al, tw - ALIGN_DOWN (tw - cnt) al))"
    using assms(2) by (simp add: try_entry_def Let_def tw_def MEMMAP_USABLE_def)
  have above: "\<not> ?B + ?C \<le> T" if "limit < me_top e" "limit \<le>s me_base e"
  proof -
    from that(1) lim have l: "limit = 0x100000000" by auto
    with that(2) B have "0x100000000 \<le> ?B" by (simp add: signed_order_small)
    with small(2) l show ?thesis by (simp add: T_def block_top_def)
  qed
  show ?thesis
  proof (cases "?C \<le> T")
    case True
    then have "cnt \<le> tw" using tw by (simp add: word_le_nat_alt)
    then have "unat (tw - cnt) = T - ?C" using tw by (simp add: unat_sub_nowrap)
    then have ab: "unat (ALIGN_DOWN (tw - cnt) al) = ?q" by (simp add: unat_ALIGN_DOWN)
    have q: "?q \<le> T - ?C" by (rule div_times_less_eq_dividend)
    then have "?q < 2 ^ 63" using T True small(2) by linarith
    then have less: "ALIGN_DOWN (tw - cnt) al <s me_base e \<longleftrightarrow> ?q < ?B"
      using B ab by (subst signed_order_small) simp_all
    have "ALIGN_DOWN (tw - cnt) al \<le> tw" unfolding word_le_nat_alt ab tw using q by linarith
    then have l: "unat (tw - ALIGN_DOWN (tw - cnt) al) = T - ?q"
      using tw ab by (simp only: unat_sub_nowrap)
    have "of_nat (unat (ALIGN_DOWN (tw - cnt) al)) = ALIGN_DOWN (tw - cnt) al"
      "of_nat (unat (tw - ALIGN_DOWN (tw - cnt) al)) = tw - ALIGN_DOWN (tw - cnt) al" by simp_all
    then have "ALIGN_DOWN (tw - cnt) al = of_nat ?q" "tw - ALIGN_DOWN (tw - cnt) al = of_nat (T - ?q)"
      unfolding ab l by simp_all
    moreover have "?B \<le> ?q \<Longrightarrow> ?B + ?C \<le> T" using q True by linarith
    ultimately show ?thesis using above less unfolding eq by auto
  next
    case False
    then have "tw < cnt" using tw by (simp add: word_less_nat_alt)
    then have "unat (tw - cnt) = 2 ^ 64 + T - ?C" using tw by (simp add: unat_sub_wrap)
    moreover have "unat (tw - cnt) < unat (ALIGN_DOWN (tw - cnt) al) + ?A"
      by (rule ALIGN_DOWN_gt [OF small(1)])
    ultimately have "2 ^ 63 \<le> unat (ALIGN_DOWN (tw - cnt) al)" using small(3) by simp
    then have "ALIGN_DOWN (tw - cnt) al <s me_base e" using B by (rule signed_less_negative)
    then show ?thesis using False unfolding eq by auto
  qed
qed

lemma scan_entries_Some:
  "scan_entries limit al cnt m n = Some r \<Longrightarrow> \<exists>i < n. try_entry limit al cnt (m ! i) = Some r"
  by (induction n) (auto simp: less_Suc_eq split: option.splits)

lemma scan_entries_None:
  "scan_entries limit al cnt m n = None \<longleftrightarrow> (\<forall>i < n. try_entry limit al cnt (m ! i) = None)"
  by (induction n) (auto simp: less_Suc_eq split: option.splits)

text \<open>The invariant of the allocator state: a well-formed map, cleaned below the first page as
  configured, with nothing in the upper half of the address space (addresses are compared as
  signed numbers).\<close>

definition pmm_inv :: "pmm \<Rightarrow> bool" where
  "pmm_inv st \<longleftrightarrow> wf_map (memmap st)
     \<and> low_clean (pmm_sanitiser_keep_first_page st) (memmap st)
     \<and> (\<forall>a. 2 ^ 63 \<le> unat a \<longrightarrow> types_at (memmap st) a = {#})"

lemma pmm_inv_top:
  assumes "pmm_inv st" and "e \<in> set (memmap st)"
  shows "wf_entry e" and "unat (me_top e) \<le> 2 ^ 63"
proof -
  show wf: "wf_entry e" using assms by (simp add: pmm_inv_def wf_map_def)
  have t: "unat (me_top e - 1) = unat (me_top e) - 1"
    by (rule unat_minus_one) (use wf in \<open>auto simp: wf_entry_def\<close>)
  have pos: "unat (me_base e) < unat (me_top e)" using wf by (simp add: wf_entry_def word_less_nat_alt)
  then have "in_entry (me_top e - 1) e"
    unfolding in_entry_def word_le_nat_alt word_less_nat_alt t by linarith
  with assms(2) have "types_at (memmap st) (me_top e - 1) \<noteq> {#}"
    by (auto simp: types_of_def filter_mset_eq_mempty_iff)
  with assms(1) have "unat (me_top e - 1) < 2 ^ 63" by (auto simp: pmm_inv_def simp flip: not_le)
  with t pos show "unat (me_top e) \<le> 2 ^ 63" by linarith
qed

lemma sanitise_global_clean:
  assumes "sanitise_global False st = Inr st'" and "wf_map (memmap st)"
    and "low_clean (pmm_sanitiser_keep_first_page st) (memmap st)"
  shows "wf_map (memmap st')" and "types_at (memmap st') a = types_at (memmap st) a"
    and "st' = st\<lparr>memmap := memmap st'\<rparr>"
proof -
  from assms(1) obtain m where m: "pmm_sanitise_entries (pmm_sanitiser_keep_first_page st) False (memmap st) = Inr m"
    and st': "st' = st\<lparr>memmap := m\<rparr>" by (auto simp: sanitise_global_def)
  from pmm_sanitise_wf [OF assms(2), of "pmm_sanitiser_keep_first_page st"] m
  have "wf_map m" "\<And>a. types_at m a = low_types (pmm_sanitiser_keep_first_page st) a (types_at (memmap st) a)"
    by (metis sum.inject(2))+
  with assms(3) show "wf_map (memmap st')" "types_at (memmap st') a = types_at (memmap st) a"
    "st' = st\<lparr>memmap := memmap st'\<rparr>" by (simp_all add: st' low_clean_def)
qed

text \<open>What an allocation did to the state.\<close>

definition allocated :: "pmm \<Rightarrow> u32 \<Rightarrow> u64 \<Rightarrow> u64 \<Rightarrow> u64 \<Rightarrow> pmm \<Rightarrow> bool" where
  "allocated st ty p len zeroed st' \<longleftrightarrow>
     p \<le> p + len
     \<and> (\<forall>a. p \<le> a \<and> a < p + len \<longrightarrow> types_at (memmap st) a = {#MEMMAP_USABLE#})
     \<and> (\<forall>a. types_at (memmap st') a =
          (if p \<le> a \<and> a < p + len then {#ty#} else types_at (memmap st) a))
     \<and> st' = st\<lparr>memmap := memmap st', ram := mem_set p 0 zeroed (ram st)\<rparr>"

lemma low_clean_usable:
  assumes "low_clean keep m" and "types_at m a = {#MEMMAP_USABLE#}"
  shows "low_types keep a T = T"
proof -
  have "low_types keep a {#MEMMAP_USABLE#} = {#MEMMAP_USABLE#}"
    using assms by (metis low_clean_def)
  then have "keep \<or> 0x1000 \<le> a" by (auto simp: low_types_def split: if_splits)
  then show ?thesis by (simp add: low_types_def)
qed

text \<open>Reserving a range of a usable entry and sanitising again, the core of every allocation.\<close>

lemma reserve_sound:
  assumes "pmm_inv st" and "l \<noteq> 0"
    and al: "memmap_alloc_range_in (pmm_sanitiser_keep_first_page st) (memmap_max_entries st)
      (memmap st) b l ty MEMMAP_USABLE dp False False = Inr (True, m1)"
    and st2: "memmap st2 = m1" "pmm_sanitiser_keep_first_page st2 = pmm_sanitiser_keep_first_page st"
    and san: "sanitise_global False st2 = Inr st'"
  shows "b \<le> b + l" and "\<And>a. b \<le> a \<Longrightarrow> a < b + l \<Longrightarrow> types_at (memmap st) a = {#MEMMAP_USABLE#}"
    and "\<And>a. types_at (memmap st') a = (if b \<le> a \<and> a < b + l then {#ty#} else types_at (memmap st) a)"
    and "st' = st2\<lparr>memmap := memmap st'\<rparr>" and "pmm_inv st'"
proof -
  let ?keep = "pmm_sanitiser_keep_first_page st"
  have ex: "list_ex (range_in_entry b (b + l) MEMMAP_USABLE) (memmap st)" and le: "b \<le> b + l"
    using al assms(2) by (auto simp: memmap_alloc_range_in_def Let_def builtin_add_overflow_order
        split: if_splits)
  from assms(1) have wf: "wf_map (memmap st)" and low: "low_clean ?keep (memmap st)"
    by (simp_all add: pmm_inv_def)
  note ty = memmap_alloc_range_in_types [OF al assms(2) wf]
  note us = range_in_entry_usable [OF ex wf]
  note san' = sanitise_global_clean [OF san, unfolded st2, OF ty(2,3)]
  show types: "types_at (memmap st') a =
      (if b \<le> a \<and> a < b + l then {#ty#} else types_at (memmap st) a)" for a
    using low_clean_usable [OF low us] low by (simp add: san'(2) ty(1) low_clean_def)
  show "st' = st2\<lparr>memmap := memmap st'\<rparr>" by (rule san'(3))
  show "b \<le> b + l" by (rule le)
  show "types_at (memmap st) a = {#MEMMAP_USABLE#}" if "b \<le> a" "a < b + l" for a
    using that by (rule us)
  have "types_at (memmap st') a = {#}" if "2 ^ 63 \<le> unat a" for a
  proof -
    have "types_at (memmap st) a = {#}" using assms(1) that by (simp add: pmm_inv_def)
    with us [of a] types show ?thesis by auto
  qed
  moreover have "low_clean ?keep (memmap st')" using ty(3) by (simp add: low_clean_def san'(2))
  moreover have "pmm_sanitiser_keep_first_page st' = ?keep" by (subst san'(3)) (simp add: st2)
  ultimately show "pmm_inv st'" using san'(1) by (simp add: pmm_inv_def)
qed

lemma take_block_sound:
  assumes "pmm_inv st" and "take_block st ty cnt (b, l) = Inr (p, st')" and "l \<noteq> 0"
  shows "p = b" and "allocated st ty b l cnt st'" and "pmm_inv st'"
proof -
  from assms(2) obtain ok m1 st2 where al: "memmap_alloc_range_in (pmm_sanitiser_keep_first_page st)
      (memmap_max_entries st) (memmap st) b l ty MEMMAP_USABLE True False False = Inr (ok, m1)"
    and st2: "st2 = st\<lparr>memmap := m1, ram := mem_set b 0 cnt (ram st)\<rparr>"
    and san: "sanitise_global False st2 = Inr st'" and "p = b"
    by (auto simp: take_block_def memmap_alloc_range_def Let_def)
  then show "p = b" by simp
  from al assms(3) have "ok"
    by (auto simp: memmap_alloc_range_in_def Let_def builtin_add_overflow_order
        split: if_splits dest: pmm_new_entry_mset(1))
  with al have al': "memmap_alloc_range_in (pmm_sanitiser_keep_first_page st)
      (memmap_max_entries st) (memmap st) b l ty MEMMAP_USABLE True False False = Inr (True, m1)" by simp
  have "memmap st2 = m1" "pmm_sanitiser_keep_first_page st2 = pmm_sanitiser_keep_first_page st"
    by (simp_all add: st2)
  note res = reserve_sound [OF assms(1,3) al' this san]
  have "st' = st\<lparr>memmap := memmap st', ram := mem_set b 0 cnt (ram st)\<rparr>"
    by (subst res(4)) (simp add: st2)
  with res(1-3) show "allocated st ty b l cnt st'" by (simp add: allocated_def)
  show "pmm_inv st'" by (rule res(5))
qed

lemma conv_search_step:
  assumes "\<not> 0x100000 < conv_base st + cnt"
  shows "conv_search st cnt =
    bind_res (memmap_alloc_range_in (pmm_sanitiser_keep_first_page st) (memmap_max_entries st)
        (memmap st) (conv_base st) cnt MEMMAP_BOOTLOADER_RECLAIMABLE MEMMAP_USABLE False False False)
      (\<lambda>(ok, m). if ok
         then bind_res (sanitise_global False (st\<lparr>memmap := m,
                  ram := mem_set (conv_base st) 0 cnt (ram st), conv_base := conv_base st + cnt\<rparr>))
                (\<lambda>st3. Inr (conv_base st, st3))
         else conv_search (st\<lparr>memmap := m, conv_base := conv_base st + 4096\<rparr>) cnt)"
  using assms by (subst conv_search.simps)
    (simp add: Let_def memmap_alloc_range_def bind_res_def split: sum.splits prod.splits)

lemma conv_search_cases:
  assumes "conv_search st cnt = Inr (p, st')" and "cnt \<noteq> 0"
  obtains (taken) m1 where "\<not> 0x100000 < conv_base st + cnt" and "p = conv_base st"
      and "memmap_alloc_range_in (pmm_sanitiser_keep_first_page st) (memmap_max_entries st) (memmap st)
        p cnt MEMMAP_BOOTLOADER_RECLAIMABLE MEMMAP_USABLE False False False = Inr (True, m1)"
      and "sanitise_global False (st\<lparr>memmap := m1, ram := mem_set p 0 cnt (ram st),
        conv_base := p + cnt\<rparr>) = Inr st'"
  | (moved_on) "\<not> 0x100000 < conv_base st + cnt"
      and "memmap_alloc_range st (conv_base st) cnt MEMMAP_BOOTLOADER_RECLAIMABLE MEMMAP_USABLE
        False False False = Inr (False, st)"
      and "conv_search (st\<lparr>conv_base := conv_base st + 4096\<rparr>) cnt = Inr (p, st')"
proof -
  have lim: "\<not> 0x100000 < conv_base st + cnt"
    using assms(1) by (subst (asm) conv_search.simps) (auto simp: Let_def)
  from assms(1) obtain ok m where al: "memmap_alloc_range_in (pmm_sanitiser_keep_first_page st)
      (memmap_max_entries st) (memmap st) (conv_base st) cnt MEMMAP_BOOTLOADER_RECLAIMABLE
      MEMMAP_USABLE False False False = Inr (ok, m)"
    by (auto simp: conv_search_step [OF lim])
  show ?thesis
  proof (cases ok)
    case True
    with assms(1) al lim show ?thesis by (intro taken [of m]) (auto simp: conv_search_step)
  next
    case False
    from al False assms(2) have "m = memmap st" by (auto elim: memmap_alloc_range_in_cases)
    with assms(1) al lim False show ?thesis
      by (intro moved_on) (simp_all add: conv_search_step memmap_alloc_range_def)
  qed
qed

lemma allocated_conv_base:
  assumes "allocated (st\<lparr>conv_base := c\<rparr>) ty p l z (st'\<lparr>conv_base := c\<rparr>)"
  shows "allocated st ty p l z (st'\<lparr>conv_base := conv_base st\<rparr>)"
proof -
  from assms have "st'\<lparr>conv_base := c\<rparr> = st\<lparr>conv_base := c\<rparr>\<lparr>memmap := memmap st',
      ram := mem_set p 0 z (ram st)\<rparr>" by (simp add: allocated_def)
  from arg_cong [OF this, of "\<lambda>s. s\<lparr>conv_base := conv_base st\<rparr>"] assms
  show ?thesis by (simp add: allocated_def)
qed

lemma conv_search_sound:
  assumes "conv_search st cnt = Inr (p, st')" and "pmm_inv st" and "cnt \<noteq> 0"
  shows "pmm_inv st' \<and> unat p + unat cnt \<le> 0x100000 \<and> conv_base st' = p + cnt
    \<and> (4096 dvd unat (conv_base st) \<longrightarrow> 4096 dvd unat p)
    \<and> allocated st MEMMAP_BOOTLOADER_RECLAIMABLE p cnt cnt (st'\<lparr>conv_base := conv_base st\<rparr>)"
  using assms
proof (induction st cnt rule: conv_search.induct)
  case (1 st cnt)
  from "1.prems"(1,3) show ?case
  proof (cases rule: conv_search_cases)
    case (taken m1)
    let ?st2 = "st\<lparr>memmap := m1, ram := mem_set p 0 cnt (ram st), conv_base := p + cnt\<rparr>"
    have "memmap ?st2 = m1" "pmm_sanitiser_keep_first_page ?st2 = pmm_sanitiser_keep_first_page st"
      by simp_all
    note res = reserve_sound [OF "1.prems"(2,3) taken(3) this taken(4)]
    from res(1) have "unat (p + cnt) = unat p + unat cnt"
      by (metis add_wraps_less linorder_not_less unat_add_nowrap)
    then have "unat p + unat cnt \<le> 0x100000" using taken(1,2) by (simp add: word_less_nat_alt)
    moreover have eq: "st' = st\<lparr>memmap := memmap st', ram := mem_set p 0 cnt (ram st),
        conv_base := p + cnt\<rparr>" by (subst res(4)) simp
    moreover from arg_cong [OF eq, of conv_base] have "conv_base st' = p + cnt" by simp
    moreover from arg_cong [OF eq, of "\<lambda>s. s\<lparr>conv_base := conv_base st\<rparr>"]
    have "st'\<lparr>conv_base := conv_base st\<rparr> = st\<lparr>memmap := memmap st', ram := mem_set p 0 cnt (ram st)\<rparr>"
      by simp
    ultimately show ?thesis using res(1-3,5) taken(2) by (simp add: allocated_def)
  next
    case moved_on
    let ?st1 = "st\<lparr>conv_base := conv_base st + 4096\<rparr>"
    have "pmm_inv ?st1" using "1.prems"(2) by (simp add: pmm_inv_def)
    from "1.IH" [OF refl moved_on(1,2) refl _ moved_on(3) this "1.prems"(3)]
    have ih: "pmm_inv st'" "unat p + unat cnt \<le> 0x100000" "conv_base st' = p + cnt"
      "4096 dvd unat (conv_base st + 4096) \<longrightarrow> 4096 dvd unat p"
      and al: "allocated ?st1 MEMMAP_BOOTLOADER_RECLAIMABLE p cnt cnt
        (st'\<lparr>conv_base := conv_base ?st1\<rparr>)" by simp_all
    have "4096 dvd unat (conv_base st) \<longrightarrow> 4096 dvd unat (conv_base st + 4096)"
      by (simp add: unat_word_ariths dvd_mod_iff)
    with ih allocated_conv_base [of "conv_base st + 4096" st] al show ?thesis by simp
  qed
qed

lemma try_entry_block:
  assumes inv: "wf_entry e" "unat (me_top e) \<le> 2 ^ 63"
    and lim: "limit = 0x100000000 \<or> limit = - 1"
    and small: "0 < unat al" "0 < unat cnt" "unat al + unat cnt < 2 ^ 62"
    and r: "try_entry limit al cnt e = Some (b, l)"
  shows "unat al dvd unat b" and "unat cnt \<le> unat l" and "unat b + unat l = block_top limit e"
    and "me_type e = MEMMAP_USABLE" and "unat (me_base e) \<le> unat b"
    and "unat l < unat cnt + unat al"
proof -
  let ?T = "block_top limit e"
  let ?q = "(?T - unat cnt) div unat al * unat al"
  show ty: "me_type e = MEMMAP_USABLE"
    using r by (simp add: try_entry_def MEMMAP_USABLE_def split: if_splits)
  from r have b: "b = of_nat ?q" "l = of_nat (?T - ?q)"
    and fit: "unat (me_base e) + unat cnt \<le> ?T" "unat (me_base e) \<le> ?q"
    unfolding try_entry_spec [OF inv(1) ty inv(2) lim small] by (auto split: if_splits)
  have q: "?q \<le> ?T - unat cnt" by (rule div_times_less_eq_dividend)
  have T: "?T < 2 ^ 64" using inv(2) by (simp add: block_top_def)
  have ub: "unat b = ?q" unfolding b(1)
    by (rule unat_of_nat_small, rule le_less_trans [OF q]) (use T in simp)
  have ul: "unat l = ?T - ?q" unfolding b(2)
    by (rule unat_of_nat_small) (use T in simp)
  show "unat al dvd unat b" "unat (me_base e) \<le> unat b" unfolding ub using fit(2) by simp_all
  show "unat cnt \<le> unat l" "unat b + unat l = ?T" unfolding ub ul using q fit(1) by linarith+
  have "?T - unat cnt < ?q + unat al" using dividend_less_div_times [OF small(1)] by (simp only: add.commute)
  then show "unat l < unat cnt + unat al" unfolding ul using fit(1) small(1) by linarith
qed

lemma scan_block:
  assumes "pmm_inv st" and lim: "limit = 0x100000000 \<or> limit = - 1"
    and small: "0 < unat al" "0 < unat cnt" "unat al + unat cnt < 2 ^ 62"
    and r: "scan_entries limit al cnt (memmap st) (length (memmap st)) = Some (b, l)"
  shows "unat al dvd unat b" and "unat cnt \<le> unat l" and "unat b + unat l \<le> unat limit"
    and "unat b + unat l \<le> 2 ^ 63" and "unat l < unat cnt + unat al"
    and "list_ex (range_in_entry b (b + l) MEMMAP_USABLE) (memmap st)"
proof -
  from scan_entries_Some [OF r] obtain e where e: "e \<in> set (memmap st)"
    and t: "try_entry limit al cnt e = Some (b, l)" by (meson nth_mem)
  note inv = pmm_inv_top [OF assms(1) e]
  note blk = try_entry_block [OF inv lim small t]
  from blk show "unat al dvd unat b" "unat cnt \<le> unat l" "unat l < unat cnt + unat al" by simp_all
  from blk(3) inv(2) show "unat b + unat l \<le> unat limit" "unat b + unat l \<le> 2 ^ 63"
    by (simp_all add: block_top_def)
  then have bl: "unat (b + l) = unat b + unat l" by (intro unat_add_nowrap) simp
  have "b < b + l" "me_base e \<le> b" "b + l \<le> me_top e"
    using blk(2,3,5) small(2) unfolding word_less_nat_alt word_le_nat_alt bl block_top_def by linarith+
  moreover from this inv(1) have "me_base e \<le> me_top e" "b < me_top e" by order+
  ultimately have "range_in_entry b (b + l) MEMMAP_USABLE e"
    using blk(4) by (simp add: range_in_entry_def builtin_add_overflow_order)
  with e show "list_ex (range_in_entry b (b + l) MEMMAP_USABLE) (memmap st)"
    by (auto simp: list_ex_iff)
qed

lemma align_count:
  fixes cnt al :: u64
  assumes "0 < unat al" and "0 < unat cnt" and "unat cnt + 2 * unat al < 2 ^ 62"
  shows "0 < unat (ALIGN_UP cnt al)" and "unat al + unat (ALIGN_UP cnt al) < 2 ^ 62"
    and "unat cnt \<le> unat (ALIGN_UP cnt al)"
proof -
  have "unat cnt + (unat al - 1) < 2 ^ LENGTH(64)" using assms(3) by simp
  note b = ALIGN_UP_bounds [OF assms(1) this]
  from b(1) show "unat cnt \<le> unat (ALIGN_UP cnt al)" by (simp add: word_le_nat_alt)
  with assms(2) show "0 < unat (ALIGN_UP cnt al)" by linarith
  from b(3) assms(3) show "unat al + unat (ALIGN_UP cnt al) < 2 ^ 62" by linarith
qed

lemma ext_mem_alloc_sound:
  assumes "pmm_inv st" and sz: "0 < unat al" "0 < unat cnt" "unat cnt + 2 * unat al < 2 ^ 62"
    and run: "ext_mem_alloc_type_aligned_mode st cnt ty al high = Inr (p, st')"
  obtains len where "pmm_inv st'" and "allocated st ty p len (ALIGN_UP cnt al) st'"
    and "unat al dvd unat p" and "unat (ALIGN_UP cnt al) \<le> unat len"
    and "unat len < unat (ALIGN_UP cnt al) + unat al" and "unat p + unat len \<le> 2 ^ 63" and "\<not> high \<Longrightarrow> unat p + unat len \<le> 2 ^ 32"
proof -
  let ?c = "ALIGN_UP cnt al" and ?m = "memmap st"
  note c = align_count [OF sz]
  from run obtain limit b l where lim: "limit = 0x100000000 \<or> limit = (- 1 :: u64) \<and> high"
    and scan: "scan_entries limit al ?c ?m (length ?m) = Some (b, l)"
    and tb: "take_block st ty ?c (b, l) = Inr (p, st')"
    by (fastforce simp: ext_mem_alloc_type_aligned_mode_def Let_def split: if_splits option.splits)
  from lim have lim': "limit = 0x100000000 \<or> limit = - 1" by blast
  note blk = scan_block [OF assms(1) lim' sz(1) c(1,2) scan]
  have "l \<noteq> 0" using blk(2) c(1) by auto
  note s = take_block_sound [OF assms(1) tb this]
  from lim blk(3) have "\<not> high \<Longrightarrow> unat p + unat l \<le> 2 ^ 32" unfolding s(1) by auto
  with s blk show ?thesis by (intro that [of l]) simp_all
qed

end
