(* ===== verification/Allocator.thy ===== *)
theory Allocator
  imports Pmm
begin

text \<open>
  What the physical allocator promises: soundness of a block it returns, that it finds a block
  whenever one fits, that freeing undoes an allocation, that reallocation keeps the contents, and
  that the blocks of any sequence of requests are disjoint. The last is proved once for an
  interface of block allocators, which both the top-down allocator and the allocator of
  conventional memory implement.
\<close>

section \<open>Finding a block\<close>

definition room_in :: "nat \<Rightarrow> nat \<Rightarrow> nat \<Rightarrow> memmap_entry \<Rightarrow> bool" where
  "room_in lim al n e \<longleftrightarrow> me_type e = MEMMAP_USABLE
     \<and> (\<exists>q. al dvd q \<and> unat (me_base e) \<le> q \<and> q + n \<le> min (unat (me_top e)) lim)"

lemma try_entry_room:
  assumes inv: "wf_entry e" "unat (me_top e) \<le> 2 ^ 63"
    and lim: "limit = 0x100000000 \<or> limit = - 1"
    and small: "0 < unat al" "0 < unat cnt" "unat al + unat cnt < 2 ^ 62"
  shows "try_entry limit al cnt e \<noteq> None \<longleftrightarrow> room_in (unat limit) (unat al) (unat cnt) e"
proof (cases "me_type e = MEMMAP_USABLE")
  case False
  then show ?thesis by (simp add: try_entry_def room_in_def MEMMAP_USABLE_def)
next
  case True
  let ?T = "block_top limit e" and ?B = "unat (me_base e)"
  let ?q = "(?T - unat cnt) div unat al * unat al"
  have q: "?q \<le> ?T - unat cnt" by (rule div_times_less_eq_dividend)
  have "?B + unat cnt \<le> ?T \<and> ?B \<le> ?q \<longleftrightarrow>
      (\<exists>q. unat al dvd q \<and> ?B \<le> q \<and> q + unat cnt \<le> ?T)"
  proof safe
    assume "?B + unat cnt \<le> ?T" "?B \<le> ?q"
    moreover from this q have "?q + unat cnt \<le> ?T" by linarith
    ultimately show "\<exists>q. unat al dvd q \<and> ?B \<le> q \<and> q + unat cnt \<le> ?T"
      by (intro exI [of _ ?q]) simp
  next
    fix q' assume q': "unat al dvd q'" "?B \<le> q'" "q' + unat cnt \<le> ?T"
    then show "?B + unat cnt \<le> ?T" by linarith
    have "q' div unat al \<le> (?T - unat cnt) div unat al"
      using q'(3) by (intro div_le_mono) linarith
    then have "q' \<le> ?q" using q'(1) by (metis dvd_div_mult_self mult_le_mono1)
    with q'(2) show "?B \<le> ?q" by linarith
  qed
  with True show ?thesis
    by (simp add: try_entry_spec [OF inv(1) True inv(2) lim small] room_in_def block_top_def)
qed

lemma scan_entries_room:
  assumes "pmm_inv st" and "limit = 0x100000000 \<or> limit = - 1"
    and "0 < unat al" "0 < unat cnt" "unat al + unat cnt < 2 ^ 62"
  shows "scan_entries limit al cnt (memmap st) (length (memmap st)) = None \<longleftrightarrow>
    \<not> list_ex (room_in (unat limit) (unat al) (unat cnt)) (memmap st)"
proof -
  have "try_entry limit al cnt e = None \<longleftrightarrow> \<not> room_in (unat limit) (unat al) (unat cnt) e"
    if "e \<in> set (memmap st)" for e
    using try_entry_room [OF pmm_inv_top [OF assms(1) that] assms(2-5)] by blast
  then show ?thesis by (simp add: scan_entries_None list_ex_iff all_set_conv_all_nth)
qed

lemma take_block_succeeds:
  assumes "pmm_inv st" and "length (memmap st) + 2 \<le> memmap_max_entries st" and "b < b + l"
    and ex: "list_ex (range_in_entry b (b + l) MEMMAP_USABLE) (memmap st)"
  shows "\<exists>st'. take_block st ty cnt (b, l) = Inr (b, st')"
proof -
  let ?keep = "pmm_sanitiser_keep_first_page st"
  from assms(1) have wf: "wf_map (memmap st)" by (simp add: pmm_inv_def)
  have l: "l \<noteq> 0" and le: "b \<le> b + l" using assms(3) by auto
  from pmm_new_entry_room [OF wf assms(3,2)] obtain m1
    where new: "pmm_new_entry (memmap_max_entries st) (memmap st) b l ty = Inr (True, m1)" by blast
  have wf1: "wf_map m1" using pmm_new_entry_wf [OF new wf] l by (simp add: word_gt_0)
  from pmm_sanitise_wf [OF wf1, of ?keep] obtain m2
    where m2: "pmm_sanitise_entries ?keep False m1 = Inr m2" "wf_map m2" by metis
  from pmm_sanitise_wf [OF m2(2), of ?keep] obtain m3
    where m3: "pmm_sanitise_entries ?keep False m2 = Inr m3" by metis
  show ?thesis using l le ex new m2(1) m3
    by (simp add: take_block_def memmap_alloc_range_def memmap_alloc_range_in_def Let_def
        builtin_add_overflow_order sanitise_global_def)
qed

lemma scan_take_block:
  assumes "pmm_inv st" and "length (memmap st) + 2 \<le> memmap_max_entries st"
    and "limit = 0x100000000 \<or> limit = - 1"
    and "0 < unat al" "0 < unat cnt" "unat al + unat cnt < 2 ^ 62"
    and r: "scan_entries limit al cnt (memmap st) (length (memmap st)) = Some r"
  shows "\<exists>p st'. take_block st ty cnt r = Inr (p, st')"
proof -
  obtain b l where bl: "r = (b, l)" by fastforce
  note blk = scan_block [OF assms(1,3-6) r [unfolded bl]]
  have "unat (b + l) = unat b + unat l" by (rule unat_add_nowrap) (use blk(4) in simp)
  then have "b < b + l" using blk(2) assms(5) by (simp add: word_less_nat_alt)
  from take_block_succeeds [OF assms(1,2) this blk(6)] bl show ?thesis by blast
qed

lemma room_in_mono: "room_in lim al n e \<Longrightarrow> lim \<le> lim' \<Longrightarrow> room_in lim' al n e"
  unfolding room_in_def by fastforce

lemma room_in_high:
  "unat (me_top e) \<le> 2 ^ 63 \<Longrightarrow> 2 ^ 63 \<le> lim \<Longrightarrow> room_in lim al n e \<longleftrightarrow> room_in (2 ^ 63) al n e"
  by (simp add: room_in_def min_def)

definition out_of_memory :: panic where
  "out_of_memory = Panic False ''High memory allocator: Out of memory''"

lemma alloc_scan:
  assumes "\<not> allocations_disallowed st"
  shows "ext_mem_alloc_type_aligned_mode st cnt ty al high =
    (case scan_entries 0x100000000 al (ALIGN_UP cnt al) (memmap st) (length (memmap st)) of
       Some r \<Rightarrow> take_block st ty (ALIGN_UP cnt al) r
     | None \<Rightarrow>
         (case (if high then scan_entries (- 1) al (ALIGN_UP cnt al) (memmap st) (length (memmap st))
                else None) of
            Some r \<Rightarrow> take_block st ty (ALIGN_UP cnt al) r
          | None \<Rightarrow> Inl out_of_memory))"
  using assms by (simp add: ext_mem_alloc_type_aligned_mode_def Let_def out_of_memory_def split: option.split)

lemma room_limit: "(2 ^ 63 :: nat) \<le> 0xffffffffffffffff"
  by simp

lemma ext_mem_alloc_finds:
  assumes "pmm_inv st" and "0 < unat al" "0 < unat cnt" "unat cnt + 2 * unat al < 2 ^ 62"
    and "\<not> allocations_disallowed st" and "length (memmap st) + 2 \<le> memmap_max_entries st"
    and room: "list_ex (room_in (if high then 2 ^ 63 else 2 ^ 32) (unat al) (unat (ALIGN_UP cnt al)))
      (memmap st)"
  shows "\<exists>p st'. ext_mem_alloc_type_aligned_mode st cnt ty al high = Inr (p, st')"
proof -
  let ?scan = "\<lambda>limit. scan_entries limit al (ALIGN_UP cnt al) (memmap st) (length (memmap st))"
  note c = align_count [OF assms(2-4)]
  note take = scan_take_block [OF assms(1,6) _ assms(2) c(1,2)]
  show ?thesis
  proof (cases "?scan 0x100000000")
    case (Some r)
    with take [OF _ this] show ?thesis by (simp add: alloc_scan [OF assms(5)])
  next
    case None
    then have "\<not> list_ex (room_in (2 ^ 32) (unat al) (unat (ALIGN_UP cnt al))) (memmap st)"
      by (simp add: scan_entries_room [OF assms(1) _ assms(2) c(1,2)])
    with room have high and "list_ex (room_in (2 ^ 63) (unat al) (unat (ALIGN_UP cnt al))) (memmap st)"
      by (auto split: if_splits)
    then have "list_ex (room_in (unat (- 1 :: u64)) (unat al) (unat (ALIGN_UP cnt al))) (memmap st)"
      unfolding list_ex_iff unat_all_ones by (meson room_in_mono room_limit)
    then have "?scan (- 1) \<noteq> None" by (simp add: scan_entries_room [OF assms(1) _ assms(2) c(1,2)])
    with take [of "- 1"] None \<open>high\<close> show ?thesis by (auto simp: alloc_scan [OF assms(5)])
  qed
qed

section \<open>Freeing\<close>

lemma pmm_free_effect:
  assumes "pmm_inv st" and "\<not> allocations_disallowed st" and "ALIGN_UP cnt 4096 \<noteq> 0"
    and "unat p + unat (ALIGN_UP cnt 4096) \<le> 2 ^ 63"
    and "length (memmap st) + 2 \<le> memmap_max_entries st"
  obtains st' where "pmm_free st p cnt = Inr st'" and "pmm_inv st'"
    and "st' = st\<lparr>memmap := memmap st'\<rparr>"
    and "\<And>a. types_at (memmap st') a = low_types (pmm_sanitiser_keep_first_page st) a
      (if p \<le> a \<and> a < p + ALIGN_UP cnt 4096 then {#MEMMAP_USABLE#} else types_at (memmap st) a)"
proof -
  let ?c = "ALIGN_UP cnt 4096" and ?keep = "pmm_sanitiser_keep_first_page st"
  from assms(1) have wf: "wf_map (memmap st)" by (simp add: pmm_inv_def)
  have sum: "unat (p + ?c) = unat p + unat ?c" by (rule unat_add_nowrap) (use assms(4) in simp)
  have less: "p < p + ?c" unfolding word_less_nat_alt sum using assms(3) by (simp add: unat_gt_0)
  from pmm_new_entry_room [OF wf less assms(5)] obtain m1
    where new: "pmm_new_entry (memmap_max_entries st) (memmap st) p ?c MEMMAP_USABLE = Inr (True, m1)"
    by blast
  have wf1: "wf_map m1" using pmm_new_entry_wf [OF new wf] assms(3) by (simp add: word_gt_0)
  from pmm_sanitise_wf [OF wf1, of ?keep] obtain m2
    where m2: "pmm_sanitise_entries ?keep False m1 = Inr m2" by metis
  have run: "memmap_alloc_range_in ?keep (memmap_max_entries st) (memmap st) p ?c
      MEMMAP_USABLE 0 False False True = Inr (True, m2)"
    using less_imp_le [OF less] assms(3) new m2
    by (simp add: memmap_alloc_range_in_def Let_def builtin_add_overflow_order)
  note ty = memmap_alloc_range_in_types [OF run assms(3) wf]
  have hi: "types_at m2 a = {#}" if "2 ^ 63 \<le> unat a" for a
  proof -
    have "\<not> a < p + ?c" unfolding word_less_nat_alt sum using that assms(4) by linarith
    with that assms(1) show ?thesis by (simp add: ty(1) pmm_inv_def)
  qed
  show ?thesis
  proof (rule that [of "st\<lparr>memmap := m2\<rparr>"])
    show "pmm_free st p cnt = Inr (st\<lparr>memmap := m2\<rparr>)"
      using assms(2) run by (simp add: pmm_free_def memmap_alloc_range_def Let_def)
    show "pmm_inv (st\<lparr>memmap := m2\<rparr>)" using ty hi by (simp add: pmm_inv_def)
  qed (simp_all add: ty)
qed

lemma allocated_frame:
  assumes "allocated st ty p len z st'"
  shows "allocations_disallowed st' = allocations_disallowed st"
    and "pmm_sanitiser_keep_first_page st' = pmm_sanitiser_keep_first_page st"
    and "memmap_max_entries st' = memmap_max_entries st" and "ram st' = mem_set p 0 z (ram st)"
proof -
  obtain m where "st' = st\<lparr>memmap := m, ram := mem_set p 0 z (ram st)\<rparr>"
    using assms by (auto simp: allocated_def)
  then show "allocations_disallowed st' = allocations_disallowed st"
    "pmm_sanitiser_keep_first_page st' = pmm_sanitiser_keep_first_page st"
    "memmap_max_entries st' = memmap_max_entries st" "ram st' = mem_set p 0 z (ram st)"
    by simp_all
qed

lemma allocated_clean:
  assumes "pmm_inv st" and "allocated st ty p len z st'" and "p \<le> a" and "a < p + len"
  shows "low_types (pmm_sanitiser_keep_first_page st) a T = T"
  using assms low_clean_usable by (auto simp: pmm_inv_def allocated_def)

lemma free_allocated:
  assumes "pmm_inv st" and "pmm_inv st1" and al: "allocated st ty p len (ALIGN_UP cnt 4096) st1"
    and c: "ALIGN_UP cnt 4096 \<noteq> 0" and len: "unat (ALIGN_UP cnt (4096::u64)) \<le> unat len"
    "unat p + unat len \<le> 2 ^ 63"
    and "\<not> allocations_disallowed st1" and "length (memmap st1) + 2 \<le> memmap_max_entries st1"
  obtains st2 where "pmm_free st1 p cnt = Inr st2" and "pmm_inv st2"
    and "\<forall>a. types_at (memmap st2) a = (if p + ALIGN_UP cnt 4096 \<le> a \<and>
        a < p + ALIGN_UP cnt 4096 + (len - ALIGN_UP cnt 4096) then {#ty#} else types_at (memmap st) a)"
proof -
  let ?c = "ALIGN_UP cnt 4096" and ?keep = "pmm_sanitiser_keep_first_page st"
  have sums: "unat (p + len) = unat p + unat len" "unat (p + ?c) = unat p + unat ?c"
    by (rule unat_add_nowrap, use len in simp)+
  have "unat p + unat ?c \<le> 2 ^ 63" using len by linarith
  from pmm_free_effect [OF assms(2,7) c this assms(8)] obtain st2
    where free: "pmm_free st1 p cnt = Inr st2" "pmm_inv st2"
      and ty: "\<And>a. types_at (memmap st2) a = low_types ?keep a
        (if p \<le> a \<and> a < p + ?c then {#MEMMAP_USABLE#} else types_at (memmap st1) a)"
    unfolding allocated_frame(2) [OF al] by metis
  have end_eq: "p + ?c + (len - ?c) = p + len" by simp
  have "types_at (memmap st2) a =
      (if p + ?c \<le> a \<and> a < p + ?c + (len - ?c) then {#ty#} else types_at (memmap st) a)" for a
  proof (cases "p \<le> a \<and> a < p + len")
    case True
    then have t: "types_at (memmap st) a = {#MEMMAP_USABLE#}" "types_at (memmap st1) a = {#ty#}"
      using al by (simp_all add: allocated_def)
    from True have "low_types ?keep a T = T" for T
      by (intro allocated_clean [OF assms(1) al]) simp_all
    with t True show ?thesis unfolding ty end_eq by (auto simp: not_less dest: leD)
  next
    case False
    then have "\<not> (p \<le> a \<and> a < p + ?c)" "\<not> (p + ?c \<le> a \<and> a < p + len)"
      using len(1) by (auto simp: word_le_nat_alt word_less_nat_alt sums)
    moreover have "types_at (memmap st1) a = types_at (memmap st) a"
      using False al by (auto simp: allocated_def)
    moreover have "low_types ?keep a (types_at (memmap st) a) = types_at (memmap st) a"
      using assms(1) by (simp add: pmm_inv_def low_clean_def)
    ultimately show ?thesis unfolding ty end_eq by (simp only: if_not_P if_False)
  qed
  with free that show ?thesis by blast
qed

section \<open>The interface of a block allocator\<close>

text \<open>A sequence of requests, each served from the state the one before left; a panic ends it.\<close>

fun alloc_seq :: "('s \<Rightarrow> 'r \<Rightarrow> (u64 \<times> 's) res) \<Rightarrow> 's \<Rightarrow> 'r list \<Rightarrow> (u64 list \<times> 's) res" where
  "alloc_seq alloc s [] = Inr ([], s)"
| "alloc_seq alloc s (r # rs) =
     bind_res (alloc s r) (\<lambda>(p, s1).
       bind_res (alloc_seq alloc s1 rs) (\<lambda>(ps, s2). Inr (p # ps, s2)))"

definition block :: "u64 \<Rightarrow> nat \<Rightarrow> nat set" where
  "block p n = {unat p ..< unat p + n}"

text \<open>An allocator takes blocks out of the addresses that are free, and gives none of them
  back.\<close>

locale block_allocator =
  fixes alloc :: "'s \<Rightarrow> 'r \<Rightarrow> (u64 \<times> 's) res"
    and request_ok :: "'r \<Rightarrow> bool"
    and request_size :: "'r \<Rightarrow> nat"
    and state_inv :: "'s \<Rightarrow> bool"
    and free_addrs :: "'s \<Rightarrow> nat set"
  assumes alloc_inv: "state_inv s \<Longrightarrow> request_ok r \<Longrightarrow> alloc s r = Inr (p, s') \<Longrightarrow> state_inv s'"
    and alloc_from_free: "state_inv s \<Longrightarrow> request_ok r \<Longrightarrow> alloc s r = Inr (p, s') \<Longrightarrow>
      block p (request_size r) \<subseteq> free_addrs s - free_addrs s'"
    and alloc_takes: "state_inv s \<Longrightarrow> request_ok r \<Longrightarrow> alloc s r = Inr (p, s') \<Longrightarrow>
      free_addrs s' \<subseteq> free_addrs s"
begin

lemma alloc_seq_blocks:
  assumes "alloc_seq alloc s rs = Inr (ps, s')" and "state_inv s" and "list_all request_ok rs"
  shows "length ps = length rs \<and> state_inv s' \<and> free_addrs s' \<subseteq> free_addrs s
    \<and> (\<forall>(p, r) \<in> set (zip ps rs). block p (request_size r) \<subseteq> free_addrs s - free_addrs s')
    \<and> sorted_wrt (\<lambda>(p, r) (q, r'). block p (request_size r) \<inter> block q (request_size r') = {})
        (zip ps rs)"
  using assms
proof (induction rs arbitrary: s ps)
  case Nil
  then show ?case by simp
next
  case (Cons r rs)
  from Cons.prems(1) obtain p s1 qs where run: "alloc s r = Inr (p, s1)"
    and rest: "alloc_seq alloc s1 rs = Inr (qs, s')" and ps: "ps = p # qs"
    by (auto simp: split_beta)
  have ok: "request_ok r" "list_all request_ok rs" using Cons.prems(3) by simp_all
  note step = alloc_inv [OF Cons.prems(2) ok(1) run] alloc_from_free [OF Cons.prems(2) ok(1) run]
    alloc_takes [OF Cons.prems(2) ok(1) run]
  note ih = Cons.IH [OF rest step(1) ok(2)]
  have "\<forall>(q, r') \<in> set (zip qs rs). block p (request_size r) \<inter> block q (request_size r') = {}"
    using ih step(2) by blast
  moreover have "\<forall>(q, r') \<in> set (zip qs rs). block q (request_size r') \<subseteq> free_addrs s - free_addrs s'"
    using ih step(3) by blast
  moreover have "block p (request_size r) \<subseteq> free_addrs s - free_addrs s'" using ih step(2) by blast
  moreover have "free_addrs s' \<subseteq> free_addrs s" using ih step(3) by blast
  ultimately show ?case using ih unfolding ps by simp
qed

end

definition usable_addrs :: "pmm \<Rightarrow> nat set" where
  "usable_addrs st = {unat a | a. types_at (memmap st) a = {#MEMMAP_USABLE#}}"

lemma allocated_usable:
  assumes "allocated st ty p len z st'" and "ty \<noteq> MEMMAP_USABLE"
    and "n \<le> unat len" and "unat p + unat len < 2 ^ 64"
  shows "block p n \<subseteq> usable_addrs st - usable_addrs st'" and "usable_addrs st' \<subseteq> usable_addrs st"
proof -
  have sum: "unat (p + len) = unat p + unat len" by (rule unat_add_nowrap) (use assms(4) in simp)
  have "k \<in> usable_addrs st \<and> k \<notin> usable_addrs st'" if k: "k \<in> block p n" for k
  proof -
    from k assms(3,4) have k64: "k < 2 ^ LENGTH(64)" by (simp add: block_def)
    define a :: u64 where "a = of_nat k"
    have ka: "k = unat a" using k64 by (simp only: a_def unat_of_nat_small)
    have a: "p \<le> a" "a < p + len" unfolding word_le_nat_alt word_less_nat_alt sum
      using k assms(3) by (simp_all add: block_def ka)
    with assms(1,2) have "types_at (memmap st) a = {#MEMMAP_USABLE#}"
      "types_at (memmap st') a \<noteq> {#MEMMAP_USABLE#}" by (simp_all add: allocated_def)
    then show ?thesis by (auto simp: usable_addrs_def ka simp flip: word_unat_eq_iff)
  qed
  then show "block p n \<subseteq> usable_addrs st - usable_addrs st'" by blast
  show "usable_addrs st' \<subseteq> usable_addrs st"
    using assms(1,2) by (auto simp: usable_addrs_def allocated_def split: if_splits)
qed

type_synonym alloc_request = "u64 \<times> u32 \<times> u64 \<times> bool"

definition serve :: "pmm \<Rightarrow> alloc_request \<Rightarrow> (u64 \<times> pmm) res" where
  "serve st r = (case r of (cnt, ty, al, high) \<Rightarrow> ext_mem_alloc_type_aligned_mode st cnt ty al high)"

definition sane_request :: "alloc_request \<Rightarrow> bool" where
  "sane_request r \<longleftrightarrow> (case r of (cnt, ty, al, high) \<Rightarrow>
     0 < unat al \<and> 0 < unat cnt \<and> unat cnt + 2 * unat al < 2 ^ 62 \<and> ty \<noteq> MEMMAP_USABLE)"

interpretation top_down: block_allocator serve sane_request "\<lambda>r. unat (fst r)" pmm_inv usable_addrs
proof
  fix st st' :: pmm and r :: alloc_request and p
  assume inv: "pmm_inv st" and "sane_request r" and "serve st r = Inr (p, st')"
  then obtain cnt ty al high where r: "r = (cnt, ty, al, high)"
    and run: "ext_mem_alloc_type_aligned_mode st cnt ty al high = Inr (p, st')"
    and sz: "0 < unat al" "0 < unat cnt" "unat cnt + 2 * unat al < 2 ^ 62" and ty: "ty \<noteq> MEMMAP_USABLE"
    by (auto simp: serve_def sane_request_def split: prod.splits)
  from ext_mem_alloc_sound [OF inv sz run] obtain len
    where inv': "pmm_inv st'" and al: "allocated st ty p len (ALIGN_UP cnt al) st'"
      and len: "unat (ALIGN_UP cnt al) \<le> unat len" "unat p + unat len \<le> 2 ^ 63" by metis
  have "unat cnt \<le> unat len" using align_count(3) [OF sz] len(1) by linarith
  with allocated_usable [OF al ty] len(2)
  show "block p (unat (fst r)) \<subseteq> usable_addrs st - usable_addrs st'"
    "usable_addrs st' \<subseteq> usable_addrs st" by (simp_all add: r)
  show "pmm_inv st'" by (rule inv')
qed

lemma conv_mem_alloc_sound:
  assumes "pmm_inv st" and "0 < unat cnt" and "unat cnt + 4096 < 2 ^ 64"
    and "conv_mem_alloc st cnt = Inr (p, st')"
  shows "pmm_inv st'" and "unat p + unat (ALIGN_UP cnt 4096) \<le> 0x100000"
    and "unat cnt \<le> unat (ALIGN_UP cnt 4096)" and "4096 dvd unat (conv_base st) \<Longrightarrow> 4096 dvd unat p"
    and "conv_base st' = p + ALIGN_UP cnt 4096"
    and "allocated st MEMMAP_BOOTLOADER_RECLAIMABLE p (ALIGN_UP cnt 4096) (ALIGN_UP cnt 4096)
      (st'\<lparr>conv_base := conv_base st\<rparr>)"
proof -
  have "unat cnt + (unat (4096::u64) - 1) < 2 ^ LENGTH(64)" using assms(3) by simp
  from ALIGN_UP_bounds(1) [OF _ this] show up: "unat cnt \<le> unat (ALIGN_UP cnt 4096)"
    by (simp add: word_le_nat_alt)
  then have "ALIGN_UP cnt 4096 \<noteq> 0" using assms(2) by (metis leD unat_0)
  from conv_search_sound [OF _ assms(1) this] assms(4)
  show "pmm_inv st'" "unat p + unat (ALIGN_UP cnt 4096) \<le> 0x100000"
    "4096 dvd unat (conv_base st) \<Longrightarrow> 4096 dvd unat p" "conv_base st' = p + ALIGN_UP cnt 4096"
    "allocated st MEMMAP_BOOTLOADER_RECLAIMABLE p (ALIGN_UP cnt 4096) (ALIGN_UP cnt 4096)
      (st'\<lparr>conv_base := conv_base st\<rparr>)"
    by (auto simp: conv_mem_alloc_def split: if_splits)
qed

interpretation conventional: block_allocator conv_mem_alloc
  "\<lambda>cnt. 0 < unat cnt \<and> unat cnt + 4096 < 2 ^ 64" unat pmm_inv usable_addrs
proof
  fix st st' :: pmm and cnt p :: u64
  assume "pmm_inv st" and "0 < unat cnt \<and> unat cnt + 4096 < 2 ^ 64"
    and "conv_mem_alloc st cnt = Inr (p, st')"
  then have *: "pmm_inv st" "0 < unat cnt" "unat cnt + 4096 < 2 ^ 64"
    "conv_mem_alloc st cnt = Inr (p, st')" by simp_all
  note s = conv_mem_alloc_sound [OF *]
  have "MEMMAP_BOOTLOADER_RECLAIMABLE \<noteq> MEMMAP_USABLE" by (simp add: memmap_type_defs)
  from allocated_usable [OF s(6) this s(3)] s(2)
  have "block p (unat cnt) \<subseteq> usable_addrs st - usable_addrs (st'\<lparr>conv_base := conv_base st\<rparr>)"
    "usable_addrs (st'\<lparr>conv_base := conv_base st\<rparr>) \<subseteq> usable_addrs st" by simp_all
  then show "block p (unat cnt) \<subseteq> usable_addrs st - usable_addrs st'"
    "usable_addrs st' \<subseteq> usable_addrs st" by (simp_all add: usable_addrs_def)
  show "pmm_inv st'" by (rule s(1))
qed

section \<open>Properties\<close>

definition sample :: pmm where
  "sample = \<lparr>memmap = [\<lparr>me_base = 0x1000, me_length = 0x9000, me_type = 1\<rparr>,
                         \<lparr>me_base = 0x100000, me_length = 0x10000, me_type = 1\<rparr>,
                         \<lparr>me_base = 0x200000, me_length = 0x1000, me_type = 0x1000\<rparr>],
     memmap_max_entries = 16, allocations_disallowed = False,
     pmm_sanitiser_keep_first_page = False, conv_base = 0x1000, ram = (\<lambda>a. ucast a)\<rparr>"

lemma sample_inv: "pmm_inv sample"
  by (auto simp: pmm_inv_def sample_def wf_map_def wf_entry_def in_entry_def types_of_def
      low_clean_def low_types_def word_le_nat_alt word_less_nat_alt)

lemma sample_alloc: "\<exists>p st'. ext_mem_alloc_type_aligned_mode sample 5000 MEMMAP_KERNEL_AND_MODULES 4096 False
    = Inr (p, st')"
proof (rule ext_mem_alloc_finds [OF sample_inv])
  have "ALIGN_UP 5000 (4096::u64) = 8192" by code_simp
  then show "list_ex (room_in (if False then 2 ^ 63 else 2 ^ 32) (unat (4096::u64))
      (unat (ALIGN_UP 5000 (4096::u64)))) (memmap sample)"
    by (simp add: sample_def room_in_def MEMMAP_USABLE_def) (intro disjI2 exI [of _ "0x10e000"], simp)
qed (simp_all add: sample_def)

text \<open>C1: a block that the physical allocator returns is aligned as asked, was usable memory of the
  map in all its bytes, has at least the size asked for and less than one alignment unit more than
  the rounded size, lies below 4 GiB unless high memory is allowed, is recorded with the
  type asked for while every other address keeps its type, and is zeroed; the map stays
  well-formed.\<close>

theorem ext_mem_alloc_correct:
  assumes "pmm_inv st" and "0 < unat al" and "0 < unat cnt" and "unat cnt + 2 * unat al < 2 ^ 62"
    and "ext_mem_alloc_type_aligned_mode st cnt ty al high = Inr (p, st')"
  shows "pmm_inv st' \<and> unat al dvd unat p \<and>
    (\<exists>len. unat cnt \<le> unat len \<and> unat len < unat (ALIGN_UP cnt al) + unat al
      \<and> unat p + unat len \<le> (if high then 2 ^ 63 else 2 ^ 32)
      \<and> allocated st ty p len (ALIGN_UP cnt al) st')"
proof -
  from ext_mem_alloc_sound [OF assms] obtain len where *: "pmm_inv st'"
    "allocated st ty p len (ALIGN_UP cnt al) st'" "unat al dvd unat p"
    "unat (ALIGN_UP cnt al) \<le> unat len" "unat len < unat (ALIGN_UP cnt al) + unat al"
    "unat p + unat len \<le> 2 ^ 63" "\<not> high \<Longrightarrow> unat p + unat len \<le> 2 ^ 32" by metis
  have "unat cnt \<le> unat len" using align_count(3) [OF assms(2-4)] *(4) by linarith
  with * show ?thesis by (intro conjI exI [of _ len]) auto
qed

theorem ext_mem_alloc_correct_witness:
  "\<exists>p st'. ext_mem_alloc_type_aligned_mode sample 5000 MEMMAP_KERNEL_AND_MODULES 4096 False = Inr (p, st')
    \<and> pmm_inv st' \<and> 4096 dvd unat p"
proof -
  from sample_alloc obtain p st' where run:
    "ext_mem_alloc_type_aligned_mode sample 5000 MEMMAP_KERNEL_AND_MODULES 4096 False = Inr (p, st')"
    by blast
  from ext_mem_alloc_correct [OF sample_inv _ _ _ run] run show ?thesis by auto
qed

text \<open>C2: while allocations are allowed and the map has space for two more entries, an allocation
  succeeds exactly when some usable entry has room for the rounded size at an aligned address
  below the limit; otherwise the allocator panics with its out-of-memory message, and with no
  other.\<close>

theorem ext_mem_alloc_complete:
  assumes "pmm_inv st" and "0 < unat al" and "0 < unat cnt" and "unat cnt + 2 * unat al < 2 ^ 62"
    and "\<not> allocations_disallowed st" and "length (memmap st) + 2 \<le> memmap_max_entries st"
  shows "if list_ex (room_in (if high then 2 ^ 63 else 2 ^ 32) (unat al) (unat (ALIGN_UP cnt al)))
      (memmap st)
    then \<exists>p st'. ext_mem_alloc_type_aligned_mode st cnt ty al high = Inr (p, st')
    else ext_mem_alloc_type_aligned_mode st cnt ty al high
      = Inl (Panic False ''High memory allocator: Out of memory'')"
proof (cases "list_ex (room_in (if high then 2 ^ 63 else 2 ^ 32) (unat al) (unat (ALIGN_UP cnt al)))
    (memmap st)")
  case True
  with ext_mem_alloc_finds [OF assms True] show ?thesis by simp
next
  case False
  note c = align_count [OF assms(2-4)]
  note scan = scan_entries_room [OF assms(1) _ assms(2) c(1,2)]
  have low: "\<not> list_ex (room_in (2 ^ 32) (unat al) (unat (ALIGN_UP cnt al))) (memmap st)"
    using False by (cases high) (auto simp: list_ex_iff dest: room_in_mono [where lim' = "2 ^ 63"])
  have high: "\<not> list_ex (room_in (unat (- 1 :: u64)) (unat al) (unat (ALIGN_UP cnt al))) (memmap st)" if high
    using False that pmm_inv_top(2) [OF assms(1)]
      room_in_high [where lim = "unat (- 1 :: u64)"] by (auto simp: list_ex_iff unat_all_ones)
  then have none: "high \<Longrightarrow> scan_entries (- 1) al (ALIGN_UP cnt al) (memmap st) (length (memmap st)) = None"
    "scan_entries 0x100000000 al (ALIGN_UP cnt al) (memmap st) (length (memmap st)) = None"
    using low by (simp_all add: scan)
  show ?thesis unfolding alloc_scan [OF assms(5)] out_of_memory_def none(2)
    using False none(1) by simp
qed

theorem ext_mem_alloc_complete_witness:
  "ext_mem_alloc_type_aligned_mode sample 0x100000 MEMMAP_KERNEL_AND_MODULES 4096 True
     = Inl (Panic False ''High memory allocator: Out of memory'')"
proof -
  have "ALIGN_UP 0x100000 (4096::u64) = 0x100000" by code_simp
  then have "\<not> list_ex (room_in (if True then 2 ^ 63 else 2 ^ 32) (unat (4096::u64))
      (unat (ALIGN_UP 0x100000 (4096::u64)))) (memmap sample)"
    by (simp add: sample_def room_in_def)
  with ext_mem_alloc_complete [OF sample_inv, of 4096 "0x100000" True MEMMAP_KERNEL_AND_MODULES]
  show ?thesis by (simp add: sample_def)
qed

text \<open>C3: the blocks given out by any sequence of allocations, of any sizes, alignments and
  non-usable types, are pairwise disjoint, and all of them were usable before the sequence and are
  not after it.\<close>

theorem allocations_disjoint:
  assumes "pmm_inv st" and "list_all sane_request rs" and "alloc_seq serve st rs = Inr (ps, st')"
  shows "length ps = length rs \<and> pmm_inv st'
    \<and> (\<forall>(p, r) \<in> set (zip ps rs). block p (unat (fst r)) \<subseteq> usable_addrs st - usable_addrs st')
    \<and> sorted_wrt (\<lambda>(p, r) (q, r'). block p (unat (fst r)) \<inter> block q (unat (fst r')) = {}) (zip ps rs)"
  using top_down.alloc_seq_blocks [OF assms(3,1,2)] by blast

theorem allocations_disjoint_witness:
  "\<exists>st'. alloc_seq serve sample [(5000, 5, 4096, False), (0x1234, 0x1000, 16, False)]
       = Inr ([0x10e000, 0x10cdc0], st') \<and> pmm_inv st'
    \<and> block 0x10e000 5000 \<inter> block 0x10cdc0 0x1234 = {}"
proof -
  let ?rs = "[(5000, 5, 4096, False), (0x1234, 0x1000, 16, False)]"
  have "case alloc_seq serve sample ?rs of Inl x \<Rightarrow> False | Inr (ps, st) \<Rightarrow> ps = [0x10e000, 0x10cdc0]"
    by code_simp
  then obtain st' where run: "alloc_seq serve sample ?rs = Inr ([0x10e000, 0x10cdc0], st')"
    by (auto split: sum.splits)
  have "list_all sane_request ?rs" by (simp add: sane_request_def MEMMAP_USABLE_def)
  from allocations_disjoint [OF sample_inv this run]
  have "pmm_inv st'" "block 0x10e000 5000 \<inter> block 0x10cdc0 0x1234 = {}" by simp_all
  with run show ?thesis by blast
qed

text \<open>C10: freeing what was allocated succeeds when the map has space for two more entries, keeps
  the map well-formed and makes every byte of the rounded size usable again; every other address
  has the type it had before the allocation, except for a tail shorter than a page that the
  allocator had added to the block, which keeps the type of the allocation.\<close>

theorem alloc_free_round_trip:
  assumes "pmm_inv st" and "0 < unat cnt" and "unat cnt + 8192 < 2 ^ 62"
    and run: "ext_mem_alloc_type st cnt ty = Inr (p, st1)"
    and "length (memmap st1) + 2 \<le> memmap_max_entries st1"
  shows "\<exists>st2 tail. pmm_free st1 p cnt = Inr st2 \<and> pmm_inv st2 \<and> tail < 4096
    \<and> (\<forall>a. types_at (memmap st2) a =
         (if p + ALIGN_UP cnt 4096 \<le> a \<and> a < p + ALIGN_UP cnt 4096 + tail then {#ty#}
          else types_at (memmap st) a))"
proof -
  let ?c = "ALIGN_UP cnt (4096::u64)"
  have run': "ext_mem_alloc_type_aligned_mode st cnt ty 4096 False = Inr (p, st1)"
    using run by (simp add: ext_mem_alloc_type_def ext_mem_alloc_type_aligned_def)
  have sz: "0 < unat (4096::u64)" "0 < unat cnt" "unat cnt + 2 * unat (4096::u64) < 2 ^ 62"
    using assms(2,3) by simp_all
  from ext_mem_alloc_sound [OF assms(1) sz run'] obtain len where inv: "pmm_inv st1"
    and al: "allocated st ty p len ?c st1" and len: "unat ?c \<le> unat len"
    "unat len < unat ?c + unat (4096::u64)" "unat p + unat len \<le> 2 ^ 63" by metis
  have dis: "\<not> allocations_disallowed st1" unfolding allocated_frame(1) [OF al]
    using run' by (auto simp: ext_mem_alloc_type_aligned_mode_def Let_def)
  have c: "?c \<noteq> 0" using align_count(1) [OF sz] by auto
  from free_allocated [OF assms(1) inv al c len(1,3) dis assms(5)]
  obtain st2 where "pmm_free st1 p cnt = Inr st2" "pmm_inv st2"
    "\<forall>a. types_at (memmap st2) a =
      (if p + ?c \<le> a \<and> a < p + ?c + (len - ?c) then {#ty#} else types_at (memmap st) a)" by metis
  moreover have "unat (len - ?c) = unat len - unat ?c"
    by (rule unat_sub_nowrap) (use len(1) in \<open>simp add: word_le_nat_alt\<close>)
  then have "len - ?c < 4096" using len(1,2) by (simp add: word_less_nat_alt)
  ultimately show ?thesis by blast
qed

theorem alloc_free_round_trip_witness:
  "\<exists>st1 st2. ext_mem_alloc_type sample 5000 5 = Inr (0x10e000, st1)
    \<and> pmm_free st1 0x10e000 5000 = Inr st2 \<and> pmm_inv st2
    \<and> types_at (memmap st2) 0x10e004 = types_at (memmap sample) 0x10e004"
proof -
  have "case ext_mem_alloc_type sample 5000 5 of Inl x \<Rightarrow> False
    | Inr (p, st) \<Rightarrow> p = 0x10e000 \<and> length (memmap st) = 4 \<and> memmap_max_entries st = 16" by code_simp
  then obtain st1 where run: "ext_mem_alloc_type sample 5000 5 = Inr (0x10e000, st1)"
    and cap: "length (memmap st1) + 2 \<le> memmap_max_entries st1" by (auto split: sum.splits)
  have "ALIGN_UP 5000 (4096::u64) = 0x2000" by code_simp
  with alloc_free_round_trip [OF sample_inv _ _ run cap] run show ?thesis by fastforce
qed

text \<open>C11: reallocation moves the contents: the returned block holds the bytes of the old block up
  to the smaller of the two sizes, and zeros after them.\<close>

theorem pmm_realloc_keeps_contents:
  assumes "pmm_inv st" and "0 < unat new_size" and "unat new_size + 8192 < 2 ^ 62"
    and old: "old_ptr \<noteq> 0" "\<forall>i < old_size. types_at (memmap st) (old_ptr + i) \<noteq> {#MEMMAP_USABLE#}"
    and run: "pmm_realloc st old_ptr old_size new_size = Inr (p, st')"
    and "i < new_size"
  shows "ram st' (p + i) = (if i < old_size then ram st (old_ptr + i) else 0)"
proof -
  let ?c = "ALIGN_UP new_size (4096::u64)"
  have "new_size \<noteq> 0" using assms(2) by auto
  with run old(1) obtain st1 where
    al: "ext_mem_alloc_type_aligned_mode st new_size MEMMAP_BOOTLOADER_RECLAIMABLE 4096 False = Inr (p, st1)"
    and free: "pmm_free (st1\<lparr>ram := mem_copy p old_ptr (min new_size old_size) (ram st1)\<rparr>) old_ptr old_size
      = Inr st'"
    by (auto simp: pmm_realloc_def Let_def ext_mem_alloc_def ext_mem_alloc_type_def
        ext_mem_alloc_type_aligned_def)
  have sz: "0 < unat (4096::u64)" "0 < unat new_size" "unat new_size + 2 * unat (4096::u64) < 2 ^ 62"
    using assms(2,3) by simp_all
  from ext_mem_alloc_sound [OF assms(1) sz al] obtain len where
    blk: "allocated st MEMMAP_BOOTLOADER_RECLAIMABLE p len ?c st1"
    and len: "unat ?c \<le> unat len" "unat p + unat len \<le> 2 ^ 63" by metis
  have "ram st' = mem_copy p old_ptr (min new_size old_size) (ram st1)"
    using free by (auto simp: pmm_free_def Let_def memmap_alloc_range_def split: if_splits)
  moreover have "ram st1 = mem_set p 0 ?c (ram st)"
    by (rule allocated_frame [OF blk])
  moreover have "\<not> old_ptr + i - p < ?c" if "i < old_size"
  proof
    assume less: "old_ptr + i - p < ?c"
    then have "unat (p + (old_ptr + i - p)) = unat p + unat (old_ptr + i - p)"
      using len by (intro unat_add_nowrap) (simp add: word_less_nat_alt)
    moreover have "unat (p + len) = unat p + unat len" by (rule unat_add_nowrap) (use len in simp)
    ultimately have "p \<le> old_ptr + i" "old_ptr + i < p + len"
      using less len(1) by (simp_all add: word_le_nat_alt word_less_nat_alt)
    with blk old(2) that show False by (auto simp: allocated_def)
  qed
  moreover have "i < ?c" using align_count(3) [OF sz] assms(7) by (simp add: word_less_nat_alt)
  moreover have "i < min new_size old_size \<longleftrightarrow> i < old_size" using assms(7) by (simp add: min_less_iff_conj)
  ultimately show ?thesis by (simp add: mem_copy_def mem_set_def)
qed

theorem pmm_realloc_keeps_contents_witness:
  "\<exists>p st'. pmm_realloc sample 0x200000 100 5000 = Inr (p, st') \<and> ram st' (p + 7) = 7
    \<and> ram st' (p + 4000) = 0"
proof -
  have "case pmm_realloc sample 0x200000 100 5000 of Inl x \<Rightarrow> False | Inr (p, st) \<Rightarrow> True" by code_simp
  then obtain p st' where run: "pmm_realloc sample 0x200000 100 5000 = Inr (p, st')"
    by (auto split: sum.splits)
  have old: "types_at (memmap sample) (0x200000 + i) \<noteq> {#MEMMAP_USABLE#}" if "i < 100" for i :: u64
  proof -
    have "unat i < 100" using that by (simp add: word_less_nat_alt)
    then have "unat (0x200000 + i) = 0x200000 + unat i" by (subst unat_add_nowrap) simp_all
    with \<open>unat i < 100\<close> show ?thesis
      by (simp add: sample_def types_of_def in_entry_def memmap_type_defs word_le_nat_alt word_less_nat_alt)
  qed
  note c = pmm_realloc_keeps_contents [OF sample_inv _ _ _ _ run]
  from c [of 7] c [of 4000] old run show ?thesis by (simp add: sample_def)
qed

text \<open>C12: an allocation of conventional memory lies below one megabyte, page-aligned when the
  search position is, is usable memory before it and recorded and zeroed after it; the search
  position moves past the block, and the allocations of a sequence are disjoint.\<close>

theorem conv_mem_alloc_correct:
  assumes "pmm_inv st" and "0 < unat cnt" and "unat cnt + 4096 < 2 ^ 64"
    and "conv_mem_alloc st cnt = Inr (p, st')"
  shows "pmm_inv st' \<and> unat p + unat cnt \<le> 0x100000 \<and> conv_base st' = p + ALIGN_UP cnt 4096
    \<and> (4096 dvd unat (conv_base st) \<longrightarrow> 4096 dvd unat p)
    \<and> block p (unat cnt) \<subseteq> usable_addrs st - usable_addrs st'
    \<and> allocated st MEMMAP_BOOTLOADER_RECLAIMABLE p (ALIGN_UP cnt 4096) (ALIGN_UP cnt 4096)
        (st'\<lparr>conv_base := conv_base st\<rparr>)"
  using conv_mem_alloc_sound [OF assms] conventional.alloc_from_free [OF assms(1) _ assms(4)] assms(2,3)
  by auto

theorem conv_mem_alloc_correct_witness:
  "\<exists>st'. conv_mem_alloc sample 5000 = Inr (0x1000, st') \<and> pmm_inv st' \<and> conv_base st' = 0x3000
    \<and> block 0x1000 5000 \<subseteq> usable_addrs sample - usable_addrs st'"
proof -
  have "case conv_mem_alloc sample 5000 of Inl x \<Rightarrow> False | Inr (p, st) \<Rightarrow> p = 0x1000" by code_simp
  then obtain st' where run: "conv_mem_alloc sample 5000 = Inr (0x1000, st')"
    by (auto split: sum.splits)
  have "ALIGN_UP 5000 (4096::u64) = 0x2000" by code_simp
  with conv_mem_alloc_correct [OF sample_inv _ _ run] run show ?thesis by simp
qed

end
