(* ===== verification/Memory_Queries.thy ===== *)
theory Memory_Queries
  imports Pmm
begin

text \<open>
  The map as the rest of the boot loader reads it: the result of sanitising a firmware map, the
  page-aligned map that is handed over to the kernel, and the two queries of
  \<^verbatim>\<open>common/mm/pmm.c\<close> and \<^verbatim>\<open>common/mm/pmm.s2.c\<close> over a finished map.
\<close>

section \<open>The map handed over\<close>

definition page_types :: "memmap_entry list \<Rightarrow> u64 \<Rightarrow> u32 multiset" where
  "page_types m a =
     (if types_at m a = {#MEMMAP_USABLE#}
      then (if list_ex (\<lambda>e. me_type e = MEMMAP_USABLE \<and> full_page a e) m then {#MEMMAP_USABLE#} else {#})
      else types_at m a)"

lemma sum_align_pieces:
  assumes "\<forall>e \<in># M. wf_entry e"
  shows "types_of (\<Sum>e \<in># M. mset (align_pieces e)) a
    = image_mset me_type (filter_mset (\<lambda>e. if me_type e = MEMMAP_USABLE then full_page a e
        else in_entry a e) M)"
  using assms
proof (induction M)
  case (add e M)
  have "types_at (align_pieces e) a = image_mset me_type (filter_mset
      (\<lambda>e. if me_type e = MEMMAP_USABLE then full_page a e else in_entry a e) {#e#})"
  proof (cases "me_type e = MEMMAP_USABLE")
    case True
    with add.prems show ?thesis by (simp add: align_pieces_full_page(1))
  next
    case False
    then show ?thesis by (simp add: align_pieces_def types_of_def)
  qed
  with add show ?case by simp
qed simp

lemma page_types_filter:
  assumes "wf_map m"
  shows "image_mset me_type (filter_mset (\<lambda>e. if me_type e = MEMMAP_USABLE then full_page a e
      else in_entry a e) (mset m)) = page_types m a"
proof (cases "filter_mset (in_entry a) (mset m)")
  case empty
  then have "\<not> in_entry a e" if "e \<in> set m" for e
    using that by (auto simp: filter_mset_eq_mempty_iff)
  moreover have "\<not> full_page a e" if "e \<in> set m" for e
    using full_page_in_entry [of a e] calculation that assms by (auto simp: wf_map_def)
  ultimately have "filter_mset (\<lambda>e. if me_type e = MEMMAP_USABLE then full_page a e
      else in_entry a e) (mset m) = {#}" by (auto simp: filter_mset_eq_mempty_iff)
  moreover have "types_at m a = {#}" using empty by (simp only: types_of_def image_mset_empty)
  then have "page_types m a = {#}" by (simp add: page_types_def)
  ultimately show ?thesis by (simp only: image_mset_empty)
next
  case (add e M)
  have "size (filter_mset (in_entry a) (mset m)) \<le> 1" using assms by (auto simp: wf_map_def types_of_def)
  with add have one: "filter_mset (in_entry a) (mset m) = {#e#}" by simp
  have sub: "(if me_type f = MEMMAP_USABLE then full_page a f else in_entry a f) \<longleftrightarrow>
      in_entry a f \<and> (me_type f = MEMMAP_USABLE \<longrightarrow> full_page a f)" if "f \<in># mset m" for f
    using full_page_in_entry [of a f] that assms by (auto simp: wf_map_def)
  have "filter_mset (\<lambda>e. if me_type e = MEMMAP_USABLE then full_page a e else in_entry a e) (mset m)
      = filter_mset (\<lambda>f. me_type f = MEMMAP_USABLE \<longrightarrow> full_page a f) {#e#}"
    unfolding one [symmetric] filter_filter_mset by (rule filter_mset_cong [OF refl]) (use sub in auto)
  moreover have "list_ex (\<lambda>e. me_type e = MEMMAP_USABLE \<and> full_page a e) m \<longleftrightarrow>
      me_type e = MEMMAP_USABLE \<and> full_page a e"
  proof -
    have "f = e" if "f \<in> set m" "full_page a f" for f
    proof -
      have "f \<in># filter_mset (in_entry a) (mset m)"
        using that full_page_in_entry [of a f] assms by (simp add: wf_map_def)
      then show ?thesis by (simp add: one)
    qed
    moreover have "e \<in> set m" using one by (metis filter_mset_eq_conv insert_subset mset_subset_eqD
          set_mset_add_mset_insert set_mset_mset single_subset_iff union_single_eq_member)
    ultimately show ?thesis by (auto simp: list_ex_iff)
  qed
  ultimately show ?thesis using one by (auto simp: page_types_def types_of_def)
qed

lemma pmm_sanitise_pages:
  assumes "wf_map m" and "low_clean keep m"
  obtains m' where "pmm_sanitise_entries keep True m = Inr m'" and "wf_map m'"
    and "\<And>a. types_at m' a = page_types m a" and "sorted (map me_base m')"
proof -
  from sanitise_overlaps_align [OF assms(1) le0] obtain m1
    where m1: "sanitise_overlaps True m 0 = Inr m1" "wf_map m1"
      and pieces: "mset m1 = (\<Sum>e \<in># mset m. mset (align_pieces e))" by auto
  let ?m2 = "sanitise_low keep m1 0"
  let ?m = "merge_entries (sort_entries ?m2 0) 0"
  from m1(2) have wfe: "\<forall>e \<in> set m1. wf_entry e" by (simp add: wf_map_def)
  then have nw: "\<forall>e \<in> set m1. no_wrap e" by (simp add: wf_entry_no_wrap)
  note low = sanitise_low_types [OF nw, of keep]
  have set: "set (sort_entries ?m2 0) = set ?m2" by (metis mset_sort_entries set_mset_mset)
  have t1: "types_at m1 a = page_types m a" for a
    unfolding pieces using assms(1)
    by (subst sum_align_pieces) (simp_all add: wf_map_def page_types_filter [OF assms(1)])
  have lowid: "low_types keep a (page_types m a) = page_types m a" for a
    using assms(2) low_clean_usable [OF assms(2)] by (simp add: page_types_def low_clean_def)
  have ty: "types_at ?m a = page_types m a" for a
    by (simp add: merge_entries_types(1) set low(1,2) mset_sort_entries t1 lowid)
  have "size (types_at ?m a) \<le> 1" for a
    using m1(2) unfolding ty t1 [symmetric] by (simp add: wf_map_def)
  moreover have "\<forall>e \<in> set ?m. wf_entry e" by (rule merge_entries_wf) (simp add: set low(3) wfe)
  ultimately have "wf_map ?m" by (simp add: wf_map_def)
  moreover have "sorted (map me_base ?m)"
    using sorted_merge_entries [OF sorted_sort_entries] by blast
  moreover have "pmm_sanitise_entries keep True m = Inr ?m"
    by (simp add: pmm_sanitise_entries_def m1)
  ultimately show ?thesis using ty that by blast
qed

section \<open>Usable memory in a range\<close>

definition overlap :: "u64 \<Rightarrow> u64 \<Rightarrow> memmap_entry \<Rightarrow> nat" where
  "overlap base top0 e = card {a. base \<le> a \<and> a < top0 \<and> in_entry a e}"

lemma card_word_range: "card {a :: u64. x \<le> a \<and> a < y} = unat y - unat x"
proof -
  have img: "unat ` {a :: u64. x \<le> a \<and> a < y} = {unat x ..< unat y}"
  proof safe
    fix k assume k: "k \<in> {unat x ..< unat y}"
    then have "k < 2 ^ LENGTH(64)" using u64_bound [of y] by simp
    then have "unat (of_nat k :: u64) = k" by (rule unat_of_nat_small)
    with k show "k \<in> unat ` {a :: u64. x \<le> a \<and> a < y}"
      by (intro image_eqI [of _ _ "of_nat k"]) (simp_all add: word_le_nat_alt word_less_nat_alt)
  next
    fix a :: u64 assume "x \<le> a" "a < y"
    then show "unat a \<in> {unat x ..< unat y}" by (simp add: word_le_nat_alt word_less_nat_alt)
  qed
  have "inj_on unat {a :: u64. x \<le> a \<and> a < y}" by (simp add: inj_on_def word_unat_eq_iff)
  from card_image [OF this] show ?thesis by (simp add: img)
qed

lemma overlap_value:
  "overlap base top0 e = (if me_base e < top0 \<and> base < me_top e
     then unat ((if me_top e < top0 then me_top e else top0) - (if base < me_base e then me_base e else base))
     else 0)"
  if "wf_entry e" and "base < top0"
proof -
  let ?lo = "if base < me_base e then me_base e else base"
  let ?hi = "if me_top e < top0 then me_top e else top0"
  have "{a. base \<le> a \<and> a < top0 \<and> in_entry a e} = {a. ?lo \<le> a \<and> a < ?hi}"
    by (auto simp: in_entry_def)
  then have "overlap base top0 e = unat ?hi - unat ?lo" by (simp only: overlap_def card_word_range)
  moreover have "unat (?hi - ?lo) = unat ?hi - unat ?lo" if "me_base e < top0 \<and> base < me_top e"
    by (rule unat_sub_nowrap) (use that \<open>base < top0\<close> \<open>wf_entry e\<close> in \<open>auto simp: wf_entry_def\<close>)
  moreover have "unat ?hi - unat ?lo = 0" if "\<not> (me_base e < top0 \<and> base < me_top e)"
    using that by (auto simp: word_less_nat_alt)
  ultimately show ?thesis by simp
qed

lemma overlap_le: "overlap base top0 e \<le> unat top0 - unat base"
proof -
  have "overlap base top0 e \<le> card {a. base \<le> a \<and> a < top0}"
    unfolding overlap_def by (rule card_mono) auto
  then show ?thesis by (simp only: card_word_range)
qed

definition ram_total :: "firmware \<Rightarrow> u64 \<Rightarrow> u64 \<Rightarrow> memmap_entry list \<Rightarrow> nat" where
  "ram_total fw base top0 m = (\<Sum>e \<leftarrow> m. if is_ram_type fw (me_type e) then overlap base top0 e else 0)"

lemma full_overlap_total:
  assumes "full_overlap_check base top0 (me_base e) (me_top e)"
  shows "overlap base top0 e = unat top0 - unat base"
proof -
  have "{a. base \<le> a \<and> a < top0 \<and> in_entry a e} = {a. base \<le> a \<and> a < top0}"
    using assms by (auto simp: full_overlap_check_def in_entry_def)
  then show ?thesis by (simp only: overlap_def card_word_range)
qed

lemma usable_scan_total:
  assumes "\<forall>e \<in> set m. wf_entry e" and "base < top0" and "ram_total fw base top0 m \<le> unat rem"
    and "rem \<noteq> 0" and "rem \<le> top0 - base"
  shows "usable_scan fw base top0 rem m \<longleftrightarrow> ram_total fw base top0 m = unat rem"
  using assms(1,3-5)
proof (induction m arbitrary: rem)
  case Nil
  then show ?case by (simp add: ram_total_def unat_gt_0)
next
  case (Cons e m)
  show ?case
  proof (cases "is_ram_type fw (me_type e)")
    case False
    with Cons show ?thesis by (simp add: ram_total_def)
  next
    case ram: True
    let ?o = "overlap base top0 e"
    from ram have tot: "ram_total fw base top0 (e # m) = ?o + ram_total fw base top0 m"
      by (simp add: ram_total_def)
    have wf: "wf_entry e" using Cons.prems(1) by simp
    note ov = overlap_value [OF wf assms(2)]
    have N: "unat (top0 - base) = unat top0 - unat base"
      by (rule unat_sub_nowrap) (use assms(2) in simp)
    show ?thesis
    proof (cases "full_overlap_check base top0 (me_base e) (me_top e)")
      case True
      with ram full_overlap_total [OF True] Cons.prems(2,4) tot N show ?thesis
        by (simp add: Let_def word_le_nat_alt)
    next
      case False
      show ?thesis
      proof (cases "me_base e < top0 \<and> base < me_top e")
        case True
        let ?r = "rem - of_nat ?o"
        have "?o \<le> unat rem" using Cons.prems(2) tot by linarith
        moreover have o64: "unat (of_nat ?o :: u64) = ?o"
          using overlap_le [of base top0 e] u64_bound [of top0] by (intro unat_of_nat_small) simp
        ultimately have r: "unat ?r = unat rem - ?o"
          by (subst unat_sub_nowrap) (simp_all add: word_le_nat_alt)
        have scan: "usable_scan fw base top0 rem (e # m) \<longleftrightarrow> ?r = 0 \<or> usable_scan fw base top0 ?r m"
          using ram False True by (simp add: Let_def ov)
        have z: "?r = 0 \<longleftrightarrow> unat rem = ?o" using r \<open>?o \<le> unat rem\<close> by (simp add: word_unat_eq_iff)
        have "?r \<le> top0 - base" using Cons.prems(4) r by (simp add: word_le_nat_alt)
        then have "?r \<noteq> 0 \<Longrightarrow> usable_scan fw base top0 ?r m \<longleftrightarrow> ram_total fw base top0 m = unat rem - ?o"
          using Cons.IH [of ?r] Cons.prems(1,2) tot r by simp
        then show ?thesis unfolding scan tot z using Cons.prems(2) tot \<open>?o \<le> unat rem\<close> z by auto
      next
        case None: False
        then have "?o = 0" unfolding ov by (rule if_not_P)
        with None ram False Cons tot show ?thesis by (auto simp: Let_def)
      qed
    qed
  qed
qed

lemma ram_total_count:
  "ram_total fw base top0 m
     = (\<Sum>a \<in> {a. base \<le> a \<and> a < top0}. size (filter_mset (is_ram_type fw) (types_at m a)))"
proof (induction m)
  case (Cons e m)
  let ?A = "{a. base \<le> a \<and> a < top0}"
  have "overlap base top0 e = (\<Sum>a \<in> ?A. if in_entry a e then 1 else 0)"
    by (simp add: overlap_def conj_assoc flip: sum.inter_filter)
  then have "(if is_ram_type fw (me_type e) then overlap base top0 e else 0)
      = (\<Sum>a \<in> ?A. size (filter_mset (is_ram_type fw) (type_at e a)))"
    by (auto simp: type_at_def intro!: sum.cong)
  with Cons show ?case by (simp add: ram_total_def sum.distrib)
qed (simp add: ram_total_def)

section \<open>The frontiers of contiguous usable memory\<close>

definition usable_at :: "memmap_entry list \<Rightarrow> u64 \<Rightarrow> bool" where
  "usable_at m a \<longleftrightarrow> (\<exists>e \<in> set m. me_type e = MEMMAP_USABLE \<and> in_entry a e)"

lemma info_pass_frontier:
  assumes "info_pass m l u p = (l', u', p')"
  shows "\<forall>a. l \<le> a \<and> a < l' \<longrightarrow> usable_at m a" and "\<forall>a. u \<le> a \<and> a < u' \<longrightarrow> usable_at m a"
    and "\<not> p' \<Longrightarrow> \<not> usable_at m l \<and> \<not> usable_at m u \<and> l' = l \<and> u' = u"
proof -
  have "(\<forall>a. l \<le> a \<and> a < l' \<longrightarrow> usable_at m a) \<and> (\<forall>a. u \<le> a \<and> a < u' \<longrightarrow> usable_at m a)
    \<and> (\<not> p' \<longrightarrow> \<not> p \<and> \<not> usable_at m l \<and> \<not> usable_at m u \<and> l' = l \<and> u' = u)"
    using assms
  proof (induction m arbitrary: l u p)
    case Nil
    then show ?case by (auto simp: usable_at_def)
  next
    case (Cons e m)
    show ?case
    proof (cases "me_type e = MEMMAP_USABLE")
      case False
      then have "usable_at (e # m) a \<longleftrightarrow> usable_at m a" for a by (simp add: usable_at_def)
      with False Cons.IH [of l u p] Cons.prems show ?thesis by simp
    next
      case True
      let ?lo = "me_base e \<le> l \<and> me_top e > l" and ?hi = "me_base e \<le> u \<and> me_top e > u"
      let ?l = "if ?lo then me_top e else l" and ?u = "if ?hi then me_top e else u"
      from True Cons.prems have "info_pass m ?l ?u (p \<or> ?lo \<or> ?hi) = (l', u', p')"
        by (simp add: Let_def)
      note ih = Cons.IH [OF this]
      have ext: "usable_at (e # m) a \<longleftrightarrow> in_entry a e \<or> usable_at m a" for a
        using True by (auto simp: usable_at_def)
      have lo: "usable_at (e # m) a" if "l \<le> a" "a < l'" for a
        using ih that unfolding ext by (cases "?l \<le> a") (auto simp: in_entry_def split: if_splits)
      have hi: "usable_at (e # m) a" if "u \<le> a" "a < u'" for a
        using ih that unfolding ext by (cases "?u \<le> a") (auto simp: in_entry_def split: if_splits)
      have "\<not> p' \<longrightarrow> \<not> p \<and> \<not> usable_at (e # m) l \<and> \<not> usable_at (e # m) u \<and> l' = l \<and> u' = u"
        using ih unfolding ext in_entry_def by (auto split: if_splits)
      with lo hi show ?thesis by blast
    qed
  qed
  then show "\<forall>a. l \<le> a \<and> a < l' \<longrightarrow> usable_at m a" "\<forall>a. u \<le> a \<and> a < u' \<longrightarrow> usable_at m a"
    "\<not> p' \<Longrightarrow> \<not> usable_at m l \<and> \<not> usable_at m u \<and> l' = l \<and> u' = u" by blast+
qed

lemma info_loop_frontier:
  assumes "info_loop m l u = (l', u')"
  shows "l \<le> l' \<and> u \<le> u' \<and> (\<forall>a. l \<le> a \<and> a < l' \<longrightarrow> usable_at m a) \<and> (\<forall>a. u \<le> a \<and> a < u' \<longrightarrow> usable_at m a)
    \<and> \<not> usable_at m l' \<and> \<not> usable_at m u'"
  using assms
proof (induction m l u rule: info_loop.induct)
  case (1 m l u)
  obtain l1 u1 p where pass: "info_pass m l u False = (l1, u1, p)" by (metis prod_cases3)
  note f = info_pass_frontier [OF pass] and mono = info_pass_mono [OF pass]
  show ?case
  proof (cases p)
    case False
    with "1.prems" pass have "l' = l1" "u' = u1" by (simp_all add: info_loop.simps [of m l u])
    with f(3) [OF False] show ?thesis by auto
  next
    case True
    with "1.prems" pass have "info_loop m l1 u1 = (l', u')" by (simp add: info_loop.simps [of m l u])
    from "1.IH" [OF pass [symmetric] refl True this] f(1,2) mono show ?thesis by (meson leI order_trans)
  qed
qed

section \<open>Properties\<close>

definition firmware_map :: "memmap_entry list" where
  "firmware_map =
     [\<lparr>me_base = 0x100000, me_length = 0x9000, me_type = 1\<rparr>,
      \<lparr>me_base = 0, me_length = 0x5800, me_type = 1\<rparr>,
      \<lparr>me_base = 0x5000, me_length = 0x1000, me_type = 2\<rparr>,
      \<lparr>me_base = 0x108000, me_length = 0x8000, me_type = 1\<rparr>]"

text \<open>C5: sanitising an arbitrary firmware map whose entries do not wrap around, when it does not
  panic, gives every address exactly its non-usable types if it has any, one usable type if only
  usable entries (however many) held it, and nothing otherwise, except that usable memory below
  the first page is dropped when configured; the entries come out sorted by base and no two
  neighbours that could be merged are left.\<close>

theorem sanitise_resolves_overlaps:
  assumes "\<forall>e \<in> set m. no_wrap e" and "pmm_sanitise_entries keep False m = Inr m'"
  shows "(\<forall>a. types_at m' a = low_types keep a (resolve (types_at m a)))
    \<and> sorted (map me_base m') \<and> (\<forall>k. k + 1 < length m' \<longrightarrow> \<not> touching (m' ! k) (m' ! (k + 1)))"
  using pmm_sanitise_resolve [OF assms(2,1)] by blast

theorem sanitise_resolves_overlaps_witness:
  "\<exists>m'. pmm_sanitise_entries False False firmware_map = Inr m' \<and> length m' = 3
    \<and> types_at m' 0x5400 = {#2#} \<and> types_at m' 0x108800 = {#1#} \<and> types_at m' 0x800 = {#}"
proof -
  have "case pmm_sanitise_entries False False firmware_map of Inl x \<Rightarrow> False | Inr m' \<Rightarrow> length m' = 3"
    by code_simp
  then obtain m' where run: "pmm_sanitise_entries False False firmware_map = Inr m'" "length m' = 3"
    by (auto split: sum.splits)
  have "\<forall>e \<in> set firmware_map. no_wrap e" by (simp add: firmware_map_def no_wrap_def)
  from sanitise_resolves_overlaps [OF this run(1)]
  have "types_at m' a = low_types False a (resolve (types_at firmware_map a))" for a by blast
  moreover have "low_types False 0x5400 (resolve (types_at firmware_map 0x5400)) = {#2#}"
    "low_types False 0x108800 (resolve (types_at firmware_map 0x108800)) = {#1#}"
    "low_types False 0x800 (resolve (types_at firmware_map 0x800)) = {#}"
    by (simp_all add: firmware_map_def resolve_def low_types_def types_of_def in_entry_def MEMMAP_USABLE_def)
  ultimately show ?thesis using run by simp
qed

text \<open>C9: the map handed over to the kernel keeps every non-usable type, and an address is usable
  in it exactly when its whole page lies in one usable entry of the allocator's map; it is sorted,
  and allocations are disallowed from then on.\<close>

theorem get_memmap_pages:
  assumes "pmm_inv st"
  shows "\<exists>m st'. get_memmap_bios st = Inr (m, st') \<and> allocations_disallowed st' \<and> memmap st' = m
    \<and> wf_map m \<and> sorted (map me_base m) \<and> (\<forall>a. types_at m a = page_types (memmap st) a)"
proof -
  from assms have "wf_map (memmap st)" "low_clean (pmm_sanitiser_keep_first_page st) (memmap st)"
    by (simp_all add: pmm_inv_def)
  from pmm_sanitise_pages [OF this] obtain m'
    where "pmm_sanitise_entries (pmm_sanitiser_keep_first_page st) True (memmap st) = Inr m'"
      "wf_map m'" "\<forall>a. types_at m' a = page_types (memmap st) a" "sorted (map me_base m')" by metis
  then show ?thesis by (simp add: get_memmap_bios_def sanitise_global_def)
qed

definition unaligned_state :: pmm where
  "unaligned_state = \<lparr>memmap = [\<lparr>me_base = 0x1800, me_length = 0x2000, me_type = 1\<rparr>],
     memmap_max_entries = 8, allocations_disallowed = False,
     pmm_sanitiser_keep_first_page = False, conv_base = 0x1000, ram = (\<lambda>_. 0)\<rparr>"

theorem get_memmap_pages_witness:
  "\<exists>m st'. get_memmap_bios unaligned_state = Inr (m, st') \<and> types_at m 0x1900 = {#}
    \<and> types_at m 0x2fff = {#MEMMAP_USABLE#}"
proof -
  have "pmm_inv unaligned_state"
    by (auto simp: pmm_inv_def unaligned_state_def wf_map_def wf_entry_def in_entry_def types_of_def
        low_clean_def low_types_def word_le_nat_alt word_less_nat_alt)
  from get_memmap_pages [OF this] obtain m st' where "get_memmap_bios unaligned_state = Inr (m, st')"
    "types_at m 0x1900 = page_types (memmap unaligned_state) 0x1900"
    "types_at m 0x2fff = page_types (memmap unaligned_state) 0x2fff" by blast
  moreover have "page_types (memmap unaligned_state) 0x1900 = {#}"
    "page_types (memmap unaligned_state) 0x2fff = {#MEMMAP_USABLE#}"
    by (simp_all add: unaligned_state_def page_types_def types_of_def in_entry_def full_page_def
        MEMMAP_USABLE_def)
  ultimately show ?thesis by simp
qed

text \<open>C13: on a well-formed map, the check for usable memory of a non-empty range says yes exactly
  when every address of the range is held by an entry of real memory, however the range is spread
  over entries.\<close>

theorem check_usable_memory_iff:
  assumes "wf_map m" and "base < top0"
  shows "check_usable_memory fw m base top0 \<longleftrightarrow>
    (\<forall>a. base \<le> a \<and> a < top0 \<longrightarrow> (\<exists>t. types_at m a = {#t#} \<and> is_ram_type fw t))"
proof -
  let ?A = "{a. base \<le> a \<and> a < top0}" and ?n = "\<lambda>a. size (filter_mset (is_ram_type fw) (types_at m a))"
  have N: "unat (top0 - base) = card ?A" unfolding card_word_range
    by (rule unat_sub_nowrap) (use assms(2) in simp)
  have sz: "size (types_at m a) \<le> 1" for a using assms(1) unfolding wf_map_def by blast
  have le1: "?n a \<le> 1" for a by (rule le_trans [OF size_filter_mset_lesseq sz])
  have one: "?n a = 1 \<longleftrightarrow> (\<exists>t. types_at m a = {#t#} \<and> is_ram_type fw t)" for a
  proof -
    from sz [of a] consider "types_at m a = {#}" | t where "types_at m a = {#t#}"
      by (metis One_nat_def le_SucE le_zero_eq size_1_singleton_mset size_eq_0_iff_empty)
    then show ?thesis by cases auto
  qed
  have total: "ram_total fw base top0 m = sum ?n ?A" by (rule ram_total_count)
  have le: "sum ?n ?A \<le> card ?A" using sum_mono [of ?A ?n "\<lambda>_. 1"] le1 by simp
  have "top0 - base \<noteq> 0" using assms(2) by auto
  then have "check_usable_memory fw m base top0 \<longleftrightarrow> sum ?n ?A = card ?A"
    using usable_scan_total [of m base top0 fw "top0 - base"] assms le total N
    by (simp add: check_usable_memory_def wf_map_def)
  also have "\<dots> \<longleftrightarrow> (\<forall>a \<in> ?A. ?n a = 1)"
  proof
    assume eq: "sum ?n ?A = card ?A"
    show "\<forall>a \<in> ?A. ?n a = 1"
    proof (rule ccontr)
      assume "\<not> (\<forall>a \<in> ?A. ?n a = 1)"
      then obtain a where "a \<in> ?A" "?n a \<noteq> 1" by blast
      with le1 [of a] have "a \<in> ?A" "?n a < 1" by linarith+
      then have "sum ?n ?A < sum (\<lambda>_. 1) ?A" by (intro sum_strict_mono_ex1) (simp, use le1 in blast, blast)
      with eq show False by simp
    qed
  qed simp
  finally show ?thesis unfolding one by blast
qed

theorem check_usable_memory_iff_witness:
  "check_usable_memory BIOS [\<lparr>me_base = 0x3000, me_length = 0x2000, me_type = 1\<rparr>,
      \<lparr>me_base = 0x1000, me_length = 0x2000, me_type = 0x1000\<rparr>] 0x1000 0x5000
    \<and> (\<exists>t. types_at [\<lparr>me_base = 0x3000, me_length = 0x2000, me_type = 1\<rparr>,
      \<lparr>me_base = 0x1000, me_length = 0x2000, me_type = 0x1000\<rparr>] 0x3456 = {#t#} \<and> is_ram_type BIOS t)"
proof -
  let ?m = "[\<lparr>me_base = 0x3000, me_length = 0x2000, me_type = 1\<rparr>,
      \<lparr>me_base = 0x1000, me_length = 0x2000, me_type = 0x1000\<rparr>] :: memmap_entry list"
  have "wf_map ?m"
    by (auto simp: wf_map_def wf_entry_def in_entry_def types_of_def word_le_nat_alt word_less_nat_alt)
  moreover have "check_usable_memory BIOS ?m 0x1000 0x5000" by code_simp
  ultimately show ?thesis using check_usable_memory_iff [of ?m "0x1000" "0x5000" BIOS] by simp
qed

text \<open>C14: the upper and lower memory sizes that are reported to kernels end at the first address
  from one megabyte, respectively from zero, that no usable entry holds, whatever the order of the
  entries; every address before it is usable.\<close>

theorem mmap_get_info_contiguous:
  "(\<exists>lower_end. lowermem (mmap_get_info m) = min lower_end 0x100000
      \<and> (\<forall>a < lower_end. usable_at m a) \<and> \<not> usable_at m lower_end)
    \<and> (\<forall>a. 0x100000 \<le> a \<and> a < 0x100000 + uppermem (mmap_get_info m) \<longrightarrow> usable_at m a)
    \<and> \<not> usable_at m (0x100000 + uppermem (mmap_get_info m))"
proof -
  obtain l u where run: "info_loop m 0 0x100000 = (l, u)" by fastforce
  note f = info_loop_frontier [OF run]
  have "lowermem (mmap_get_info m) = min l 0x100000"
    by (simp add: mmap_get_info_def run min_def not_less [symmetric])
  moreover have "0x100000 + uppermem (mmap_get_info m) = u" by (simp add: mmap_get_info_def run)
  ultimately show ?thesis using f by auto
qed

theorem mmap_get_info_contiguous_witness:
  "uppermem (mmap_get_info firmware_map) = 0x10000 \<and> usable_at firmware_map 0x10ffff
    \<and> \<not> usable_at firmware_map 0x110000"
proof -
  have u: "uppermem (mmap_get_info firmware_map) = 0x10000" by code_simp
  note c = mmap_get_info_contiguous [of firmware_map, unfolded u]
  from c have "(0x100000::u64) \<le> 0x10ffff \<and> (0x10ffff::u64) < 0x100000 + 0x10000 \<longrightarrow> usable_at firmware_map 0x10ffff"
    by blast
  with u c show ?thesis by simp
qed

end
