(* ===== verification/Guid.thy ===== *)
theory Guid
  imports Libc
begin

text \<open>
  Globally unique identifiers, \<^verbatim>\<open>common/lib/guid.c\<close>: the validity check, the two readings of
  the text (big-endian, and the mixed-endian one of disks) and the printing. The structure is the
  list of its 16 bytes; its fields \<^verbatim>\<open>a\<close>, \<^verbatim>\<open>b\<close> and \<^verbatim>\<open>c\<close> are little-endian in it.
\<close>

section \<open>Operations\<close>

function guid_scan :: "nat \<Rightarrow> string \<Rightarrow> bool" where
  "guid_scan i s =
     (if i = 36 then chd s = NUL
      else if i = 8 \<or> i = 13 \<or> i = 18 \<or> i = 23
      then (if chd s \<noteq> CHR ''-'' then False else guid_scan (Suc i) (tl s))
      else if digit_to_int (chd s) = - 1 then False else guid_scan (Suc i) (tl s))"
  by pat_completeness auto
termination
  by (relation "measure (\<lambda>(i, s). length s)")
    (auto simp: chd_def digit_to_int_def schar_def uchar_def split: list.splits)

declare guid_scan.simps [simp del]

definition is_valid_guid :: "string \<Rightarrow> bool" where
  "is_valid_guid s = guid_scan 0 s"

text \<open>A cluster of digits as bytes: pairs of digits in order, or the pairs from the last to the
  first, each with its low digit read first.\<close>

fun guid_convert_be_cluster :: "string \<Rightarrow> u8 list" where
  "guid_convert_be_cluster (h # l # s) =
     (push_bit 4 (of_int (digit_to_int h)) OR of_int (digit_to_int l)) # guid_convert_be_cluster s"
| "guid_convert_be_cluster s = []"

fun guid_le_digits :: "string \<Rightarrow> u8 list" where
  "guid_le_digits (l # h # s) =
     (of_int (digit_to_int l) OR push_bit 4 (of_int (digit_to_int h))) # guid_le_digits s"
| "guid_le_digits s = []"

definition guid_convert_le_cluster :: "string \<Rightarrow> u8 list" where
  "guid_convert_le_cluster s = guid_le_digits (rev s)"

definition cluster :: "string \<Rightarrow> nat \<Rightarrow> nat \<Rightarrow> string" where
  "cluster s off len = take len (drop off s)"

definition string_to_guid_be :: "string \<Rightarrow> u8 list option" where
  "string_to_guid_be s =
     (if \<not> is_valid_guid s then None
      else Some (guid_convert_be_cluster (cluster s 0 8) @ guid_convert_be_cluster (cluster s 9 4)
        @ guid_convert_be_cluster (cluster s 14 4) @ guid_convert_be_cluster (cluster s 19 4)
        @ guid_convert_be_cluster (cluster s 24 12)))"

definition string_to_guid_mixed :: "string \<Rightarrow> u8 list option" where
  "string_to_guid_mixed s =
     (if \<not> is_valid_guid s then None
      else Some (guid_convert_le_cluster (cluster s 0 8) @ guid_convert_le_cluster (cluster s 9 4)
        @ guid_convert_le_cluster (cluster s 14 4) @ guid_convert_be_cluster (cluster s 19 4)
        @ guid_convert_be_cluster (cluster s 24 12)))"

definition uint_to_hex :: "u32 \<Rightarrow> nat \<Rightarrow> string" where
  "uint_to_hex num len =
     map (\<lambda>i. ''0123456789abcdef'' ! unat (drop_bit ((len - 1 - i) * 4) num AND 0xf)) [0..<len]"

record guid =
  guid_a :: u32
  guid_b :: u16
  guid_c :: u16
  guid_d :: "u8 list"

definition guid_to_string :: "guid \<Rightarrow> string" where
  "guid_to_string g =
     uint_to_hex (guid_a g) 8 @ ''-'' @ uint_to_hex (ucast (guid_b g)) 4 @ ''-''
     @ uint_to_hex (ucast (guid_c g)) 4 @ ''-''
     @ uint_to_hex (ucast (guid_d g ! 0)) 2 @ uint_to_hex (ucast (guid_d g ! 1)) 2 @ ''-''
     @ uint_to_hex (ucast (guid_d g ! 2)) 2 @ uint_to_hex (ucast (guid_d g ! 3)) 2
     @ uint_to_hex (ucast (guid_d g ! 4)) 2 @ uint_to_hex (ucast (guid_d g ! 5)) 2
     @ uint_to_hex (ucast (guid_d g ! 6)) 2 @ uint_to_hex (ucast (guid_d g ! 7)) 2"

text \<open>The bytes of the structure in memory.\<close>

definition le_bytes32 :: "u32 \<Rightarrow> u8 list" where
  "le_bytes32 x = map (\<lambda>i. ucast (drop_bit (8 * i) x)) [0..<4]"

definition le_bytes16 :: "u16 \<Rightarrow> u8 list" where
  "le_bytes16 x = map (\<lambda>i. ucast (drop_bit (8 * i) x)) [0..<2]"

definition guid_bytes :: "guid \<Rightarrow> u8 list" where
  "guid_bytes g = le_bytes32 (guid_a g) @ le_bytes16 (guid_b g) @ le_bytes16 (guid_c g) @ guid_d g"

section \<open>Printing and reading\<close>

lemma and_15: "(w :: u32) AND 0xf = take_bit 4 w"
proof -
  have "mask 4 = (0xf :: u32)" by code_simp
  then show ?thesis by (simp add: take_bit_eq_mask)
qed

lemma digit_to_int_nibble: "digit_to_int (''0123456789abcdef'' ! unat (w AND 0xf)) = uint (w AND 0xf)"
  for w :: u32
proof -
  have all: "\<forall>n \<in> set [0..<16]. digit_to_int (''0123456789abcdef'' ! n) = int n" by code_simp
  have "unat (take_bit 4 w) < 2 ^ 4" by (rule take_bit_nat_less_exp [of 4 "unat w", folded unsigned_take_bit_eq]) 
  with all show ?thesis by (simp add: and_15)
qed

lemma nibble_ne [simp]: "digit_to_int (''0123456789abcdef'' ! unat (w AND 0xf)) \<noteq> - 1" for w :: u32
  unfolding digit_to_int_nibble using uint_ge_0 [of "w AND 0xf"] by linarith

lemma nibbles_byte:
  fixes x :: u32
  shows "push_bit 4 (of_int (uint (drop_bit (k + 4) x AND 0xf))) OR of_int (uint (drop_bit k x AND 0xf))
    = (ucast (drop_bit k x) :: u8)"
  by (rule bit_word_eqI) (auto simp: and_15 bit_simps)

lemma uint_to_hex_scan:
  "guid_scan i (uint_to_hex x n @ s) = guid_scan (i + n) s"
  if "\<forall>k \<in> {i ..< i + n}. k \<notin> {8, 13, 18, 23, 36}"
proof -
  have "guid_scan i (map (\<lambda>k. ''0123456789abcdef'' ! unat (f k AND 0xf)) ks @ s) = guid_scan (i + length ks) s"
    if "\<forall>k \<in> {i ..< i + length ks}. k \<notin> {8, 13, 18, 23, 36}" for ks and f :: "nat \<Rightarrow> u32"
    using that
  proof (induction ks arbitrary: i)
    case (Cons k ks)
    then have "i \<notin> {8, 13, 18, 23, 36}" by auto
    moreover have "guid_scan (Suc i) (map (\<lambda>k. ''0123456789abcdef'' ! unat (f k AND 0xf)) ks @ s)
        = guid_scan (Suc i + length ks) s"
      by (rule Cons.IH) (use Cons.prems in auto)
    ultimately show ?case by (simp add: guid_scan.simps [of i])
  qed simp
  from this [of "[0..<n]" "\<lambda>k. drop_bit ((n - 1 - k) * 4) x"] that show ?thesis
    by (simp add: uint_to_hex_def)
qed

lemma guid_scan_dash: "i \<in> {8, 13, 18, 23} \<Longrightarrow> guid_scan i (CHR ''-'' # s) = guid_scan (Suc i) s"
  by (auto simp: guid_scan.simps [of i])

lemma length_uint_to_hex [simp]: "length (uint_to_hex x n) = n"
  by (simp add: uint_to_hex_def)

lemma be_cluster_append:
  "even (length s) \<Longrightarrow> guid_convert_be_cluster (s @ t) = guid_convert_be_cluster s @ guid_convert_be_cluster t"
  by (induction s rule: guid_convert_be_cluster.induct) auto

lemma le_digits_append:
  "even (length s) \<Longrightarrow> guid_le_digits (s @ t) = guid_le_digits s @ guid_le_digits t"
  by (induction s rule: guid_le_digits.induct) auto

lemma le_cluster_rev: "even (length s) \<Longrightarrow> guid_convert_le_cluster s = rev (guid_convert_be_cluster s)"
  unfolding guid_convert_le_cluster_def
  by (induction s rule: guid_convert_be_cluster.induct) (auto simp: le_digits_append or.commute)

lemma be_cluster_hex:
  "guid_convert_be_cluster (uint_to_hex x 2) = [ucast x]"
  "guid_convert_be_cluster (uint_to_hex x 4) = [ucast (drop_bit 8 x), ucast x]"
  "guid_convert_be_cluster (uint_to_hex x 8)
     = [ucast (drop_bit 24 x), ucast (drop_bit 16 x), ucast (drop_bit 8 x), ucast x]"
  using nibbles_byte [of 0 x] nibbles_byte [of 8 x] nibbles_byte [of 16 x] nibbles_byte [of 24 x]
  by (simp_all add: uint_to_hex_def upt_rec digit_to_int_nibble)

lemma guid_valid: "is_valid_guid (guid_to_string g)"
  using uint_to_hex_scan [of 34 2 "ucast (guid_d g ! 7)" "[]"]
  by (simp add: is_valid_guid_def guid_to_string_def uint_to_hex_scan guid_scan_dash)
    (simp add: guid_scan.simps)

lemma guid_clusters:
  "cluster (guid_to_string g) 0 8 = uint_to_hex (guid_a g) 8"
  "cluster (guid_to_string g) 9 4 = uint_to_hex (ucast (guid_b g)) 4"
  "cluster (guid_to_string g) 14 4 = uint_to_hex (ucast (guid_c g)) 4"
  "cluster (guid_to_string g) 19 4
     = uint_to_hex (ucast (guid_d g ! 0)) 2 @ uint_to_hex (ucast (guid_d g ! 1)) 2"
  "cluster (guid_to_string g) 24 12
     = uint_to_hex (ucast (guid_d g ! 2)) 2 @ uint_to_hex (ucast (guid_d g ! 3)) 2
     @ uint_to_hex (ucast (guid_d g ! 4)) 2 @ uint_to_hex (ucast (guid_d g ! 5)) 2
     @ uint_to_hex (ucast (guid_d g ! 6)) 2 @ uint_to_hex (ucast (guid_d g ! 7)) 2"
  by (simp_all add: cluster_def guid_to_string_def)

lemma casts:
  "ucast (drop_bit k (ucast b :: u32)) = (ucast (drop_bit k b) :: u8)" for b :: u16
  by (rule bit_word_eqI) (auto simp: bit_simps dest: bit_imp_le_length)

lemma cast_byte: "ucast (ucast b :: u32) = b" for b :: u8
  by (rule bit_word_eqI) (auto simp: bit_simps)

lemma nth_8: "length d = 8 \<Longrightarrow> [d ! 0, d ! 1, d ! 2, d ! 3, d ! 4, d ! 5, d ! 6, d ! 7] = d"
  by (auto simp: numeral_eq_Suc length_Suc_conv)

section \<open>Properties\<close>

text \<open>C32: reading back the printed text of an identifier, in the mixed-endian reading that disks
  use, gives exactly the bytes of the structure; in particular the printed text is always
  accepted.\<close>

theorem guid_round_trip:
  assumes "length (guid_d g) = 8"
  shows "string_to_guid_mixed (guid_to_string g) = Some (guid_bytes g)"
proof -
  have a: "guid_convert_le_cluster (uint_to_hex (guid_a g) 8) = le_bytes32 (guid_a g)"
    by (simp add: le_cluster_rev be_cluster_hex le_bytes32_def upt_rec)
  have bc: "guid_convert_le_cluster (uint_to_hex (ucast x) 4) = le_bytes16 x" for x :: u16
    using casts [of 0 x] casts [of 8 x]
    by (simp add: le_cluster_rev be_cluster_hex le_bytes16_def upt_rec)
  have d: "guid_convert_be_cluster (cluster (guid_to_string g) 19 4)
      @ guid_convert_be_cluster (cluster (guid_to_string g) 24 12) = guid_d g"
    using nth_8 [OF assms] by (simp add: guid_clusters be_cluster_append be_cluster_hex cast_byte)
  show ?thesis
    using d by (simp add: string_to_guid_mixed_def guid_valid guid_clusters(1-3) a bc guid_bytes_def)
qed

theorem guid_round_trip_witness:
  "string_to_guid_mixed ''12345678-9abc-def0-0102-030405060708''
     = Some [0x78, 0x56, 0x34, 0x12, 0xbc, 0x9a, 0xf0, 0xde, 1, 2, 3, 4, 5, 6, 7, 8]"
proof -
  let ?g = "\<lparr>guid_a = 0x12345678, guid_b = 0x9abc, guid_c = 0xdef0,
    guid_d = [1, 2, 3, 4, 5, 6, 7, 8]\<rparr> :: guid"
  have "guid_to_string ?g = ''12345678-9abc-def0-0102-030405060708''" by code_simp
  moreover have "guid_bytes ?g = [0x78, 0x56, 0x34, 0x12, 0xbc, 0x9a, 0xf0, 0xde, 1, 2, 3, 4, 5, 6, 7, 8]"
    by code_simp
  ultimately show ?thesis using guid_round_trip [of ?g] by simp
qed

end
