(* ===== verification/Print.thy ===== *)
theory Print
  imports Libc
begin

text \<open>
  The formatted output of \<^verbatim>\<open>common/lib/print.s2.c\<close>. The print buffer with its index is the list
  of the characters written so far; the variable arguments are a list of tagged values, and a
  directive that finds no argument of its type, or a format that ends in a bare percent sign
  (where the code reads past the terminating zero), has no result. Handing the finished buffer to
  the terminals and the serial port is output only.
\<close>

section \<open>Digits\<close>

definition PRINT_BUF_MAX :: nat where "PRINT_BUF_MAX = 4096"

definition base_digits :: string where
  "base_digits = ''0123456789abcdef''"

definition prn_raw :: "string \<Rightarrow> char \<Rightarrow> string" where
  "prn_raw b c = (if length b < PRINT_BUF_MAX - 1 then b @ [c] else b)"

definition prn_char :: "string \<Rightarrow> char \<Rightarrow> string" where
  "prn_char b c = prn_raw (if c = CHR 0x0A then prn_raw b CHR 0x0D else b) c"

fun prn_str :: "string \<Rightarrow> string \<Rightarrow> string" where
  "prn_str b [] = b"
| "prn_str b (c # s) = (if c = NUL then b else prn_str (prn_char b c) s)"

definition prn_nstr :: "string \<Rightarrow> string \<Rightarrow> nat \<Rightarrow> string" where
  "prn_nstr b s len = foldl prn_char b (take len s)"

text \<open>The loops that fill a buffer of digits from its end; the digits from \<^verbatim>\<open>buf + i\<close> on are the
  accumulator.\<close>

function dec_digits :: "u64 \<Rightarrow> string \<Rightarrow> string" where
  "dec_digits x acc =
     (if x = 0 then acc else dec_digits (x div 10) (char_of (unat (x mod 10) + 0x30) # acc))"
  by pat_completeness auto
termination
  by (relation "measure (\<lambda>(x, acc). unat x)") (auto simp: unat_div word_unat_eq_iff)

function hex_digits :: "u64 \<Rightarrow> string \<Rightarrow> string" where
  "hex_digits x acc =
     (if x = 0 then acc else hex_digits (x div 16) (base_digits ! unat (x mod 16) # acc))"
  by pat_completeness auto
termination
  by (relation "measure (\<lambda>(x, acc). unat x)") (auto simp: unat_div word_unat_eq_iff)

declare dec_digits.simps [simp del] hex_digits.simps [simp del]

definition prn_i :: "string \<Rightarrow> u64 \<Rightarrow> string" where
  "prn_i b x =
     (if x = 0 then prn_char b CHR ''0''
      else
        let sign = (x <s 0);
            ux = (if sign then 0 - x else x)
        in prn_str b ((if sign then ''-'' else []) @ dec_digits ux []))"

definition prn_ui :: "string \<Rightarrow> u64 \<Rightarrow> string" where
  "prn_ui b x = (if x = 0 then prn_char b CHR ''0'' else prn_str b (dec_digits x []))"

definition prn_x :: "string \<Rightarrow> u64 \<Rightarrow> string" where
  "prn_x b x =
     (if x = 0 then prn_str b ''0x0'' else prn_str (prn_str b ''0x'') (hex_digits x []))"

section \<open>Formats\<close>

datatype va_value =
    VStr "string option" \<comment> \<open>a string pointer, possibly null\<close>
  | VSize u64
  | VI32 u32
  | VU32 u32
  | VI64 u64
  | VU64 u64
  | VChar char

text \<open>The part of a string before its last hash sign, as \<^verbatim>\<open>%#\<close> prints it.\<close>

definition before_hash :: "string \<Rightarrow> string option" where
  "before_hash s =
     (if CHR ''#'' \<in> set s then Some (rev (tl (dropWhile (\<lambda>c. c \<noteq> CHR ''#'') (rev s)))) else None)"

fun vprint_directive :: "string \<Rightarrow> char \<Rightarrow> va_value list \<Rightarrow> (string \<times> va_value list) option" where
  "vprint_directive b c args =
     (if c = CHR ''s'' then
        (case args of VStr s # args' \<Rightarrow>
           Some (prn_str b (case s of None \<Rightarrow> ''(null)'' | Some str \<Rightarrow> str), args') | _ \<Rightarrow> None)
      else if c = CHR ''S'' then
        (case args of VStr s # VSize n # args' \<Rightarrow>
           Some ((case s of None \<Rightarrow> prn_str b ''(null)'' | Some str \<Rightarrow> prn_nstr b str (unat n)), args')
         | _ \<Rightarrow> None)
      else if c = CHR ''d'' then
        (case args of VI32 x # args' \<Rightarrow> Some (prn_i b (scast x), args') | _ \<Rightarrow> None)
      else if c = CHR ''u'' then
        (case args of VU32 x # args' \<Rightarrow> Some (prn_ui b (ucast x), args') | _ \<Rightarrow> None)
      else if c = CHR ''x'' then
        (case args of VU32 x # args' \<Rightarrow> Some (prn_x b (ucast x), args') | _ \<Rightarrow> None)
      else if c = CHR ''D'' then
        (case args of VI64 x # args' \<Rightarrow> Some (prn_i b x, args') | _ \<Rightarrow> None)
      else if c = CHR ''U'' then
        (case args of VU64 x # args' \<Rightarrow> Some (prn_ui b x, args') | _ \<Rightarrow> None)
      else if c = CHR ''X'' then
        (case args of VU64 x # args' \<Rightarrow> Some (prn_x b x, args') | _ \<Rightarrow> None)
      else if c = CHR ''p'' then
        (case args of VU64 x # args' \<Rightarrow> Some (prn_x b x, args') | _ \<Rightarrow> None)
      else if c = CHR ''c'' then
        (case args of VChar x # args' \<Rightarrow> Some (prn_char b x, args') | _ \<Rightarrow> None)
      else if c = CHR ''#'' then
        (case args of VStr (Some str) # args' \<Rightarrow>
           Some ((case before_hash str of Some t \<Rightarrow> prn_nstr b t (length t) | None \<Rightarrow> prn_str b str), args')
         | _ \<Rightarrow> None)
      else Some (prn_char b CHR ''?'', args))"

fun vprint_from :: "string \<Rightarrow> string \<Rightarrow> va_value list \<Rightarrow> string option" where
  "vprint_from b [] args = Some b"
| "vprint_from b (c # fmt) args =
     (if c \<noteq> CHR ''%'' then vprint_from (prn_char b c) fmt args
      else
        (case fmt of [] \<Rightarrow> None
         | d # fmt' \<Rightarrow>
             (case vprint_directive b d args of
                None \<Rightarrow> None
              | Some (b', args') \<Rightarrow> vprint_from b' fmt' args')))"

definition vprint :: "string \<Rightarrow> va_value list \<Rightarrow> string option" where
  "vprint fmt args = vprint_from [] fmt args"

section \<open>The buffer never overflows\<close>

lemma length_prn_raw: "length b < PRINT_BUF_MAX \<Longrightarrow> length (prn_raw b c) < PRINT_BUF_MAX"
  by (simp add: prn_raw_def PRINT_BUF_MAX_def)

lemma length_prn_char: "length b < PRINT_BUF_MAX \<Longrightarrow> length (prn_char b c) < PRINT_BUF_MAX"
  by (simp add: prn_char_def length_prn_raw)

lemma length_prn_str: "length b < PRINT_BUF_MAX \<Longrightarrow> length (prn_str b s) < PRINT_BUF_MAX"
  by (induction b s rule: prn_str.induct) (simp_all add: length_prn_char)

lemma length_prn_nstr: "length b < PRINT_BUF_MAX \<Longrightarrow> length (prn_nstr b s n) < PRINT_BUF_MAX"
proof -
  have "length b < PRINT_BUF_MAX \<Longrightarrow> length (foldl prn_char b t) < PRINT_BUF_MAX" for t
    by (induction t arbitrary: b) (simp_all add: length_prn_char)
  then show "length b < PRINT_BUF_MAX \<Longrightarrow> length (prn_nstr b s n) < PRINT_BUF_MAX"
    by (simp add: prn_nstr_def)
qed

lemmas prn_lengths = length_prn_char length_prn_str length_prn_nstr

lemma length_vprint_directive:
  assumes "vprint_directive b c args = Some (b', args')" and "length b < PRINT_BUF_MAX"
  shows "length b' < PRINT_BUF_MAX"
  using assms
  by (auto simp: prn_lengths prn_i_def prn_ui_def prn_x_def Let_def
      split: if_splits list.splits va_value.splits option.splits)

lemma length_vprint_from:
  "vprint_from b fmt args = Some b' \<Longrightarrow> length b < PRINT_BUF_MAX \<Longrightarrow> length b' < PRINT_BUF_MAX"
proof (induction b fmt args rule: vprint_from.induct)
  case (2 b c fmt args)
  show ?case
  proof (cases "c = CHR ''%''")
    case True
    with "2.prems"(1) obtain d fmt' b1 args' where "fmt = d # fmt'"
      "vprint_directive b d args = Some (b1, args')" "vprint_from b1 fmt' args' = Some b'"
      by (auto simp del: vprint_directive.simps split: list.splits option.splits)
    with "2.IH"(2) [OF _ this(1) this(2) refl this(3)] True "2.prems"(2)
      length_vprint_directive [OF this(2)] show ?thesis by simp
  next
    case False
    with "2.IH"(1) "2.prems" show ?thesis by (simp add: length_prn_char)
  qed
qed simp

section \<open>Printed numbers read back\<close>

lemma prn_str_plain:
  assumes "list_all (\<lambda>c. c \<noteq> NUL \<and> c \<noteq> CHR 0x0A) s" and "length b + length s < PRINT_BUF_MAX"
  shows "prn_str b s = b @ s"
  using assms by (induction s arbitrary: b) (simp_all add: prn_char_def prn_raw_def)

lemma digit_to_int_dec: "n < 10 \<Longrightarrow> digit_to_int (char_of (n + 0x30)) = int n"
proof -
  assume "n < 10"
  then have "uchar (char_of (n + 0x30)) = int n + 48" by (simp add: uchar_of_nat of_char_of)
  with \<open>n < 10\<close> show ?thesis by (simp add: digit_to_int_def schar_def uchar_def)
qed

lemma digit_to_int_hex: "n < 16 \<Longrightarrow> digit_to_int (base_digits ! n) = int n"
proof -
  have "\<forall>n \<in> set [0..<16]. digit_to_int (base_digits ! n) = int n" by code_simp
  then show "n < 16 \<Longrightarrow> digit_to_int (base_digits ! n) = int n" by simp
qed

lemma digit_in_dec: "(n :: nat) < 10 \<Longrightarrow> digit_in 10 (char_of (n + 0x30))"
  by (simp add: digit_in_def digit_to_int_dec)

lemma digit_in_hex: "n < 16 \<Longrightarrow> digit_in 16 (base_digits ! n)"
  by (simp add: digit_in_def digit_to_int_hex)

lemma value_dec_digits: "value_from 10 0 (dec_digits x acc) = value_from 10 (unat x) acc"
proof (induction x acc rule: dec_digits.induct)
  case (1 x acc)
  have "unat (x mod 10) < 10" by (simp add: unat_mod)
  then have d: "nat (digit_to_int (char_of (unat (x mod 10) + 0x30))) = unat x mod 10"
    by (simp add: digit_to_int_dec unat_mod)
  show ?case
  proof (cases "x = 0")
    case False
    with 1 d show ?thesis by (simp add: dec_digits.simps [of x] unat_div)
  qed (simp add: dec_digits.simps)
qed

lemma value_hex_digits: "value_from 16 0 (hex_digits x acc) = value_from 16 (unat x) acc"
proof (induction x acc rule: hex_digits.induct)
  case (1 x acc)
  have "unat (x mod 16) < 16" by (simp add: unat_mod)
  then have d: "nat (digit_to_int (base_digits ! unat (x mod 16))) = unat x mod 16"
    by (simp add: digit_to_int_hex unat_mod)
  show ?case
  proof (cases "x = 0")
    case False
    with 1 d show ?thesis by (simp add: hex_digits.simps [of x] unat_div)
  qed (simp add: hex_digits.simps)
qed

lemma digits_dec_digits: "list_all (digit_in 10) acc \<Longrightarrow> list_all (digit_in 10) (dec_digits x acc)"
proof (induction x acc rule: dec_digits.induct)
  case (1 x acc)
  have "unat (x mod 10) < 10" by (simp add: unat_mod)
  then have "digit_in 10 (char_of (unat (x mod 10) + 0x30))" by (rule digit_in_dec)
  with 1 show ?case by (simp add: dec_digits.simps [of x])
qed

lemma digits_hex_digits: "list_all (digit_in 16) acc \<Longrightarrow> list_all (digit_in 16) (hex_digits x acc)"
proof (induction x acc rule: hex_digits.induct)
  case (1 x acc)
  have "unat (x mod 16) < 16" by (simp add: unat_mod)
  then have "digit_in 16 (base_digits ! unat (x mod 16))" by (rule digit_in_hex)
  with 1 show ?case by (simp add: hex_digits.simps [of x])
qed

lemma length_dec_digits: "unat x < 10 ^ k \<Longrightarrow> length (dec_digits x acc) \<le> length acc + k"
proof (induction k arbitrary: x acc)
  case 0
  then show ?case by (simp add: dec_digits.simps word_unat_eq_iff)
next
  case (Suc k)
  then have "unat (x div 10) < 10 ^ k" by (simp add: unat_div less_mult_imp_div_less mult.commute)
  from Suc.IH [OF this, of "char_of (unat (x mod 10) + 0x30) # acc"]
  show ?case by (simp add: dec_digits.simps [of x])
qed

lemma length_hex_digits: "unat x < 16 ^ k \<Longrightarrow> length (hex_digits x acc) \<le> length acc + k"
proof (induction k arbitrary: x acc)
  case 0
  then show ?case by (simp add: hex_digits.simps word_unat_eq_iff)
next
  case (Suc k)
  then have "unat (x div 16) < 16 ^ k" by (simp add: unat_div less_mult_imp_div_less mult.commute)
  from Suc.IH [OF this, of "base_digits ! unat (x mod 16) # acc"]
  show ?case by (simp add: hex_digits.simps [of x])
qed

lemma digit_in_printable: "digit_in base c \<Longrightarrow> c \<noteq> NUL \<and> c \<noteq> CHR 0x0A \<and> c \<noteq> CHR ''.''"
proof -
  have "digit_to_int NUL = - 1" "digit_to_int CHR 0x0A = - 1" "digit_to_int CHR ''.'' = - 1" by code_simp+
  then show "digit_in base c \<Longrightarrow> c \<noteq> NUL \<and> c \<noteq> CHR 0x0A \<and> c \<noteq> CHR ''.''" by (auto simp: digit_in_def)
qed

text \<open>The decimal and hexadecimal text of a number.\<close>

definition dec :: "u64 \<Rightarrow> string" where
  "dec x = (if x = 0 then ''0'' else dec_digits x [])"

definition hex :: "u64 \<Rightarrow> string" where
  "hex x = (if x = 0 then ''0'' else hex_digits x [])"

lemma dec_props: "list_all (digit_in 10) (dec x)" "value_from 10 0 (dec x) = unat x" "length (dec x) \<le> 20"
proof -
  have z: "digit_to_int CHR ''0'' = 0" by code_simp
  show "list_all (digit_in 10) (dec x)" by (simp add: dec_def digits_dec_digits digit_in_def z)
  show "value_from 10 0 (dec x) = unat x" by (simp add: dec_def value_dec_digits z)
  have "unat x < 10 ^ 20" using u64_bound [of x] by simp
  then show "length (dec x) \<le> 20" using length_dec_digits [of x 20 "[]"] by (simp add: dec_def)
qed

lemma dec_nonempty [simp]: "dec x \<noteq> []"
proof
  assume "dec x = []"
  with dec_props(2) [of x] have "x = 0" by (simp add: word_unat_eq_iff)
  with \<open>dec x = []\<close> show False by (simp add: dec_def)
qed

lemma hex_props: "list_all (digit_in 16) (hex x)" "value_from 16 0 (hex x) = unat x" "length (hex x) \<le> 16"
proof -
  have z: "digit_to_int CHR ''0'' = 0" by code_simp
  show "list_all (digit_in 16) (hex x)" by (simp add: hex_def digits_hex_digits digit_in_def z)
  show "value_from 16 0 (hex x) = unat x" by (simp add: hex_def value_hex_digits z)
  have "unat x < 16 ^ 16" using u64_bound [of x] by simp
  then show "length (hex x) \<le> 16" using length_hex_digits [of x 16 "[]"] by (simp add: hex_def)
qed

lemma prn_digits:
  assumes "list_all (digit_in base) ds" and "length b + length ds < PRINT_BUF_MAX"
  shows "prn_str b ds = b @ ds"
proof (rule prn_str_plain)
  show "list_all (\<lambda>c. c \<noteq> NUL \<and> c \<noteq> CHR 0x0A) ds"
    using assms(1) digit_in_printable by (auto simp: list_all_iff)
qed (rule assms(2))

lemma prn_ui_dec: "length b + 20 < PRINT_BUF_MAX \<Longrightarrow> prn_ui b x = b @ dec x"
  using prn_digits [OF dec_props(1) [of x], of b] dec_props(3) [of x]
  by (auto simp: prn_ui_def dec_def prn_char_def prn_raw_def split: if_splits)

lemma prn_x_hex: "length b + 18 < PRINT_BUF_MAX \<Longrightarrow> prn_x b x = b @ ''0x'' @ hex x"
  using prn_digits [OF hex_props(1) [of x], of "b @ ''0x''"] hex_props(3) [of x]
  by (auto simp: prn_x_def hex_def prn_char_def prn_raw_def split: if_splits)

lemma strtoui_dec:
  assumes "rest = [] \<or> \<not> digit_in 10 (hd rest)"
  shows "strtoui (dec x @ rest) 10 = (x, rest)"
  using strtoui_digits [OF _ _ dec_props(1) assms] by (simp add: dec_props(2) u64_bound [simplified])

lemma strtoui_hex:
  assumes "rest = [] \<or> \<not> digit_in 16 (hd rest)"
  shows "strtoui (hex x @ rest) 16 = (x, rest)"
  using strtoui_digits [OF _ _ hex_props(1) assms] by (simp add: hex_props(2) u64_bound [simplified])

section \<open>Properties\<close>

text \<open>C29: whatever the format and the arguments, the formatted text fits the print buffer of 4096
  bytes with its terminating zero.\<close>

theorem vprint_fits_buffer:
  assumes "vprint fmt args = Some b"
  shows "length b < PRINT_BUF_MAX"
  using length_vprint_from [OF assms [unfolded vprint_def]] by (simp add: PRINT_BUF_MAX_def)

theorem vprint_fits_buffer_witness:
  "vprint ''%s: %d%c'' [VStr (Some ''pmm''), VI32 (- 12), VChar CHR 0x0A]
     = Some (''pmm: -12'' @ [CHR 0x0D, CHR 0x0A])
   \<and> length (''pmm: -12'' @ [CHR 0x0D, CHR 0x0A]) < PRINT_BUF_MAX"
proof -
  have run: "vprint ''%s: %d%c'' [VStr (Some ''pmm''), VI32 (- 12), VChar CHR 0x0A]
     = Some (''pmm: -12'' @ [CHR 0x0D, CHR 0x0A])" by code_simp
  from vprint_fits_buffer [OF run] run show ?thesis by blast
qed

text \<open>C30: a number that is printed in decimal or in hexadecimal reads back as itself with the
  number parser, and its digits fit the digit buffers of the printing code.\<close>

theorem print_parse_round_trip:
  "strtoui (prn_ui [] x) 10 = (x, []) \<and> strtoui (drop 2 (prn_x [] x)) 16 = (x, [])
    \<and> length (prn_ui [] x) \<le> 20 \<and> length (prn_x [] x) \<le> 18"
proof -
  have "prn_ui [] x = dec x" by (simp add: prn_ui_dec PRINT_BUF_MAX_def)
  moreover have "prn_x [] x = ''0x'' @ hex x" by (simp add: prn_x_hex PRINT_BUF_MAX_def)
  ultimately show ?thesis
    using strtoui_dec [of "[]" x] strtoui_hex [of "[]" x] dec_props(3) [of x] hex_props(3) [of x] by simp
qed

text \<open>C31: the address parser inverts the printing of a dotted address: the text of any four octets
  is accepted and gives those octets.\<close>

theorem inet_pton_inverts_printing:
  "\<exists>s. vprint ''%u.%u.%u.%u'' [VU32 (ucast a), VU32 (ucast b), VU32 (ucast c), VU32 (ucast d)] = Some s
    \<and> inet_pton s = Some [a, b, c, d]" for a b c d :: u8
proof -
  let ?n = "\<lambda>x :: u8. ucast (ucast x :: u32) :: u64"
  let ?s = "dec (?n a) @ ''.'' @ dec (?n b) @ ''.'' @ dec (?n c) @ ''.'' @ dec (?n d)"
  have dot: "\<not> digit_in 10 CHR ''.''" using digit_in_printable by blast
  have rd: "strtoui (dec x @ CHR ''.'' # r) 10 = (x, CHR ''.'' # r)" for x r
    using strtoui_dec [of "CHR ''.'' # r" x] dot by simp
  have bound: "\<not> 255 < ?n x" and inv: "ucast (?n x) = x" for x
  proof -
    have "unat (?n x) = unat x" by (simp add: unat_ucast_up)
    moreover have "unat x < 2 ^ LENGTH(8)" by (rule unsigned_less)
    ultimately show "\<not> 255 < ?n x" by (simp add: word_less_nat_alt)
    show "ucast (?n x) = x" by (rule bit_word_eqI) (auto simp: bit_simps)
  qed
  have "inet_pton ?s = Some [a, b, c, d]"
    by (simp add: inet_pton_def inet_pton_from.simps rd bound inv dec_nonempty [symmetric] strtoui_dec [of "[]", simplified])
  moreover have "vprint ''%u.%u.%u.%u'' [VU32 (ucast a), VU32 (ucast b), VU32 (ucast c), VU32 (ucast d)] = Some ?s"
    using dec_props(3) [of "?n a"] dec_props(3) [of "?n b"] dec_props(3) [of "?n c"]
    by (simp add: vprint_def prn_ui_dec prn_char_def prn_raw_def PRINT_BUF_MAX_def)
  ultimately show ?thesis by blast
qed

end
