(* ===== verification/Misc.thy ===== *)
theory Misc
  imports Print
begin

text \<open>
  Small routines of \<^verbatim>\<open>common/lib/misc.s2.c\<close> and \<^verbatim>\<open>common/lib/misc.c\<close>: binary-coded decimal,
  the integer square root, the count of trailing zeros and the parser of screen resolutions.
\<close>

section \<open>Operations\<close>

definition bcd_to_int :: "u8 \<Rightarrow> u8" where
  "bcd_to_int v = (v AND 0x0f) + drop_bit 4 (v AND 0xf0) * 10"

definition int_to_bcd :: "u8 \<Rightarrow> u8" where
  "int_to_bcd v = (v mod 10) OR push_bit 4 (v div 10)"

lemma drop_bit_2_less: "one \<noteq> 0 \<Longrightarrow> unat (drop_bit 2 one) < unat one" for one :: u64
  by (simp add: drop_bit_eq_div unat_div unat_gt_0 [symmetric] del: unat_gt_0)

function sqrt_shift :: "u64 \<Rightarrow> u64 \<Rightarrow> u64" where
  "sqrt_shift one op0 = (if one > op0 then sqrt_shift (drop_bit 2 one) op0 else one)"
  by pat_completeness auto
termination
  by (relation "measure (\<lambda>(one, op0). unat one)") (auto intro!: drop_bit_2_less)

function sqrt_loop :: "u64 \<Rightarrow> u64 \<Rightarrow> u64 \<Rightarrow> u64" where
  "sqrt_loop op0 res one =
     (if one \<noteq> 0 then
        if op0 \<ge> res + one
        then sqrt_loop (op0 - (res + one)) (drop_bit 1 (res + 2 * one)) (drop_bit 2 one)
        else sqrt_loop op0 (drop_bit 1 res) (drop_bit 2 one)
      else res)"
  by pat_completeness auto
termination
  by (relation "measure (\<lambda>(op0, res, one). unat one)") (auto intro!: drop_bit_2_less)

declare sqrt_shift.simps [simp del] sqrt_loop.simps [simp del]

definition isqrt :: "u64 \<Rightarrow> u64" where
  "isqrt a_nInput = sqrt_loop a_nInput 0 (sqrt_shift (push_bit 62 1) a_nInput)"

fun trailing_zeros_from :: "nat \<Rightarrow> u64 \<Rightarrow> nat" where
  "trailing_zeros_from 0 v = 64"
| "trailing_zeros_from (Suc n) v =
     (if v AND 1 \<noteq> 0 then 64 - Suc n else trailing_zeros_from n (drop_bit 1 v))"

definition get_trailing_zeros :: "u64 \<Rightarrow> nat" where
  "get_trailing_zeros v = trailing_zeros_from 64 v"

text \<open>The loop over at most three numbers of a resolution; \<open>n\<close> is the number of slots left.\<close>

fun resolution_numbers :: "nat \<Rightarrow> string \<Rightarrow> u64 list" where
  "resolution_numbers 0 first = []"
| "resolution_numbers (Suc n) first =
     (case strtoui first 10 of (x, last0) \<Rightarrow>
        if last0 = first then replicate (Suc n) 0
        else if chd last0 = NUL then x # replicate n 0
        else x # resolution_numbers n (tl last0))"

definition parse_resolution :: "string \<Rightarrow> (u64 \<times> u64 \<times> u64) option" where
  "parse_resolution buf =
     (let res = resolution_numbers 3 buf in
      if res ! 0 = 0 \<or> res ! 1 = 0 then None
      else Some (res ! 0, res ! 1, if res ! 2 = 0 then 32 else res ! 2))"

section \<open>The square root\<close>

lemma sqrt_shift_power:
  assumes "unat one = 4 ^ k" and "unat n < 4 ^ Suc k" and "n \<noteq> 0"
  shows "\<exists>j. unat (sqrt_shift one n) = 4 ^ j \<and> j \<le> k \<and> unat n < 4 ^ Suc j"
  using assms(1,2)
proof (induction k arbitrary: one)
  case 0
  then have "\<not> n < one" using assms(3) by (simp add: word_less_nat_alt unat_gt_0 [symmetric] del: unat_gt_0)
  with 0 show ?case by (simp add: sqrt_shift.simps)
next
  case (Suc k)
  show ?case
  proof (cases "n < one")
    case True
    have "unat (drop_bit 2 one) = 4 ^ k"
      using Suc.prems(1) by (simp add: drop_bit_eq_div unat_div)
    moreover have "unat n < 4 ^ Suc k" using True Suc.prems(1) by (simp add: word_less_nat_alt)
    ultimately show ?thesis using Suc.IH True by (metis le_SucI sqrt_shift.simps)
  next
    case False
    with Suc.prems show ?thesis by (auto simp: sqrt_shift.simps intro!: exI [of _ "Suc k"])
  qed
qed

text \<open>The loop finds the root bit by bit: before the bit \<open>p = 2 ^ k\<close>, the root found so far is \<open>R\<close>,
  \<open>res\<close> is \<open>R\<close> shifted up, and \<open>op0\<close> is what is left of the number.\<close>

lemma sqrt_no_overflow:
  fixes R p :: nat
  assumes "R ^ 2 < 2 ^ 64" and "2 * p dvd R" and "p = 2 ^ k" and "k \<le> 31"
  shows "R * (2 * p) + 2 * p ^ 2 < 2 ^ 64"
proof (cases "R = 0")
  case True
  have "p \<le> 2 ^ 31" unfolding assms(3) using assms(4) by (rule power_increasing) simp
  then have "p ^ 2 \<le> (2 ^ 31) ^ 2" by (rule power_mono) simp
  with True show ?thesis by simp
next
  case False
  have R: "R < 2 ^ 32"
  proof (rule ccontr)
    assume "\<not> R < 2 ^ 32"
    then have "(2 ^ 32) ^ 2 \<le> R ^ 2" by (intro power_mono) simp_all
    with assms(1) show False by simp
  qed
  have "2 * p \<le> R" using False assms(2) by (auto dest: dvd_imp_le)
  with R have "2 ^ Suc k < (2 :: nat) ^ 32" using assms(3) by simp
  then have "Suc k < 32" by (rule power_less_imp_less_exp [rotated]) simp
  then have "k \<le> 30" by simp
  then have p: "p \<le> 2 ^ 30" unfolding assms(3) by (rule power_increasing) simp
  then have "p ^ 2 \<le> (2 ^ 30) ^ 2" by (rule power_mono) simp
  moreover have "R * (2 * p) \<le> 2 ^ 32 * (2 * 2 ^ 30)" using R p by (intro mult_mono) simp_all
  ultimately show ?thesis by simp
qed

lemma sqrt_step:
  fixes R p :: nat
  assumes one: "unat one = p ^ 2" and res: "unat res = R * (2 * p)" and dvd: "2 * p dvd R"
    and N: "unat op0 + R ^ 2 = N" "N < (R + 2 * p) ^ 2" "N < 2 ^ 64" and p: "p = 2 ^ k" "k \<le> 31"
  shows "\<exists>op1 res1 R1. sqrt_loop op0 res one = sqrt_loop op1 res1 (drop_bit 2 one)
    \<and> unat res1 = R1 * p \<and> p dvd R1 \<and> unat op1 + R1 ^ 2 = N \<and> N < (R1 + p) ^ 2"
proof -
  have "R ^ 2 < 2 ^ 64" using N by linarith
  note no = sqrt_no_overflow [OF this dvd p]
  have p0: "0 < p" by (simp add: p(1))
  have nz: "one \<noteq> 0" using one p0 by (auto simp: power2_eq_square)
  have s1: "unat (res + one) = R * (2 * p) + p ^ 2"
    using no one res by (subst unat_add_nowrap) simp_all
  have "unat (2 * one) = 2 * p ^ 2" using no one by (subst unat_mult_nowrap) simp_all
  then have s2: "unat (res + 2 * one) = R * (2 * p) + 2 * p ^ 2"
    using no res by (subst unat_add_nowrap) simp_all
  have pd: "p dvd R" using dvd by (rule dvd_mult_right)
  have sq: "(R + p) ^ 2 = R ^ 2 + (R * (2 * p) + p ^ 2)" by (simp add: power2_eq_square algebra_simps)
  show ?thesis
  proof (cases "res + one \<le> op0")
    case True
    have "unat (op0 - (res + one)) + (R + p) ^ 2 = N"
      using True N(1) unfolding sq by (subst unat_sub_nowrap) (simp_all add: word_le_nat_alt s1)
    moreover have "unat (drop_bit 1 (res + 2 * one)) = (R + p) * p"
    proof -
      have "unat (res + 2 * one) = 2 * ((R + p) * p)" unfolding s2 by (simp add: power2_eq_square algebra_simps)
      then show ?thesis by (simp add: drop_bit_eq_div unat_div)
    qed
    moreover have "N < (R + p + p) ^ 2" using N(2) by (simp only: mult_2 add.assoc)
    ultimately show ?thesis using True nz pd by (subst sqrt_loop.simps) (fastforce intro: exI [of _ "R + p"] dvd_add)
  next
    case False
    have "N < (R + p) ^ 2" using False N(1) unfolding sq by (simp add: word_le_nat_alt s1)
    moreover have "unat (drop_bit 1 res) = R * p"
      by (simp add: drop_bit_eq_div unat_div res)
    ultimately show ?thesis using False nz pd N(1) by (subst sqrt_loop.simps) auto
  qed
qed

lemma sqrt_loop_spec:
  assumes "unat one = (2 ^ k) ^ 2" and "unat res = R * (2 * 2 ^ k)" and "2 * 2 ^ k dvd R"
    and "unat op0 + R ^ 2 = N" and "N < (R + 2 * 2 ^ k) ^ 2" and "N < 2 ^ 64" and "k \<le> 31"
  shows "unat (sqrt_loop op0 res one) ^ 2 \<le> N \<and> N < (unat (sqrt_loop op0 res one) + 1) ^ 2"
  using assms
proof (induction k arbitrary: one res R op0)
  case 0
  from sqrt_step [OF 0(1-6) refl 0(7)] obtain op1 res1 R1
    where st: "sqrt_loop op0 res one = sqrt_loop op1 res1 (drop_bit 2 one)" "unat res1 = R1"
      "unat op1 + R1 ^ 2 = N" "N < (R1 + 1) ^ 2" by auto
  have "drop_bit 2 one = 0" using 0(1) by (simp add: drop_bit_eq_div word_unat_eq_iff unat_div)
  with st show ?case by (auto simp: sqrt_loop.simps [of op1])
next
  case (Suc k)
  from sqrt_step [OF Suc.prems(1-6) refl Suc.prems(7)] obtain op1 res1 R1
    where st: "sqrt_loop op0 res one = sqrt_loop op1 res1 (drop_bit 2 one)"
      "unat res1 = R1 * (2 * 2 ^ k)" "2 * 2 ^ k dvd R1" "unat op1 + R1 ^ 2 = N"
      "N < (R1 + 2 * 2 ^ k) ^ 2" by auto
  have "unat (drop_bit 2 one) = (2 ^ k) ^ 2"
    using Suc.prems(1) by (simp add: drop_bit_eq_div unat_div power2_eq_square)
  from Suc.IH [OF this st(2-5) Suc.prems(6)] Suc.prems(7) show ?case unfolding st(1) by simp
qed

lemma sqrt_shift_0: "sqrt_shift one 0 = 0"
  by (induction one "0 :: u64" rule: sqrt_shift.induct)
    (subst sqrt_shift.simps, auto simp: word_gt_0)

section \<open>Trailing zeros\<close>

lemma trailing_zeros_from_spec:
  assumes "n \<le> 64"
  shows "64 - n \<le> trailing_zeros_from n v \<and> trailing_zeros_from n v \<le> 64
    \<and> (\<forall>i < trailing_zeros_from n v - (64 - n). \<not> bit v i)
    \<and> (trailing_zeros_from n v < 64 \<longrightarrow> bit v (trailing_zeros_from n v - (64 - n)))"
  using assms
proof (induction n arbitrary: v)
  case 0
  show ?case by simp
next
  case (Suc n)
  show ?case
  proof (cases "odd v")
    case True
    then show ?thesis using Suc.prems by (simp add: and_one_eq mod_2_eq_odd bit_0)
  next
    case False
    let ?z = "trailing_zeros_from n (drop_bit 1 v)"
    have z: "trailing_zeros_from (Suc n) v = ?z" using False by (simp add: and_one_eq mod_2_eq_odd)
    have IH: "64 - n \<le> ?z" "?z \<le> 64" "\<forall>i < ?z - (64 - n). \<not> bit v (Suc i)"
      "?z < 64 \<longrightarrow> bit v (Suc (?z - (64 - n)))"
      using Suc.IH [of "drop_bit 1 v"] Suc.prems by (auto simp: bit_drop_bit_eq)
    have eq: "?z - (64 - Suc n) = Suc (?z - (64 - n))" using IH(1) Suc.prems by simp
    show ?thesis unfolding z eq using IH False
      by (auto simp: less_Suc_eq_0_disj bit_0)
  qed
qed

section \<open>Binary-coded decimal\<close>

lemma bcd_below_100: "list_all (\<lambda>v. bcd_to_int (int_to_bcd (word_of_int v)) = word_of_int v) [0..99]"
  by code_simp

lemma bcd_round_trip:
  assumes "v < 100"
  shows "bcd_to_int (int_to_bcd v) = v"
proof -
  have "uint v \<in> set [0..99]" using assms by (simp add: word_less_def)
  with bcd_below_100 show ?thesis unfolding list_all_iff by (metis word_of_int_uint)
qed

section \<open>Properties\<close>

text \<open>C33: \<open>sqrt\<close> returns the integer square root, rounded down, of every 64-bit number, the largest
  ones included: no intermediate sum of the loop wraps around.\<close>

theorem isqrt_floor:
  "unat (isqrt n) ^ 2 \<le> unat n \<and> unat n < (unat (isqrt n) + 1) ^ 2"
proof (cases "n = 0")
  case True
  have "isqrt n = 0" by (simp add: True isqrt_def sqrt_shift_0 sqrt_loop.simps)
  then show ?thesis by (simp add: True)
next
  case False
  have one: "unat (push_bit 62 1 :: u64) = 4 ^ 31" by (simp add: push_bit_eq_mult)
  have "unat n < 4 ^ Suc 31" using u64_bound [of n] by simp
  from sqrt_shift_power [OF one this False] obtain j
    where j: "unat (sqrt_shift (push_bit 62 1) n) = 4 ^ j" "j \<le> 31" "unat n < 4 ^ Suc j" by blast
  have "unat (sqrt_shift (push_bit 62 1) n) = (2 ^ j) ^ 2" unfolding j(1) by (simp add: power_even_eq [symmetric] power_mult)
  moreover have "unat n < (0 + 2 * 2 ^ j) ^ 2" using j(3) by (simp add: power_mult_distrib power_even_eq [symmetric] power_mult)
  ultimately show ?thesis unfolding isqrt_def using j(2) u64_bound [of n]
    by (intro sqrt_loop_spec [where R = 0 and k = j]) simp_all
qed

text \<open>C34: \<open>get_trailing_zeros\<close> returns the position of the lowest bit set, and 64 exactly for zero.\<close>

theorem get_trailing_zeros_lowest:
  "(\<forall>i. i < get_trailing_zeros v \<longrightarrow> \<not> bit v i)
   \<and> (v \<noteq> 0 \<longrightarrow> get_trailing_zeros v < 64 \<and> bit v (get_trailing_zeros v))
   \<and> (v = 0 \<longrightarrow> get_trailing_zeros v = 64)"
proof -
  note z = trailing_zeros_from_spec [of 64 v, simplified]
  have "v = 0" if "get_trailing_zeros v = 64"
    using that z unfolding get_trailing_zeros_def
    by (intro bit_word_eqI) (auto dest: bit_imp_le_length)
  moreover have "get_trailing_zeros 0 = 64"
    using trailing_zeros_from_spec [of 64 0] by (auto simp: get_trailing_zeros_def)
  ultimately show ?thesis using z unfolding get_trailing_zeros_def by (cases "v = 0") (auto simp: le_less)
qed

theorem get_trailing_zeros_lowest_witness:
  "get_trailing_zeros 0x50 < 64 \<and> bit (0x50 :: u64) (get_trailing_zeros 0x50) \<and> get_trailing_zeros 0x50 = 4"
proof -
  have "get_trailing_zeros 0x50 = 4" by code_simp
  then show ?thesis using get_trailing_zeros_lowest [of "0x50"] by simp
qed

text \<open>C35: A resolution written as \<open>WxHxB\<close>, the numbers in decimal, is parsed back to the three numbers; with
  a zero width or height it is refused, and a zero number of bits per pixel means 32.\<close>

theorem parse_resolution_printed:
  "parse_resolution (dec w @ ''x'' @ dec h @ ''x'' @ dec b) =
     (if w = 0 \<or> h = 0 then None else Some (w, h, if b = 0 then 32 else b))"
proof -
  have nd: "\<not> digit_in 10 (CHR ''x'')" by code_simp
  have "resolution_numbers 3 (dec w @ ''x'' @ dec h @ ''x'' @ dec b) = [w, h, b]"
    using nd strtoui_dec [of "[]" b] dec_nonempty [of b, symmetric] by (simp add: numeral_3_eq_3 strtoui_dec)
  then show ?thesis by (simp add: parse_resolution_def)
qed

end
