(* ===== verification/Cc_Bits.thy ===== *)
theory Cc_Bits
  imports Limine_Prelude
begin

text \<open>
  The run-time routines that a compiler calls for integers wider than the machine's, first part
  (\<^verbatim>\<open>common/cc-runtime.s2.c\<close>): shifts, byte swaps and comparisons. Signed and
  unsigned C integers of the same width are both words; a signed reading is \<^term>\<open>sint\<close>, a signed shift
  \<^term>\<open>signed_drop_bit\<close>. The shift counts are the C ints between 0 and the width.
\<close>

type_synonym u128 = "128 word"

section \<open>Halves of a wide integer\<close>

text \<open>The unions \<^verbatim>\<open>dwords\<close>, \<^verbatim>\<open>udwords\<close>, \<^verbatim>\<open>twords\<close> and \<^verbatim>\<open>utwords\<close>: the fields \<open>s.low\<close> and \<open>s.high\<close>
  of \<open>all\<close>, and \<open>all\<close> from its two fields, for halves of any width.\<close>

definition lo :: "'w::len word \<Rightarrow> 'h::len word" where
  "lo a = ucast a"

definition hi :: "'w::len word \<Rightarrow> 'h::len word" where
  "hi a = ucast (drop_bit LENGTH('h) a)"

definition join :: "'h::len word \<Rightarrow> 'h word \<Rightarrow> 'w::len word" where
  "join h l = push_bit LENGTH('h) (ucast h) OR ucast l"

section \<open>Shifts\<close>

definition ashldi3 :: "u64 \<Rightarrow> nat \<Rightarrow> u64" where
  "ashldi3 a b =
     (let low = lo a :: u32; high = hi a :: u32 in
      if b AND 32 \<noteq> 0 then join (push_bit (b - 32) low) (0 :: u32)
      else if b = 0 then a
      else join (push_bit b high OR drop_bit (32 - b) low) (push_bit b low))"

definition ashlti3 :: "u128 \<Rightarrow> nat \<Rightarrow> u128" where
  "ashlti3 a b =
     (let low = lo a :: u64; high = hi a :: u64 in
      if b AND 64 \<noteq> 0 then join (push_bit (b - 64) low) (0 :: u64)
      else if b = 0 then a
      else join (push_bit b high OR drop_bit (64 - b) low) (push_bit b low))"

definition ashrdi3 :: "u64 \<Rightarrow> nat \<Rightarrow> u64" where
  "ashrdi3 a b =
     (let low = lo a :: u32; high = hi a :: u32 in
      if b AND 32 \<noteq> 0 then join (signed_drop_bit 31 high) (signed_drop_bit (b - 32) high)
      else if b = 0 then a
      else join (signed_drop_bit b high) (push_bit (32 - b) high OR drop_bit b low))"

definition ashrti3 :: "u128 \<Rightarrow> nat \<Rightarrow> u128" where
  "ashrti3 a b =
     (let low = lo a :: u64; high = hi a :: u64 in
      if b AND 64 \<noteq> 0 then join (signed_drop_bit 63 high) (signed_drop_bit (b - 64) high)
      else if b = 0 then a
      else join (signed_drop_bit b high) (push_bit (64 - b) high OR drop_bit b low))"

definition lshrdi3 :: "u64 \<Rightarrow> nat \<Rightarrow> u64" where
  "lshrdi3 a b =
     (let low = lo a :: u32; high = hi a :: u32 in
      if b AND 32 \<noteq> 0 then join (0 :: u32) (drop_bit (b - 32) high)
      else if b = 0 then a
      else join (drop_bit b high) (push_bit (32 - b) high OR drop_bit b low))"

definition lshrti3 :: "u128 \<Rightarrow> nat \<Rightarrow> u128" where
  "lshrti3 a b =
     (let low = lo a :: u64; high = hi a :: u64 in
      if b AND 64 \<noteq> 0 then join (0 :: u64) (drop_bit (b - 64) high)
      else if b = 0 then a
      else join (drop_bit b high) (push_bit (64 - b) high OR drop_bit b low))"

section \<open>Byte swaps and comparisons\<close>

definition bswapdi2 :: "u64 \<Rightarrow> u64" where
  "bswapdi2 u =
     drop_bit 56 (u AND 0xff00000000000000)
     OR drop_bit 40 (u AND 0x00ff000000000000)
     OR drop_bit 24 (u AND 0x0000ff0000000000)
     OR drop_bit 8 (u AND 0x000000ff00000000)
     OR push_bit 8 (u AND 0x00000000ff000000)
     OR push_bit 24 (u AND 0x0000000000ff0000)
     OR push_bit 40 (u AND 0x000000000000ff00)
     OR push_bit 56 (u AND 0x00000000000000ff)"

definition bswapsi2 :: "u32 \<Rightarrow> u32" where
  "bswapsi2 u =
     drop_bit 24 (u AND 0xff000000) OR drop_bit 8 (u AND 0x00ff0000)
     OR push_bit 8 (u AND 0x0000ff00) OR push_bit 24 (u AND 0x000000ff)"

definition cmpdi2 :: "u64 \<Rightarrow> u64 \<Rightarrow> int" where
  "cmpdi2 a b =
     (let xh = hi a :: u32; yh = hi b :: u32; xl = lo a :: u32; yl = lo b :: u32 in
      if sint xh < sint yh then 0 else if sint xh > sint yh then 2
      else if xl < yl then 0 else if xl > yl then 2 else 1)"

definition cmpti2 :: "u128 \<Rightarrow> u128 \<Rightarrow> int" where
  "cmpti2 a b =
     (let xh = hi a :: u64; yh = hi b :: u64; xl = lo a :: u64; yl = lo b :: u64 in
      if sint xh < sint yh then 0 else if sint xh > sint yh then 2
      else if xl < yl then 0 else if xl > yl then 2 else 1)"

definition ucmpdi2 :: "u64 \<Rightarrow> u64 \<Rightarrow> int" where
  "ucmpdi2 a b =
     (let xh = hi a :: u32; yh = hi b :: u32; xl = lo a :: u32; yl = lo b :: u32 in
      if xh < yh then 0 else if xh > yh then 2
      else if xl < yl then 0 else if xl > yl then 2 else 1)"

definition ucmpti2 :: "u128 \<Rightarrow> u128 \<Rightarrow> int" where
  "ucmpti2 a b =
     (let xh = hi a :: u64; yh = hi b :: u64; xl = lo a :: u64; yl = lo b :: u64 in
      if xh < yh then 0 else if xh > yh then 2
      else if xl < yl then 0 else if xl > yl then 2 else 1)"

section \<open>Bits of halves\<close>

lemma bit_lo [simp]: "bit (lo (a :: 'w::len word) :: 'h::len word) i \<longleftrightarrow> i < LENGTH('h) \<and> bit a i"
  by (simp add: lo_def bit_unsigned_iff)

lemma bit_hi [simp]:
  "bit (hi (a :: 'w::len word) :: 'h::len word) i \<longleftrightarrow> i < LENGTH('h) \<and> bit a (LENGTH('h) + i)"
  by (simp add: hi_def bit_unsigned_iff bit_drop_bit_eq)

lemma bit_join:
  "bit (join h (l :: 'h::len word) :: 'w::len word) i \<longleftrightarrow>
     i < LENGTH('w) \<and> (if i < LENGTH('h) then bit l i else bit h (i - LENGTH('h)))"
  by (auto simp: join_def bit_simps dest: bit_imp_le_length)

lemma nat_and_power: "(b :: nat) AND 2 ^ k \<noteq> 0 \<longleftrightarrow> bit b k"
  by (auto simp: and_exp_eq_0_iff_not_bit)

lemma bit_range: "(b :: nat) < 2 * 2 ^ k \<Longrightarrow> bit b k \<longleftrightarrow> 2 ^ k \<le> b"
proof -
  assume "b < 2 * 2 ^ k"
  then have "b div 2 ^ k < 2" by (simp add: less_mult_imp_div_less)
  moreover have "b div 2 ^ k > 0 \<longleftrightarrow> 2 ^ k \<le> b" by (simp add: div_greater_zero_iff)
  ultimately show ?thesis unfolding bit_iff_odd by (cases "2 ^ k \<le> b") (auto simp: less_2_cases_iff)
qed

lemma shift_branch:
  "(b :: nat) < 64 \<Longrightarrow> b AND 32 = 0 \<longleftrightarrow> b < 32"
  "(b :: nat) < 128 \<Longrightarrow> b AND 64 = 0 \<longleftrightarrow> b < 64"
  using nat_and_power [of b 5] bit_range [of b 5] nat_and_power [of b 6] bit_range [of b 6]
  by (simp_all add: not_le) (metis not_gr_zero not_le)+

lemma join_halves: "LENGTH('w) = 2 * LENGTH('h) \<Longrightarrow> join (hi a :: 'h::len word) (lo a) = (a :: 'w::len word)"
  by (rule bit_word_eqI) (auto simp: bit_join)

lemma join_eqI:
  "LENGTH('w) = 2 * LENGTH('h) \<Longrightarrow> h = hi x \<Longrightarrow> l = lo x \<Longrightarrow> join (h :: 'h::len word) l = (x :: 'w::len word)"
  by (simp add: join_halves)

section \<open>Shifts\<close>

text \<open>The halves of a shifted number, for a shift below the half's width and from it on.\<close>

lemma halves_push_bit:
  fixes a :: "'w::len word"
  assumes "LENGTH('w) = 2 * LENGTH('h)"
  shows "(lo (push_bit b a) :: 'h::len word) = push_bit b (lo a)"
    and "b \<le> LENGTH('h) \<Longrightarrow>
      (hi (push_bit b a) :: 'h word) = push_bit b (hi a) OR drop_bit (LENGTH('h) - b) (lo a)"
    and "LENGTH('h) \<le> b \<Longrightarrow> (hi (push_bit b a) :: 'h word) = push_bit (b - LENGTH('h)) (lo a)"
    and "LENGTH('h) \<le> b \<Longrightarrow> (lo (push_bit b a) :: 'h word) = 0"
proof -
  show "(lo (push_bit b a) :: 'h::len word) = push_bit b (lo a)"
    by (rule bit_word_eqI) (auto simp: bit_push_bit_iff assms)
  show "(lo (push_bit b a) :: 'h word) = 0" if "LENGTH('h) \<le> b"
    using that by (intro bit_word_eqI) (auto simp: bit_push_bit_iff)
  show "(hi (push_bit b a) :: 'h word) = push_bit (b - LENGTH('h)) (lo a)" if "LENGTH('h) \<le> b"
  proof (rule bit_word_eqI)
    fix n
    assume n: "n < LENGTH('h)"
    have "LENGTH('h) + n - b = n - (b - LENGTH('h))" using that by simp
    then show "bit (hi (push_bit b a) :: 'h word) n \<longleftrightarrow> bit (push_bit (b - LENGTH('h)) (lo a) :: 'h word) n"
      using n that assms by (auto simp: bit_push_bit_iff)
  qed
  show "(hi (push_bit b a) :: 'h word) = push_bit b (hi a) OR drop_bit (LENGTH('h) - b) (lo a)"
    if "b \<le> LENGTH('h)"
  proof (rule bit_word_eqI)
    fix n
    assume n: "n < LENGTH('h)"
    have "LENGTH('h) - b + n = LENGTH('h) + n - b" "b \<le> n \<Longrightarrow> LENGTH('h) + (n - b) = LENGTH('h) + n - b"
      using that by simp_all
    then show "bit (hi (push_bit b a) :: 'h word) n \<longleftrightarrow>
        bit (push_bit b (hi a) OR drop_bit (LENGTH('h) - b) (lo a) :: 'h word) n"
      using n that assms by (auto simp: bit_push_bit_iff bit_or_iff bit_drop_bit_eq)
  qed
qed

lemma halves_drop_bit:
  fixes a :: "'w::len word"
  assumes "LENGTH('w) = 2 * LENGTH('h)"
  shows "(hi (drop_bit b a) :: 'h::len word) = drop_bit b (hi a)"
    and "b \<le> LENGTH('h) \<Longrightarrow>
      (lo (drop_bit b a) :: 'h word) = push_bit (LENGTH('h) - b) (hi a) OR drop_bit b (lo a)"
    and "LENGTH('h) \<le> b \<Longrightarrow> (lo (drop_bit b a) :: 'h word) = drop_bit (b - LENGTH('h)) (hi a)"
    and "LENGTH('h) \<le> b \<Longrightarrow> (hi (drop_bit b a) :: 'h word) = 0"
proof -
  show "(hi (drop_bit b a) :: 'h::len word) = drop_bit b (hi a)"
    by (rule bit_word_eqI) (auto simp: bit_drop_bit_eq ac_simps assms dest: bit_imp_le_length)
  show "(hi (drop_bit b a) :: 'h word) = 0" if "LENGTH('h) \<le> b"
    using that by (intro bit_word_eqI) (auto simp: bit_drop_bit_eq assms dest: bit_imp_le_length)
  show "(lo (drop_bit b a) :: 'h word) = drop_bit (b - LENGTH('h)) (hi a)" if "LENGTH('h) \<le> b"
  proof (rule bit_word_eqI)
    fix n
    assume n: "n < LENGTH('h)"
    have "LENGTH('h) + (b - LENGTH('h) + n) = b + n" using that by simp
    then show "bit (lo (drop_bit b a) :: 'h word) n \<longleftrightarrow> bit (drop_bit (b - LENGTH('h)) (hi a) :: 'h word) n"
      using n that assms by (auto simp: bit_drop_bit_eq dest: bit_imp_le_length)
  qed
  show "(lo (drop_bit b a) :: 'h word) = push_bit (LENGTH('h) - b) (hi a) OR drop_bit b (lo a)"
    if "b \<le> LENGTH('h)"
  proof (rule bit_word_eqI)
    fix n
    assume n: "n < LENGTH('h)"
    have "LENGTH('h) - b \<le> n \<Longrightarrow> LENGTH('h) + (n - (LENGTH('h) - b)) = b + n" "LENGTH('h) - b \<le> n \<longleftrightarrow> \<not> b + n < LENGTH('h)"
      using that by auto
    then show "bit (lo (drop_bit b a) :: 'h word) n \<longleftrightarrow>
        bit (push_bit (LENGTH('h) - b) (hi a) OR drop_bit b (lo a) :: 'h word) n"
      using n that by (auto simp: bit_push_bit_iff bit_or_iff bit_drop_bit_eq add.commute)
  qed
qed

lemma ashldi3_push_bit: "b < 64 \<Longrightarrow> ashldi3 a b = push_bit b a"
  by (auto simp: ashldi3_def Let_def shift_branch halves_push_bit intro!: join_eqI)

lemma ashlti3_push_bit: "b < 128 \<Longrightarrow> ashlti3 a b = push_bit b a"
  by (auto simp: ashlti3_def Let_def shift_branch halves_push_bit intro!: join_eqI)

lemma lshrdi3_drop_bit: "b < 64 \<Longrightarrow> lshrdi3 a b = drop_bit b a"
  by (auto simp: lshrdi3_def Let_def shift_branch halves_drop_bit intro!: join_eqI)

lemma lshrti3_drop_bit: "b < 128 \<Longrightarrow> lshrti3 a b = drop_bit b a"
  by (auto simp: lshrti3_def Let_def shift_branch halves_drop_bit intro!: join_eqI)

lemma bit_signed_drop_bit_word:
  "bit (signed_drop_bit b (a :: 'a::len word)) n \<longleftrightarrow>
     n < LENGTH('a) \<and> bit a (if b + n < LENGTH('a) then b + n else LENGTH('a) - 1)"
  by (auto simp: bit_signed_drop_bit_iff min_def le_diff_conv2 not_less dest: bit_imp_le_length)

lemma halves_signed_drop_bit:
  fixes a :: "'w::len word"
  assumes w: "LENGTH('w) = 2 * LENGTH('h)"
  shows "b \<le> LENGTH('h) \<Longrightarrow> (hi (signed_drop_bit b a) :: 'h::len word) = signed_drop_bit b (hi a)"
    and "b \<le> LENGTH('h) \<Longrightarrow>
      (lo (signed_drop_bit b a) :: 'h word) = push_bit (LENGTH('h) - b) (hi a) OR drop_bit b (lo a)"
    and "LENGTH('h) \<le> b \<Longrightarrow> (lo (signed_drop_bit b a) :: 'h word) = signed_drop_bit (b - LENGTH('h)) (hi a)"
    and "LENGTH('h) \<le> b \<Longrightarrow> (hi (signed_drop_bit b a) :: 'h word) = signed_drop_bit (LENGTH('h) - 1) (hi a)"
proof -
  let ?h = "LENGTH('h)"
  have h: "0 < ?h" by simp
  have w2: "LENGTH('w) = ?h + ?h" using w by simp
  show "(hi (signed_drop_bit b a) :: 'h word) = signed_drop_bit b (hi a)" if "b \<le> ?h"
    by (rule bit_word_eqI)
      (use that h in \<open>auto simp: bit_signed_drop_bit_word w2 ac_simps split: if_splits\<close>)
  show "(hi (signed_drop_bit b a) :: 'h word) = signed_drop_bit (?h - 1) (hi a)" if "?h \<le> b"
  proof (rule bit_word_eqI)
    fix n
    assume n: "n < ?h"
    show "bit (hi (signed_drop_bit b a) :: 'h word) n \<longleftrightarrow> bit (signed_drop_bit (?h - 1) (hi a) :: 'h word) n"
    proof (cases n)
      case 0
      have "?h + ?h - Suc 0 = ?h + (?h - Suc 0)" using h by linarith
      then show ?thesis using 0 that by (simp add: bit_signed_drop_bit_word w2)
    qed (use n h that in \<open>simp_all add: bit_signed_drop_bit_word w2\<close>)
  qed
  show "(lo (signed_drop_bit b a) :: 'h word) = signed_drop_bit (b - ?h) (hi a)" if b: "?h \<le> b"
  proof (rule bit_word_eqI)
    fix n
    assume n: "n < ?h"
    have "?h + (b - ?h + n) = b + n" "b - ?h + n < ?h \<longleftrightarrow> b + n < ?h + ?h" using b by auto
    then show "bit (lo (signed_drop_bit b a) :: 'h word) n \<longleftrightarrow> bit (signed_drop_bit (b - ?h) (hi a) :: 'h word) n"
      using n h by (auto simp: bit_signed_drop_bit_word w2)
  qed
  show "(lo (signed_drop_bit b a) :: 'h word) = push_bit (?h - b) (hi a) OR drop_bit b (lo a)" if b: "b \<le> ?h"
  proof -
    have "(lo (signed_drop_bit b a) :: 'h word) = lo (drop_bit b a)"
      by (rule bit_word_eqI) (use b in \<open>auto simp: bit_signed_drop_bit_word bit_drop_bit_eq w\<close>)
    then show ?thesis using halves_drop_bit(2) [OF w b] by simp
  qed
qed

lemma ashrdi3_signed_drop_bit: "b < 64 \<Longrightarrow> ashrdi3 a b = signed_drop_bit b a"
  by (auto simp: ashrdi3_def Let_def shift_branch halves_signed_drop_bit intro!: join_eqI)

lemma ashrti3_signed_drop_bit: "b < 128 \<Longrightarrow> ashrti3 a b = signed_drop_bit b a"
  by (auto simp: ashrti3_def Let_def shift_branch halves_signed_drop_bit intro!: join_eqI)

section \<open>Comparisons\<close>

lemma unat_halves:
  fixes a :: "'w::len word"
  assumes "LENGTH('w) = 2 * LENGTH('h)"
  shows "unat a = unat (hi a :: 'h::len word) * 2 ^ LENGTH('h) + unat (lo a :: 'h word)"
proof -
  have d: "unat (drop_bit LENGTH('h) a) = unat a div 2 ^ LENGTH('h)"
    by (subst unsigned_drop_bit_eq) (simp add: drop_bit_eq_div take_bit_nat_eq_self)
  have "unat a < 2 ^ LENGTH('h) * 2 ^ LENGTH('h)"
    using unsigned_less [of a, where 'a = nat] unfolding assms by (simp add: power_add mult_2)
  then have "unat a div 2 ^ LENGTH('h) < 2 ^ LENGTH('h)" by (rule less_mult_imp_div_less)
  then have "unat (hi a :: 'h word) = unat a div 2 ^ LENGTH('h)"
    by (simp add: hi_def unsigned_ucast_eq take_bit_nat_eq_self d)
  moreover have "unat (lo a :: 'h word) = unat a mod 2 ^ LENGTH('h)"
    by (simp add: lo_def unsigned_ucast_eq take_bit_eq_mod)
  ultimately show ?thesis by (simp only: div_mult_mod_eq)
qed

lemma sint_uint_bit: "sint a = uint a - 2 ^ LENGTH('a) * of_bool (bit a (LENGTH('a) - 1))" for a :: "'a::len word"
proof -
  have "Suc (LENGTH('a) - Suc 0) = LENGTH('a)" by simp
  then show ?thesis
    by (simp add: sint_uint signed_take_bit_eq_take_bit_minus bit_uint_iff take_bit_int_eq_self)
qed

lemma uint_halves:
  fixes a :: "'w::len word"
  assumes "LENGTH('w) = 2 * LENGTH('h)"
  shows "uint a = uint (hi a :: 'h::len word) * 2 ^ LENGTH('h) + uint (lo a :: 'h word)"
  using arg_cong [OF unat_halves [OF assms, of a], of int] by (simp only: uint_nat of_nat_add of_nat_mult of_nat_power of_nat_numeral)

lemma sint_halves:
  fixes a :: "'w::len word"
  assumes "LENGTH('w) = 2 * LENGTH('h)"
  shows "sint a = sint (hi a :: 'h::len word) * 2 ^ LENGTH('h) + uint (lo a :: 'h word)"
proof -
  have "LENGTH('w) - 1 = LENGTH('h) + (LENGTH('h) - 1)" "LENGTH('h) - 1 < LENGTH('h)" using assms by auto
  then have "bit (hi a :: 'h word) (LENGTH('h) - 1) \<longleftrightarrow> bit a (LENGTH('w) - 1)" by (simp only: bit_hi) simp
  moreover have "(2 :: int) ^ LENGTH('w) = 2 ^ LENGTH('h) * 2 ^ LENGTH('h)"
    unfolding assms by (simp add: power_add mult_2)
  ultimately show ?thesis
    unfolding sint_uint_bit uint_halves [OF assms, of a] by (simp add: algebra_simps)
qed

lemma lex_less:
  fixes h h' l l' B :: int
  assumes "0 \<le> l" "l < B" "0 \<le> l'" "l' < B"
  shows "h * B + l < h' * B + l' \<longleftrightarrow> h < h' \<or> h = h' \<and> l < l'"
proof (cases h h' rule: linorder_cases)
  case less
  then have "(h + 1) * B \<le> h' * B" using assms by (intro mult_right_mono) simp_all
  then show ?thesis using less assms by (simp add: algebra_simps)
next
  case greater
  then have "(h' + 1) * B \<le> h * B" using assms by (intro mult_right_mono) simp_all
  then show ?thesis using greater assms by (simp add: algebra_simps)
qed simp

lemma wide_less:
  fixes a b :: "'w::len word"
  assumes "LENGTH('w) = 2 * LENGTH('h)"
  shows "a < b \<longleftrightarrow> (hi a :: 'h::len word) < hi b \<or> (hi a :: 'h word) = hi b \<and> (lo a :: 'h word) < lo b"
    and "sint a < sint b \<longleftrightarrow>
      sint (hi a :: 'h::len word) < sint (hi b :: 'h word) \<or> sint (hi a :: 'h word) = sint (hi b :: 'h word) \<and> (lo a :: 'h word) < lo b"
  unfolding word_less_def uint_halves [OF assms, of a] uint_halves [OF assms, of b]
    sint_halves [OF assms, of a] sint_halves [OF assms, of b]
  by (subst lex_less; simp add: word_uint_eq_iff)+

lemma cmpdi2_sint: "cmpdi2 a b = (if sint a < sint b then 0 else if sint a > sint b then 2 else 1)"
  unfolding cmpdi2_def Let_def
  using wide_less(2) [where 'w = 64 and 'h = 32, of a b] wide_less(2) [where 'w = 64 and 'h = 32, of b a]
  by (cases "sint (hi a :: u32)" "sint (hi b :: u32)" rule: linorder_cases) simp_all

lemma cmpti2_sint: "cmpti2 a b = (if sint a < sint b then 0 else if sint a > sint b then 2 else 1)"
  unfolding cmpti2_def Let_def
  using wide_less(2) [where 'w = 128 and 'h = 64, of a b] wide_less(2) [where 'w = 128 and 'h = 64, of b a]
  by (cases "sint (hi a :: u64)" "sint (hi b :: u64)" rule: linorder_cases) simp_all

lemma ucmpdi2_less: "ucmpdi2 a b = (if a < b then 0 else if a > b then 2 else 1)"
  unfolding ucmpdi2_def Let_def
  using wide_less(1) [where 'w = 64 and 'h = 32, of a b] wide_less(1) [where 'w = 64 and 'h = 32, of b a]
  by (cases "hi a :: u32" "hi b :: u32" rule: linorder_cases) simp_all

lemma ucmpti2_less: "ucmpti2 a b = (if a < b then 0 else if a > b then 2 else 1)"
  unfolding ucmpti2_def Let_def
  using wide_less(1) [where 'w = 128 and 'h = 64, of a b] wide_less(1) [where 'w = 128 and 'h = 64, of b a]
  by (cases "hi a :: u64" "hi b :: u64" rule: linorder_cases) simp_all

section \<open>Byte swaps\<close>

lemma byte_masks32:
  "(0xff000000 :: u32) = push_bit 24 (mask 8)" "(0x00ff0000 :: u32) = push_bit 16 (mask 8)"
  "(0x0000ff00 :: u32) = push_bit 8 (mask 8)" "(0x000000ff :: u32) = mask 8"
  by (simp_all add: mask_eq_exp_minus_1 push_bit_eq_mult)

lemma byte_masks64:
  "(0xff00000000000000 :: u64) = push_bit 56 (mask 8)" "(0x00ff000000000000 :: u64) = push_bit 48 (mask 8)"
  "(0x0000ff0000000000 :: u64) = push_bit 40 (mask 8)" "(0x000000ff00000000 :: u64) = push_bit 32 (mask 8)"
  "(0x00000000ff000000 :: u64) = push_bit 24 (mask 8)" "(0x0000000000ff0000 :: u64) = push_bit 16 (mask 8)"
  "(0x000000000000ff00 :: u64) = push_bit 8 (mask 8)" "(0x00000000000000ff :: u64) = mask 8"
  by (simp_all add: mask_eq_exp_minus_1 push_bit_eq_mult)

lemma less_4: "(i :: nat) < 4 \<Longrightarrow> i = 0 \<or> i = 1 \<or> i = 2 \<or> i = 3"
  by auto

lemma less_8: "(i :: nat) < 8 \<Longrightarrow> i = 0 \<or> i = 1 \<or> i = 2 \<or> i = 3 \<or> i = 4 \<or> i = 5 \<or> i = 6 \<or> i = 7"
  by auto

lemma bswapsi2_bytes:
  assumes "i < 4" and "j < 8"
  shows "bit (bswapsi2 u) (8 * i + j) \<longleftrightarrow> bit u (8 * (3 - i) + j)"
  using less_4 [OF assms(1)] assms(2) unfolding bswapsi2_def byte_masks32
  by (elim disjE) (simp_all add: bit_simps)

lemma bswapdi2_bytes:
  assumes "i < 8" and "j < 8"
  shows "bit (bswapdi2 u) (8 * i + j) \<longleftrightarrow> bit u (8 * (7 - i) + j)"
  using less_8 [OF assms(1)] assms(2) unfolding bswapdi2_def byte_masks64
  by (elim disjE) (simp_all add: bit_simps)

section \<open>Properties\<close>

text \<open>C22: A shift of a wide integer, put together from shifts of its halves, is the shift of the whole number,
  for every count below its width: to the left, to the right and to the right with the sign.\<close>

theorem wide_shifts_correct:
  "(k < 64 \<longrightarrow> ashldi3 a k = push_bit k a \<and> lshrdi3 a k = drop_bit k a \<and> ashrdi3 a k = signed_drop_bit k a)
   \<and> (k < 128 \<longrightarrow> ashlti3 b k = push_bit k b \<and> lshrti3 b k = drop_bit k b \<and> ashrti3 b k = signed_drop_bit k b)"
  by (simp add: ashldi3_push_bit lshrdi3_drop_bit ashrdi3_signed_drop_bit
      ashlti3_push_bit lshrti3_drop_bit ashrti3_signed_drop_bit)

theorem wide_shifts_correct_witness:
  "ashldi3 0x80000001 33 = 0x200000000 \<and> lshrti3 (push_bit 100 1) 99 = 2"
  using wide_shifts_correct [of 33 "0x80000001" 0] wide_shifts_correct [of 99 0 "push_bit 100 1"]
  by (simp add: push_bit_eq_mult drop_bit_eq_div)

text \<open>C23: The comparisons return 0, 1 or 2 for less, equal or greater, read as signed or as unsigned numbers; a
  byte swap moves byte \<open>i\<close> to the mirrored place.\<close>

theorem wide_comparisons_and_swaps:
  "cmpdi2 a b = (if sint a < sint b then 0 else if sint a > sint b then 2 else 1)
   \<and> cmpti2 c d = (if sint c < sint d then 0 else if sint c > sint d then 2 else 1)
   \<and> ucmpdi2 a b = (if a < b then 0 else if a > b then 2 else 1)
   \<and> ucmpti2 c d = (if c < d then 0 else if c > d then 2 else 1)
   \<and> (i < 4 \<and> j < 8 \<longrightarrow> bit (bswapsi2 u) (8 * i + j) = bit u (8 * (3 - i) + j))
   \<and> (i < 8 \<and> j < 8 \<longrightarrow> bit (bswapdi2 a) (8 * i + j) = bit a (8 * (7 - i) + j))"
  by (simp add: cmpdi2_sint cmpti2_sint ucmpdi2_less ucmpti2_less bswapsi2_bytes bswapdi2_bytes)

theorem wide_comparisons_and_swaps_witness:
  "cmpdi2 0xFFFFFFFFFFFFFFFF 1 = 0 \<and> ucmpdi2 0xFFFFFFFFFFFFFFFF 1 = 2 \<and> bit (bswapdi2 0x0100) (8 * 6 + 0)"
  using wide_comparisons_and_swaps [of "0xFFFFFFFFFFFFFFFF" 1 0 0 0 0 0] wide_comparisons_and_swaps [of "0x0100" 0 0 0 6 0 0]
  by simp

end
