(* ===== verification/Cc_Counts.thy ===== *)
theory Cc_Counts
  imports Cc_Bits
begin

text \<open>
  The run-time routines that count bits (\<^verbatim>\<open>common/cc-runtime.s2.c\<close>): leading and trailing zeros, the
  lowest bit set, parity and population count, in the three widths.
\<close>

section \<open>Counting bits\<close>

text \<open>\<^verbatim>\<open>__builtin_clz\<close> and \<^verbatim>\<open>__builtin_ctz\<close> and their \<^verbatim>\<open>long long\<close> versions: the number of zero bits
  above the highest bit set and below the lowest one. They are undefined for zero; here they give the
  width.\<close>

definition builtin_clz :: "'a::len word \<Rightarrow> nat" where
  "builtin_clz x = length (takeWhile (\<lambda>i. \<not> bit x (LENGTH('a) - Suc i)) [0..<LENGTH('a)])"

definition builtin_ctz :: "'a::len word \<Rightarrow> nat" where
  "builtin_ctz x = length (takeWhile (\<lambda>i. \<not> bit x i) [0..<LENGTH('a)])"

text \<open>A comparison used as a number, negated, is a mask of zeros or ones.\<close>

definition clzsi2 :: "u32 \<Rightarrow> u32" where
  "clzsi2 a =
     (let x = a; t = push_bit 4 (of_bool (x AND 0xFFFF0000 = 0)) :: u32;
          x = drop_bit (unat (16 - t)) x; r = t;
          t = push_bit 3 (of_bool (x AND 0xFF00 = 0)); x = drop_bit (unat (8 - t)) x; r = r + t;
          t = push_bit 2 (of_bool (x AND 0xF0 = 0)); x = drop_bit (unat (4 - t)) x; r = r + t;
          t = push_bit 1 (of_bool (x AND 0xC = 0)); x = drop_bit (unat (2 - t)) x; r = r + t
      in r + ((2 - x) AND - of_bool (x AND 2 = 0)))"

definition clzdi2 :: "u64 \<Rightarrow> u32" where
  "clzdi2 a =
     (let low = lo a :: u32; high = hi a :: u32; f = - of_bool (high = 0) :: u32
      in of_nat (builtin_clz ((high AND NOT f) OR (low AND f))) + (f AND 32))"

definition clzti2 :: "u128 \<Rightarrow> u32" where
  "clzti2 a =
     (let low = lo a :: u64; high = hi a :: u64; f = - of_bool (high = 0) :: u64
      in of_nat (builtin_clz ((high AND NOT f) OR (low AND f))) + (ucast f AND 64))"

definition ctzsi2 :: "u32 \<Rightarrow> u32" where
  "ctzsi2 a =
     (let x = a; t = push_bit 4 (of_bool (x AND 0x0000FFFF = 0)) :: u32; x = drop_bit (unat t) x; r = t;
          t = push_bit 3 (of_bool (x AND 0x00FF = 0)); x = drop_bit (unat t) x; r = r + t;
          t = push_bit 2 (of_bool (x AND 0x0F = 0)); x = drop_bit (unat t) x; r = r + t;
          t = push_bit 1 (of_bool (x AND 0x3 = 0)); x = drop_bit (unat t) x; x = x AND 3; r = r + t
      in r + ((2 - drop_bit 1 x) AND - of_bool (x AND 1 = 0)))"

definition ctzdi2 :: "u64 \<Rightarrow> u32" where
  "ctzdi2 a =
     (let low = lo a :: u32; high = hi a :: u32; f = - of_bool (low = 0) :: u32
      in of_nat (builtin_ctz ((high AND f) OR (low AND NOT f))) + (f AND 32))"

definition ctzti2 :: "u128 \<Rightarrow> u32" where
  "ctzti2 a =
     (let low = lo a :: u64; high = hi a :: u64; f = - of_bool (low = 0) :: u64
      in of_nat (builtin_ctz ((high AND f) OR (low AND NOT f))) + (ucast f AND 64))"

definition ffssi2 :: "u32 \<Rightarrow> u32" where
  "ffssi2 a = (if a = 0 then 0 else of_nat (builtin_ctz a) + 1)"

definition ffsdi2 :: "u64 \<Rightarrow> u32" where
  "ffsdi2 a =
     (let low = lo a :: u32; high = hi a :: u32 in
      if low = 0 then (if high = 0 then 0 else of_nat (builtin_ctz high) + (1 + 32))
      else of_nat (builtin_ctz low) + 1)"

definition ffsti2 :: "u128 \<Rightarrow> u32" where
  "ffsti2 a =
     (let low = lo a :: u64; high = hi a :: u64 in
      if low = 0 then (if high = 0 then 0 else of_nat (builtin_ctz high) + (1 + 64))
      else of_nat (builtin_ctz low) + 1)"

definition paritysi2 :: "u32 \<Rightarrow> u32" where
  "paritysi2 a =
     (let x = a; x = x XOR drop_bit 16 x; x = x XOR drop_bit 8 x; x = x XOR drop_bit 4 x
      in drop_bit (unat (x AND 0xF)) 0x6996 AND 1)"

definition paritydi2 :: "u64 \<Rightarrow> u32" where
  "paritydi2 a =
     (let x2 = hi a XOR lo a :: u32;
          x2 = x2 XOR drop_bit 16 x2; x2 = x2 XOR drop_bit 8 x2; x2 = x2 XOR drop_bit 4 x2
      in drop_bit (unat (x2 AND 0xF)) 0x6996 AND 1)"

definition parityti2 :: "u128 \<Rightarrow> u32" where
  "parityti2 a =
     (let x2 = hi a XOR lo a :: u64; x3 = hi x2 XOR lo x2 :: u32;
          x3 = x3 XOR drop_bit 16 x3; x3 = x3 XOR drop_bit 8 x3; x3 = x3 XOR drop_bit 4 x3
      in drop_bit (unat (x3 AND 0xF)) 0x6996 AND 1)"

definition popcountsi2 :: "u32 \<Rightarrow> u32" where
  "popcountsi2 a =
     (let x = a;
          x = x - (drop_bit 1 x AND 0x55555555);
          x = (drop_bit 2 x AND 0x33333333) + (x AND 0x33333333);
          x = (x + drop_bit 4 x) AND 0x0F0F0F0F;
          x = x + drop_bit 16 x
      in (x + drop_bit 8 x) AND 0x0000003F)"

definition popcountdi2 :: "u64 \<Rightarrow> u32" where
  "popcountdi2 a =
     (let x2 = a;
          x2 = x2 - (drop_bit 1 x2 AND 0x5555555555555555);
          x2 = (drop_bit 2 x2 AND 0x3333333333333333) + (x2 AND 0x3333333333333333);
          x2 = (x2 + drop_bit 4 x2) AND 0x0F0F0F0F0F0F0F0F;
          x = ucast (x2 + drop_bit 32 x2) :: u32;
          x = x + drop_bit 16 x
      in (x + drop_bit 8 x) AND 0x0000007F)"

definition popcountti2 :: "u128 \<Rightarrow> u32" where
  "popcountti2 a =
     (let x3 = a;
          x3 = x3 - (drop_bit 1 x3 AND (push_bit 64 0x5555555555555555 OR 0x5555555555555555));
          x3 = (drop_bit 2 x3 AND (push_bit 64 0x3333333333333333 OR 0x3333333333333333))
             + (x3 AND (push_bit 64 0x3333333333333333 OR 0x3333333333333333));
          x3 = (x3 + drop_bit 4 x3) AND (push_bit 64 0x0F0F0F0F0F0F0F0F OR 0x0F0F0F0F0F0F0F0F);
          x2 = ucast (x3 + drop_bit 64 x3) :: u64;
          x = ucast (x2 + drop_bit 32 x2) :: u32;
          x = x + drop_bit 16 x
      in (x + drop_bit 8 x) AND 0xFF)"

section \<open>Leading zeros\<close>

lemma takeWhile_upt:
  assumes "k \<le> n" and "\<And>i. i < k \<Longrightarrow> P i" and "k < n \<Longrightarrow> \<not> P k"
  shows "length (takeWhile P [0..<n]) = k"
proof -
  have "[0..<n] = [0..<k] @ [k..<n]" using assms(1) by (metis le0 upt_add_eq_append le_add_diff_inverse)
  moreover have "takeWhile P [k..<n] = []" using assms(3) by (cases "k < n") (simp_all add: upt_conv_Cons)
  ultimately show ?thesis using assms(2) by (subst \<open>[0..<n] = _\<close>, subst takeWhile_append2) auto
qed

text \<open>\<open>top_bit x m\<close>: the highest bit set of \<open>x\<close> is \<open>m\<close>.\<close>

definition top_bit :: "'a::len word \<Rightarrow> nat \<Rightarrow> bool" where
  "top_bit x m \<longleftrightarrow> bit x m \<and> (\<forall>i. m < i \<longrightarrow> \<not> bit x i)"

lemma top_bit_exists:
  fixes x :: "'a::len word"
  assumes "x \<noteq> 0"
  obtains m where "top_bit x m" and "m < LENGTH('a)"
proof -
  let ?S = "Collect (bit x)"
  have fin: "finite ?S" by (rule finite_subset [of _ "{..<LENGTH('a)}"]) (auto dest: bit_imp_le_length)
  have "\<exists>i. bit x i" using assms bit_word_eqI [of x 0] by auto
  then have "Max ?S \<in> ?S" using fin by (intro Max_in) auto
  then have set: "bit x (Max ?S)" by (rule CollectD)
  have "i \<le> Max ?S" if "bit x i" for i using fin CollectI [of "bit x", OF that] by (rule Max_ge)
  then have "\<not> bit x i" if "Max ?S < i" for i using that leD by blast
  with set have "top_bit x (Max ?S)" unfolding top_bit_def by blast
  then show thesis using that bit_imp_le_length [OF set] by blast
qed

lemma clz_top_bit:
  fixes x :: "'a::len word"
  assumes "top_bit x m"
  shows "builtin_clz x = LENGTH('a) - Suc m"
proof -
  have "m < LENGTH('a)" using assms bit_imp_le_length by (auto simp: top_bit_def)
  then show ?thesis unfolding builtin_clz_def
    by (intro takeWhile_upt) (use assms in \<open>auto simp: top_bit_def Suc_diff_Suc\<close>)
qed

text \<open>One step of the search by halving: is the highest bit in the upper half of the \<open>2 * k\<close> bits?\<close>

lemma top_bit_half:
  fixes x :: "'a::len word"
  assumes "top_bit x m" and "m < 2 * k"
  shows "x AND push_bit k (mask k) = 0 \<longleftrightarrow> m < k"
    and "\<not> m < k \<Longrightarrow> top_bit (drop_bit k x) (m - k)"
proof -
  have m: "m < LENGTH('a)" "bit x m" "\<And>i. m < i \<Longrightarrow> \<not> bit x i"
    using assms bit_imp_le_length by (auto simp: top_bit_def)
  show "x AND push_bit k (mask k) = 0 \<longleftrightarrow> m < k"
  proof
    assume "x AND push_bit k (mask k) = 0"
    then have "\<not> bit (x AND push_bit k (mask k)) m" by simp
    then show "m < k" using m(1,2) assms(2) by (auto simp: bit_simps)
  next
    assume "m < k"
    then show "x AND push_bit k (mask k) = 0" using m(3) by (intro bit_word_eqI) (auto simp: bit_simps)
  qed
  show "top_bit (drop_bit k x) (m - k)" if "\<not> m < k"
    using that m by (auto simp: top_bit_def bit_drop_bit_eq)
qed

lemma half_masks:
  "(0xFFFF0000 :: u32) = push_bit 16 (mask 16)" "(0xFF00 :: u32) = push_bit 8 (mask 8)"
  "(0xF0 :: u32) = push_bit 4 (mask 4)" "(0xC :: u32) = push_bit 2 (mask 2)"
  "(0xFFFF :: u32) = mask 16" "(0xFF :: u32) = mask 8" "(0xF :: u32) = mask 4" "(3 :: u32) = mask 2"
  by (simp_all add: mask_eq_exp_minus_1 push_bit_eq_mult)

lemma flag_shifts:
  "push_bit 4 (of_bool c :: u32) = (if c then 16 else 0)" "push_bit 3 (of_bool c :: u32) = (if c then 8 else 0)"
  "push_bit 2 (of_bool c :: u32) = (if c then 4 else 0)" "push_bit 1 (of_bool c :: u32) = (if c then 2 else 0)"
  by (simp_all add: push_bit_eq_mult)

lemma top_bit_leaf:
  fixes x :: u32
  assumes "top_bit x m" and "m < 2"
  shows "(2 - x) AND - of_bool (x AND 2 = 0) = of_nat (1 - m)"
proof -
  have "drop_bit 2 x = 0" using assms by (intro bit_word_eqI) (auto simp: top_bit_def bit_drop_bit_eq)
  then have "unat x < 4" by (simp add: drop_bit_eq_div word_unat_eq_iff unat_div div_eq_0_iff)
  then have "unat x = 0 \<or> unat x = 1 \<or> unat x = 2 \<or> unat x = 3" by auto
  then have "x = 0 \<or> x = 1 \<or> x = 2 \<or> x = 3" by (simp add: word_unat_eq_iff)
  moreover have "m = 0 \<and> bit x 0 \<and> \<not> bit x 1 \<or> m = 1 \<and> bit x 1" using assms by (auto simp: top_bit_def less_2_cases_iff)
  ultimately show ?thesis by (elim disjE conjE) (simp_all add: bit_simps)
qed

lemma clzsi2_nonzero:
  assumes "a \<noteq> 0"
  shows "clzsi2 a = of_nat (builtin_clz a)"
proof -
  from top_bit_exists [OF assms] obtain m where m: "top_bit a m" "m < 32" by auto
  define x1 where "x1 = (if m < 16 then a else drop_bit 16 a)"
  define m1 where "m1 = (if m < 16 then m else m - 16)"
  have 1: "top_bit x1 m1" "m1 < 16"
    "push_bit 4 (of_bool (a AND 0xFFFF0000 = 0) :: u32) = (if m < 16 then 16 else 0)"
    "drop_bit (unat (16 - push_bit 4 (of_bool (a AND 0xFFFF0000 = 0)) :: u32)) a = x1"
    using top_bit_half [OF m(1), of 16, folded half_masks] m
    by (auto simp: flag_shifts x1_def m1_def)
  define x2 where "x2 = (if m1 < 8 then x1 else drop_bit 8 x1)"
  define m2 where "m2 = (if m1 < 8 then m1 else m1 - 8)"
  have 2: "top_bit x2 m2" "m2 < 8"
    "push_bit 3 (of_bool (x1 AND 0xFF00 = 0) :: u32) = (if m1 < 8 then 8 else 0)"
    "drop_bit (unat (8 - push_bit 3 (of_bool (x1 AND 0xFF00 = 0)) :: u32)) x1 = x2"
    using top_bit_half [OF 1(1), of 8, folded half_masks] 1(1,2)
    by (auto simp: flag_shifts x2_def m2_def)
  define x3 where "x3 = (if m2 < 4 then x2 else drop_bit 4 x2)"
  define m3 where "m3 = (if m2 < 4 then m2 else m2 - 4)"
  have 3: "top_bit x3 m3" "m3 < 4"
    "push_bit 2 (of_bool (x2 AND 0xF0 = 0) :: u32) = (if m2 < 4 then 4 else 0)"
    "drop_bit (unat (4 - push_bit 2 (of_bool (x2 AND 0xF0 = 0)) :: u32)) x2 = x3"
    using top_bit_half [OF 2(1), of 4, folded half_masks] 2(1,2)
    by (auto simp: flag_shifts x3_def m3_def)
  define x4 where "x4 = (if m3 < 2 then x3 else drop_bit 2 x3)"
  define m4 where "m4 = (if m3 < 2 then m3 else m3 - 2)"
  have 4: "top_bit x4 m4" "m4 < 2"
    "push_bit 1 (of_bool (x3 AND 0xC = 0) :: u32) = (if m3 < 2 then 2 else 0)"
    "drop_bit (unat (2 - push_bit 1 (of_bool (x3 AND 0xC = 0)) :: u32)) x3 = x4"
    using top_bit_half [OF 3(1), of 2, folded half_masks] 3(1,2)
    by (auto simp: flag_shifts x4_def m4_def)
  let ?r = "(if m < 16 then 16 else 0) + (if m1 < 8 then 8 else 0) + (if m2 < 4 then 4 else 0) + (if m3 < 2 then 2 else 0)"
  have "clzsi2 a = ?r + ((2 - x4) AND - of_bool (x4 AND 2 = 0))"
    unfolding clzsi2_def Let_def 1(4) 2(4) 3(4) 4(4) unfolding 1(3) 2(3) 3(3) 4(3) ..
  also have "\<dots> = ?r + of_nat (1 - m4)" by (simp only: top_bit_leaf [OF 4(1,2)])
  also have "\<dots> = of_nat (?r + (1 - m4))" by simp
  also have "?r + (1 - m4) = 31 - m" using m(2) by (auto simp: m1_def m2_def m3_def m4_def)
  finally show ?thesis by (simp add: clz_top_bit [OF m(1)])
qed

lemma clz_zero: "builtin_clz (0 :: 'a::len word) = LENGTH('a)"
  unfolding builtin_clz_def by (intro takeWhile_upt) simp_all

lemma clzsi2_correct: "clzsi2 a = of_nat (builtin_clz a)"
proof (cases "a = 0")
  case True
  have "clzsi2 0 = 32" by code_simp
  then show ?thesis by (simp add: True clz_zero)
qed (rule clzsi2_nonzero)

lemma top_bit_halves:
  fixes a :: "'w::len word"
  assumes "LENGTH('w) = 2 * LENGTH('h)" and "top_bit a m"
  shows "(hi a :: 'h::len word) = 0 \<longleftrightarrow> m < LENGTH('h)"
    and "m < LENGTH('h) \<Longrightarrow> top_bit (lo a :: 'h word) m"
    and "\<not> m < LENGTH('h) \<Longrightarrow> top_bit (hi a :: 'h word) (m - LENGTH('h))"
proof -
  have m: "m < LENGTH('w)" "bit a m" "\<And>i. m < i \<Longrightarrow> \<not> bit a i"
    using assms(2) bit_imp_le_length by (auto simp: top_bit_def)
  show "(hi a :: 'h word) = 0 \<longleftrightarrow> m < LENGTH('h)"
  proof
    assume "(hi a :: 'h word) = 0"
    then have "\<not> bit (hi a :: 'h word) (m - LENGTH('h))" by simp
    then show "m < LENGTH('h)" using m(1,2) assms(1) by (cases "m < LENGTH('h)") (simp_all add: not_less)
  next
    assume "m < LENGTH('h)"
    then show "(hi a :: 'h word) = 0" using m(3) by (intro bit_word_eqI) auto
  qed
  show "top_bit (lo a :: 'h word) m" if "m < LENGTH('h)" using that m by (auto simp: top_bit_def)
  show "top_bit (hi a :: 'h word) (m - LENGTH('h))" if "\<not> m < LENGTH('h)"
    using that m assms(1) by (auto simp: top_bit_def)
qed

lemma cast_ones [simp]: "ucast (- 1 :: u64) = (- 1 :: u32)"
  by (rule bit_word_eqI) (simp add: bit_simps)

lemma clzdi2_correct:
  assumes "a \<noteq> 0"
  shows "clzdi2 a = of_nat (builtin_clz a)"
proof -
  from top_bit_exists [OF assms] obtain m where m: "top_bit a m" "m < 64" by auto
  note h = top_bit_halves [where 'w = 64 and 'h = 32, OF _ m(1), simplified]
  show ?thesis
  proof (cases "m < 32")
    case True
    then have "32 + (31 - m) = 63 - m" by simp
    then have "(32 :: u32) + of_nat (31 - m) = of_nat (63 - m)" by (metis of_nat_add of_nat_numeral)
    then show ?thesis using True h(1) clz_top_bit [OF h(2) [OF True]] clz_top_bit [OF m(1)]
      by (simp add: clzdi2_def Let_def add.commute)
  next
    case False
    then show ?thesis using h(1) clz_top_bit [OF h(3) [OF False]] clz_top_bit [OF m(1)]
      by (simp add: clzdi2_def Let_def)
  qed
qed

lemma clzti2_correct:
  assumes "a \<noteq> 0"
  shows "clzti2 a = of_nat (builtin_clz a)"
proof -
  from top_bit_exists [OF assms] obtain m where m: "top_bit a m" "m < 128" by auto
  note h = top_bit_halves [where 'w = 128 and 'h = 64, OF _ m(1), simplified]
  show ?thesis
  proof (cases "m < 64")
    case True
    then have "64 + (63 - m) = 127 - m" by simp
    then have "(64 :: u32) + of_nat (63 - m) = of_nat (127 - m)" by (metis of_nat_add of_nat_numeral)
    then show ?thesis using True h(1) clz_top_bit [OF h(2) [OF True]] clz_top_bit [OF m(1)]
      by (simp add: clzti2_def Let_def add.commute)
  next
    case False
    then show ?thesis using h(1) clz_top_bit [OF h(3) [OF False]] clz_top_bit [OF m(1)]
      by (simp add: clzti2_def Let_def)
  qed
qed

section \<open>Trailing zeros\<close>

text \<open>\<open>low_bit x m\<close>: the lowest bit set of \<open>x\<close> is \<open>m\<close>.\<close>

definition low_bit :: "'a::len word \<Rightarrow> nat \<Rightarrow> bool" where
  "low_bit x m \<longleftrightarrow> bit x m \<and> (\<forall>i < m. \<not> bit x i)"

lemma low_bit_exists:
  fixes x :: "'a::len word"
  assumes "x \<noteq> 0"
  obtains m where "low_bit x m" and "m < LENGTH('a)"
proof -
  have "\<exists>i. bit x i" using assms bit_word_eqI [of x 0] by auto
  then have set: "bit x (Least (bit x))" by (rule LeastI_ex)
  moreover have "\<not> bit x i" if "i < Least (bit x)" for i using that by (rule not_less_Least)
  ultimately have "low_bit x (Least (bit x))" unfolding low_bit_def by blast
  then show thesis using that bit_imp_le_length [OF set] by blast
qed

lemma ctz_low_bit:
  fixes x :: "'a::len word"
  assumes "low_bit x m"
  shows "builtin_ctz x = m"
proof -
  have "m < LENGTH('a)" using assms bit_imp_le_length by (auto simp: low_bit_def)
  then show ?thesis unfolding builtin_ctz_def
    by (intro takeWhile_upt) (use assms in \<open>auto simp: low_bit_def\<close>)
qed

lemma low_bit_half:
  fixes x :: "'a::len word"
  assumes "low_bit x m"
  shows "x AND mask k = 0 \<longleftrightarrow> \<not> m < k" and "\<not> m < k \<Longrightarrow> low_bit (drop_bit k x) (m - k)"
proof -
  have m: "m < LENGTH('a)" "bit x m" "\<And>i. i < m \<Longrightarrow> \<not> bit x i"
    using assms bit_imp_le_length by (auto simp: low_bit_def)
  show "x AND mask k = 0 \<longleftrightarrow> \<not> m < k"
  proof
    assume "x AND mask k = 0"
    then have "\<not> bit (x AND mask k) m" by simp
    then show "\<not> m < k" using m(1,2) by (auto simp: bit_simps)
  next
    assume "\<not> m < k"
    then show "x AND mask k = 0" using m(3) by (intro bit_word_eqI) (auto simp: bit_simps)
  qed
  show "low_bit (drop_bit k x) (m - k)" if "\<not> m < k"
    using that m by (auto simp: low_bit_def bit_drop_bit_eq)
qed

lemma low_bit_leaf:
  fixes x :: u32
  assumes "low_bit x m" and "m < 2"
  shows "(2 - drop_bit 1 (x AND 3)) AND - of_bool ((x AND 3) AND 1 = 0) = of_nat m"
proof -
  have x: "x AND 3 = of_bool (bit x 0) + 2 * of_bool (bit x 1)"
  proof -
    have "x AND 3 = take_bit (Suc (Suc 0)) x" unfolding half_masks(8) take_bit_eq_mask by (simp only: numeral_2_eq_2)
    then show ?thesis by (simp only: take_bit_Suc take_bit_0) (simp add: bit_0 bit_Suc mod_2_eq_odd)
  qed
  have "m = 0 \<and> bit x 0 \<or> m = 1 \<and> bit x 1 \<and> \<not> bit x 0" using assms by (auto simp: low_bit_def less_2_cases_iff)
  then show ?thesis unfolding x by (elim disjE conjE; cases "bit x 1") simp_all
qed

lemma ctzsi2_nonzero:
  assumes "a \<noteq> 0"
  shows "ctzsi2 a = of_nat (builtin_ctz a)"
proof -
  from low_bit_exists [OF assms] obtain m where m: "low_bit a m" "m < 32" by auto
  define x1 where "x1 = (if m < 16 then a else drop_bit 16 a)"
  define m1 where "m1 = (if m < 16 then m else m - 16)"
  have 1: "low_bit x1 m1" "m1 < 16"
    "push_bit 4 (of_bool (a AND 0xFFFF = 0) :: u32) = (if m < 16 then 0 else 16)"
    "drop_bit (unat (push_bit 4 (of_bool (a AND 0xFFFF = 0)) :: u32)) a = x1"
    using low_bit_half [OF m(1), of 16, folded half_masks] m
    by (auto simp: flag_shifts x1_def m1_def)
  define x2 where "x2 = (if m1 < 8 then x1 else drop_bit 8 x1)"
  define m2 where "m2 = (if m1 < 8 then m1 else m1 - 8)"
  have 2: "low_bit x2 m2" "m2 < 8"
    "push_bit 3 (of_bool (x1 AND 0xFF = 0) :: u32) = (if m1 < 8 then 0 else 8)"
    "drop_bit (unat (push_bit 3 (of_bool (x1 AND 0xFF = 0)) :: u32)) x1 = x2"
    using low_bit_half [OF 1(1), of 8, folded half_masks] 1(1,2)
    by (auto simp: flag_shifts x2_def m2_def)
  define x3 where "x3 = (if m2 < 4 then x2 else drop_bit 4 x2)"
  define m3 where "m3 = (if m2 < 4 then m2 else m2 - 4)"
  have 3: "low_bit x3 m3" "m3 < 4"
    "push_bit 2 (of_bool (x2 AND 0xF = 0) :: u32) = (if m2 < 4 then 0 else 4)"
    "drop_bit (unat (push_bit 2 (of_bool (x2 AND 0xF = 0)) :: u32)) x2 = x3"
    using low_bit_half [OF 2(1), of 4, folded half_masks] 2(1,2)
    by (auto simp: flag_shifts x3_def m3_def)
  define x4 where "x4 = (if m3 < 2 then x3 else drop_bit 2 x3)"
  define m4 where "m4 = (if m3 < 2 then m3 else m3 - 2)"
  have 4: "low_bit x4 m4" "m4 < 2"
    "push_bit 1 (of_bool (x3 AND 3 = 0) :: u32) = (if m3 < 2 then 0 else 2)"
    "drop_bit (unat (push_bit 1 (of_bool (x3 AND 3 = 0)) :: u32)) x3 = x4"
    using low_bit_half [OF 3(1), of 2, folded half_masks] 3(1,2)
    by (auto simp: flag_shifts x4_def m4_def)
  let ?r = "(if m < 16 then 0 else 16) + (if m1 < 8 then 0 else 8) + (if m2 < 4 then 0 else 4) + (if m3 < 2 then 0 else 2)"
  have "ctzsi2 a = ?r + ((2 - drop_bit 1 (x4 AND 3)) AND - of_bool ((x4 AND 3) AND 1 = 0))"
    unfolding ctzsi2_def Let_def 1(4) 2(4) 3(4) 4(4) unfolding 1(3) 2(3) 3(3) 4(3) ..
  also have "\<dots> = ?r + of_nat m4" by (simp only: low_bit_leaf [OF 4(1,2)])
  also have "\<dots> = of_nat (?r + m4)" by simp
  also have "?r + m4 = m" by (auto simp: m1_def m2_def m3_def m4_def)
  finally show ?thesis by (simp add: ctz_low_bit [OF m(1)])
qed

lemma ctz_zero: "builtin_ctz (0 :: 'a::len word) = LENGTH('a)"
  unfolding builtin_ctz_def by (intro takeWhile_upt) simp_all

lemma ctzsi2_correct: "ctzsi2 a = of_nat (builtin_ctz a)"
proof (cases "a = 0")
  case True
  have "ctzsi2 0 = 32" by code_simp
  then show ?thesis by (simp add: True ctz_zero)
qed (rule ctzsi2_nonzero)

lemma low_bit_halves:
  fixes a :: "'w::len word"
  assumes "LENGTH('w) = 2 * LENGTH('h)" and "low_bit a m"
  shows "(lo a :: 'h::len word) = 0 \<longleftrightarrow> \<not> m < LENGTH('h)"
    and "m < LENGTH('h) \<Longrightarrow> low_bit (lo a :: 'h word) m"
    and "\<not> m < LENGTH('h) \<Longrightarrow> low_bit (hi a :: 'h word) (m - LENGTH('h))"
proof -
  have m: "m < LENGTH('w)" "bit a m" "\<And>i. i < m \<Longrightarrow> \<not> bit a i"
    using assms(2) bit_imp_le_length by (auto simp: low_bit_def)
  show "(lo a :: 'h word) = 0 \<longleftrightarrow> \<not> m < LENGTH('h)"
  proof
    assume "(lo a :: 'h word) = 0"
    then have "\<not> bit (lo a :: 'h word) m" by simp
    then show "\<not> m < LENGTH('h)" using m(2) by simp
  next
    assume "\<not> m < LENGTH('h)"
    then show "(lo a :: 'h word) = 0" using m(3) by (intro bit_word_eqI) simp
  qed
  show "low_bit (lo a :: 'h word) m" if "m < LENGTH('h)" using that m by (simp add: low_bit_def)
  show "low_bit (hi a :: 'h word) (m - LENGTH('h))" if "\<not> m < LENGTH('h)"
    using that m assms(1) by (simp add: low_bit_def)
qed

lemma wide_offset:
  "\<not> m < 32 \<Longrightarrow> (of_nat (m - 32) + 32 :: u32) = of_nat m" "\<not> m < 64 \<Longrightarrow> (of_nat (m - 64) + 64 :: u32) = of_nat m"
  by (simp_all add: of_nat_diff not_less)

lemma ctzdi2_correct:
  assumes "a \<noteq> 0"
  shows "ctzdi2 a = of_nat (builtin_ctz a)"
proof -
  from low_bit_exists [OF assms] obtain m where m: "low_bit a m" by blast
  note h = low_bit_halves [where 'w = 64 and 'h = 32, OF _ m, simplified]
  show ?thesis using h(1) ctz_low_bit [OF h(2)] ctz_low_bit [OF h(3)] ctz_low_bit [OF m]
    by (cases "m < 32") (simp_all add: ctzdi2_def Let_def wide_offset)
qed

lemma ctzti2_correct:
  assumes "a \<noteq> 0"
  shows "ctzti2 a = of_nat (builtin_ctz a)"
proof -
  from low_bit_exists [OF assms] obtain m where m: "low_bit a m" by blast
  note h = low_bit_halves [where 'w = 128 and 'h = 64, OF _ m, simplified]
  show ?thesis using h(1) ctz_low_bit [OF h(2)] ctz_low_bit [OF h(3)] ctz_low_bit [OF m]
    by (cases "m < 64") (simp_all add: ctzti2_def Let_def wide_offset)
qed

lemma halves_zero: "(lo (0 :: 'w::len word) :: 'h::len word) = 0" "(hi (0 :: 'w word) :: 'h word) = 0"
  by (simp_all add: lo_def hi_def)

lemma ffs_wide:
  fixes a :: "'w::len word"
  assumes "LENGTH('w) = 2 * LENGTH('h)" and "low_bit a m" and "h = of_nat LENGTH('h)"
  shows "(if (lo a :: 'h::len word) = 0
      then if (hi a :: 'h word) = 0 then 0 else of_nat (builtin_ctz (hi a :: 'h word)) + (1 + h)
      else of_nat (builtin_ctz (lo a :: 'h word)) + 1) = (of_nat m + 1 :: u32)"
proof (cases "m < LENGTH('h)")
  case True
  then show ?thesis using low_bit_halves(1,2) [OF assms(1,2)] ctz_low_bit [of "lo a :: 'h word" m] by simp
next
  case False
  have "(of_nat (m - LENGTH('h)) + of_nat LENGTH('h) :: u32) = of_nat m"
    using False by (simp add: of_nat_diff not_less)
  moreover have "bit (hi a :: 'h word) (m - LENGTH('h))" using low_bit_halves(3) [OF assms(1,2) False] by (simp add: low_bit_def)
  then have "(hi a :: 'h word) \<noteq> 0" by (auto simp del: bit_hi)
  ultimately show ?thesis
    using False low_bit_halves(1,3) [OF assms(1,2)] ctz_low_bit [of "hi a :: 'h word" "m - LENGTH('h)"] by (simp add: assms(3) add.commute add.left_commute)
qed

lemma ffs_correct:
  "ffssi2 x = (if x = 0 then 0 else of_nat (builtin_ctz x) + 1)"
  "ffsdi2 a = (if a = 0 then 0 else of_nat (builtin_ctz a) + 1)"
  "ffsti2 b = (if b = 0 then 0 else of_nat (builtin_ctz b) + 1)"
proof -
  show "ffssi2 x = (if x = 0 then 0 else of_nat (builtin_ctz x) + 1)" by (simp add: ffssi2_def)
  show "ffsdi2 a = (if a = 0 then 0 else of_nat (builtin_ctz a) + 1)"
  proof (cases "a = 0")
    case False
    from low_bit_exists [OF False] obtain m where m: "low_bit a m" by blast
    from ffs_wide [where 'w = 64 and 'h = 32 and h = 32, OF _ m] False show ?thesis
      by (simp add: ffsdi2_def Let_def ctz_low_bit [OF m])
  qed (simp add: ffsdi2_def halves_zero)
  show "ffsti2 b = (if b = 0 then 0 else of_nat (builtin_ctz b) + 1)"
  proof (cases "b = 0")
    case False
    from low_bit_exists [OF False] obtain m where m: "low_bit b m" by blast
    from ffs_wide [where 'w = 128 and 'h = 64 and h = 64, OF _ m] False show ?thesis
      by (simp add: ffsti2_def Let_def ctz_low_bit [OF m])
  qed (simp add: ffsti2_def halves_zero)
qed

section \<open>Parity\<close>

definition bit_sum :: "nat \<Rightarrow> 'a::len word \<Rightarrow> nat" where
  "bit_sum n x = (\<Sum>i<n. of_bool (bit x i))"

definition bit_count :: "'a::len word \<Rightarrow> nat" where
  "bit_count x = bit_sum LENGTH('a) x"

lemma sum_split: "(\<Sum>i<m + n. f i) = (\<Sum>i<m. f i) + (\<Sum>i<n. f (m + i))" for f :: "nat \<Rightarrow> nat"
  by (induction n) simp_all

lemma odd_sum_xor:
  "odd (\<Sum>i<n. of_bool (P i \<noteq> Q i) :: nat) \<longleftrightarrow>
     odd ((\<Sum>i<n. of_bool (P i) :: nat) + (\<Sum>i<n. of_bool (Q i)))" for n :: nat
  by (induction n) auto

lemma parity_fold:
  assumes "\<And>i. i < k \<Longrightarrow> bit y i \<longleftrightarrow> bit x i \<noteq> bit x (k + i)"
  shows "odd (bit_sum k y) \<longleftrightarrow> odd (bit_sum (k + k) x)"
proof -
  have "bit_sum k y = (\<Sum>i<k. of_bool (bit x i \<noteq> bit x (k + i)))"
    unfolding bit_sum_def using assms by (intro sum.cong) auto
  then show ?thesis unfolding bit_sum_def sum_split by (simp only: odd_sum_xor)
qed

lemma parity_nibble: "drop_bit (unat (x AND 0xF)) 0x6996 AND 1 = (of_bool (odd (bit_sum 4 x)) :: u32)" for x :: u32
proof -
  have "x AND 0xF = take_bit (Suc (Suc (Suc (Suc 0)))) x"
    unfolding half_masks(7) take_bit_eq_mask by (simp only: numeral_eq_Suc pred_numeral_simps BitM.simps)
  then have x: "x AND 0xF = of_bool (bit x 0) + 2 * of_bool (bit x 1) + 4 * of_bool (bit x 2) + 8 * of_bool (bit x 3)"
    by (simp only: take_bit_Suc take_bit_0) (simp add: bit_0 bit_Suc mod_2_eq_odd numeral_2_eq_2 numeral_3_eq_3)
  have "bit_sum 4 x = of_bool (bit x 0) + of_bool (bit x 1) + of_bool (bit x 2) + of_bool (bit x 3)"
    by (simp add: bit_sum_def numeral_eq_Suc)
  then show ?thesis unfolding x
    by (cases "bit x 0"; cases "bit x 1"; cases "bit x 2"; cases "bit x 3") simp_all
qed

lemma parity_word:
  fixes x :: u32
  assumes "y = x XOR drop_bit 16 x" and "z = y XOR drop_bit 8 y" and "w = z XOR drop_bit 4 z"
  shows "drop_bit (unat (w AND 0xF)) 0x6996 AND 1 = (of_bool (odd (bit_sum 32 x)) :: u32)"
proof -
  have "odd (bit_sum 4 w) \<longleftrightarrow> odd (bit_sum (4 + 4) z)"
    unfolding assms(3) by (rule parity_fold) (auto simp: bit_xor_iff bit_drop_bit_eq)
  also have "\<dots> \<longleftrightarrow> odd (bit_sum 8 z)" by simp
  also have "odd (bit_sum 8 z) \<longleftrightarrow> odd (bit_sum (8 + 8) y)"
    unfolding assms(2) by (rule parity_fold) (auto simp: bit_xor_iff bit_drop_bit_eq)
  also have "\<dots> \<longleftrightarrow> odd (bit_sum 16 y)" by simp
  also have "odd (bit_sum 16 y) \<longleftrightarrow> odd (bit_sum (16 + 16) x)"
    unfolding assms(1) by (rule parity_fold) (auto simp: bit_xor_iff bit_drop_bit_eq)
  also have "\<dots> \<longleftrightarrow> odd (bit_sum 32 x)" by simp
  finally show ?thesis by (simp only: parity_nibble)
qed

lemma parity_halves:
  fixes a :: "'w::len word"
  assumes "LENGTH('w) = 2 * LENGTH('h)"
  shows "odd (bit_count (hi a XOR lo a :: 'h::len word)) \<longleftrightarrow> odd (bit_count a)"
proof -
  have "odd (bit_sum LENGTH('h) (hi a XOR lo a :: 'h word)) \<longleftrightarrow> odd (bit_sum (LENGTH('h) + LENGTH('h)) a)"
    by (rule parity_fold) (auto simp: bit_xor_iff)
  then show ?thesis by (simp add: bit_count_def assms mult_2)
qed

lemma parity_correct:
  "paritysi2 x = of_bool (odd (bit_count x))" "paritydi2 a = of_bool (odd (bit_count a))"
  "parityti2 b = of_bool (odd (bit_count b))"
proof -
  have c: "bit_sum 32 y = bit_count y" for y :: u32 by (simp add: bit_count_def)
  show "paritysi2 x = of_bool (odd (bit_count x))"
    unfolding paritysi2_def Let_def by (simp only: parity_word [OF refl refl refl] c)
  show "paritydi2 a = of_bool (odd (bit_count a))"
    unfolding paritydi2_def Let_def parity_word [OF refl refl refl] c
    by (subst parity_halves) simp_all
  show "parityti2 b = of_bool (odd (bit_count b))"
    unfolding parityti2_def Let_def parity_word [OF refl refl refl] c
    by (subst parity_halves, simp, subst parity_halves) simp_all
qed

section \<open>Population count\<close>

text \<open>A number as a list of digits (lanes) in base \<open>B\<close>, lowest first.\<close>

primrec lanes :: "nat \<Rightarrow> nat list \<Rightarrow> nat" where
  "lanes B [] = 0"
| "lanes B (l # ls) = l + B * lanes B ls"

fun evens :: "nat list \<Rightarrow> nat list" where
  "evens (x # y # xs) = x # evens xs"
| "evens xs = xs"

fun odds :: "nat list \<Rightarrow> nat list" where
  "odds (x # y # xs) = y # odds xs"
| "odds xs = []"

fun pair_sums :: "nat list \<Rightarrow> nat list" where
  "pair_sums (x # y # xs) = (x + y) # pair_sums xs"
| "pair_sums xs = []"

lemma nat_and_split:
  fixes p q r s :: nat
  assumes "p < 2 ^ k" and "r < 2 ^ k"
  shows "(p + 2 ^ k * q) AND (r + 2 ^ k * s) = (p AND r) + 2 ^ k * (q AND s)"
proof -
  let ?z = "(p + 2 ^ k * q) AND (r + 2 ^ k * s)"
  have "?z mod 2 ^ k = p AND r"
    using take_bit_and [of k "p + 2 ^ k * q" "r + 2 ^ k * s"] assms by (simp add: take_bit_eq_mod)
  moreover have "?z div 2 ^ k = q AND s"
    using drop_bit_and [of k "p + 2 ^ k * q" "r + 2 ^ k * s"] assms by (simp add: drop_bit_eq_div)
  ultimately show ?thesis using mod_mult_div_eq [of ?z "2 ^ k"] by simp
qed

lemma pair_mask:
  fixes a c q s :: nat
  assumes "a < 2 ^ k" and "c < 2 ^ k"
  shows "(a + 2 ^ k * (c + 2 ^ k * q)) AND ((2 ^ k - 1) + (2 ^ k * 2 ^ k) * s) = a + (2 ^ k * 2 ^ k) * (q AND s)"
proof -
  have "2 ^ k * (c + 1) \<le> 2 ^ k * (2 ^ k :: nat)" using assms(2) by (intro mult_left_mono) simp_all
  then have 1: "a + 2 ^ k * c < 2 ^ (k + k)" using assms(1) by (simp add: power_add algebra_simps)
  have "(2 :: nat) ^ k \<le> 2 ^ (k + k)" by (rule power_increasing) simp_all
  then have 2: "(2 :: nat) ^ k - 1 < 2 ^ (k + k)" by (meson diff_less le_less_trans less_le_trans zero_less_one zero_less_numeral zero_less_power)
  have "(a + 2 ^ k * c) AND (2 ^ k - 1) = take_bit k (a + 2 ^ k * c)"
    by (simp add: take_bit_eq_mask mask_eq_exp_minus_1)
  also have "\<dots> = a" using assms(1) by (simp add: take_bit_eq_mod)
  finally show ?thesis using nat_and_split [OF 1 2, of q s] by (simp add: power_add algebra_simps)
qed

lemma lanes_div: "l < B \<Longrightarrow> lanes B (l # ls) div B = lanes B ls"
  by simp

lemma lanes_evens:
  assumes "even (length ls)" and "\<forall>l \<in> set ls. l < 2 ^ k" and "n = length ls div 2"
  shows "lanes (2 ^ k) ls AND lanes (2 ^ k * 2 ^ k) (replicate n (2 ^ k - 1)) = lanes (2 ^ k * 2 ^ k) (evens ls)"
  using assms
proof (induction ls arbitrary: n rule: evens.induct)
  case (1 x y xs)
  then show ?case using pair_mask [of x k y "lanes (2 ^ k) xs"] by simp
qed auto

lemma lanes_odds:
  assumes "even (length ls)" and "\<forall>l \<in> set ls. l < 2 ^ k" and "n = length ls div 2"
  shows "(lanes (2 ^ k) ls div 2 ^ k) AND lanes (2 ^ k * 2 ^ k) (replicate n (2 ^ k - 1)) = lanes (2 ^ k * 2 ^ k) (odds ls)"
  using assms
proof (induction ls arbitrary: n rule: evens.induct)
  case (1 x y xs)
  let ?v = "lanes (2 ^ k) xs"
  have "lanes (2 ^ k) (x # y # xs) div 2 ^ k = y + 2 ^ k * (?v mod 2 ^ k + 2 ^ k * (?v div 2 ^ k))"
    using 1 by simp
  then show ?case using 1 pair_mask [of y k "?v mod 2 ^ k" "?v div 2 ^ k"] by simp
qed auto

lemma lanes_split: "even (length ls) \<Longrightarrow> lanes B ls = lanes (B * B) (evens ls) + B * lanes (B * B) (odds ls)"
  by (induction ls rule: evens.induct) (simp_all add: algebra_simps)

lemma lanes_pairs:
  "even (length ls) \<Longrightarrow> lanes B (pair_sums ls) = lanes B (evens ls) + lanes B (odds ls)"
  by (induction ls rule: evens.induct) (simp_all add: algebra_simps)

lemma lanes_adjacent:
  assumes "even (length ls)" and "\<forall>l \<in> set ls. 2 * l < 2 ^ k" and "n = length ls div 2"
  shows "(lanes (2 ^ k) ls + lanes (2 ^ k) ls div 2 ^ k) AND lanes (2 ^ k * 2 ^ k) (replicate n (2 ^ k - 1))
    = lanes (2 ^ k * 2 ^ k) (pair_sums ls)"
  using assms
proof (induction ls arbitrary: n rule: evens.induct)
  case (1 x y xs)
  let ?v = "lanes (2 ^ k) xs" and ?B = "2 ^ k :: nat"
  have small: "2 * (?v mod ?B) < ?B" using 1(3) by (cases xs) simp_all
  have xy: "2 * x < ?B" "2 * y < ?B" using 1(3) by simp_all
  then have "lanes ?B (x # y # xs) div ?B = y + ?B * ?v" by simp
  then have "lanes ?B (x # y # xs) + lanes ?B (x # y # xs) div ?B
      = (x + y) + ?B * (y + ?v + ?B * ?v)" by (simp add: algebra_simps)
  also have "?v = ?v mod ?B + ?B * (?v div ?B)" by simp
  then have "y + ?v + ?B * ?v = (y + ?v mod ?B) + ?B * (?v + ?v div ?B)" by (simp add: algebra_simps)
  finally have sum: "lanes ?B (x # y # xs) + lanes ?B (x # y # xs) div ?B
      = (x + y) + ?B * ((y + ?v mod ?B) + ?B * (?v + ?v div ?B))" .
  have "x + y < ?B" "y + ?v mod ?B < ?B" using xy small by linarith+
  from pair_mask [OF this, of "?v + ?v div ?B"] 1 show ?case unfolding sum by simp
qed auto

lemma nibble_values: "(2 :: nat) ^ 4 = 16" "(16 :: nat) * 16 = 256" "(16 :: nat) - 1 = 15"
  by simp_all

lemma lanes_append: "lanes B (xs @ ys) = lanes B xs + B ^ length xs * lanes B ys"
  by (induction xs) (simp_all add: algebra_simps)

lemma lanes_bound: "\<forall>l \<in> set ls. l < B \<Longrightarrow> lanes B ls < B ^ length ls"
proof (induction ls)
  case (Cons l ls)
  then have "lanes B ls + 1 \<le> B ^ length ls" and l: "l < B" by auto
  then have "B * (lanes B ls + 1) \<le> B * B ^ length ls" by (intro mult_left_mono) simp_all
  with l show ?case by (simp add: algebra_simps)
qed simp

lemma lanes_fold:
  assumes "length xs = length ys" and "\<forall>l \<in> set xs. l < B"
  shows "lanes B (xs @ ys) + lanes B (xs @ ys) div B ^ length xs = lanes B (map2 (+) xs ys @ ys)"
proof -
  have "lanes B (map2 (+) xs ys) = lanes B xs + lanes B ys"
    using assms(1) by (induction xs ys rule: list_induct2) (simp_all add: algebra_simps)
  moreover have "B ^ length xs \<noteq> 0" using lanes_bound [OF assms(2)] by linarith
  then have "lanes B (xs @ ys) div B ^ length xs = lanes B ys"
    using lanes_bound [OF assms(2)] unfolding lanes_append by (subst div_mult_self2) simp_all
  ultimately show ?thesis using assms(1) by (simp add: lanes_append)
qed

lemma lanes_double: "2 * lanes B ls = lanes B (map ((*) 2) ls)"
  by (induction ls) (simp_all add: algebra_simps)

lemma pair_sums_facts:
  "even (length ls) \<Longrightarrow> length (pair_sums ls) = length ls div 2"
  "even (length ls) \<Longrightarrow> sum_list (pair_sums ls) = sum_list ls"
  "\<forall>l \<in> set ls. l \<le> b \<Longrightarrow> \<forall>l \<in> set (pair_sums ls). l \<le> 2 * b"
  by (induction ls rule: pair_sums.induct) auto

lemma lanes_bits: "lanes 2 (map (\<lambda>i. of_bool (bit x i)) [0..<LENGTH('a)]) = unat x" for x :: "'a::len word"
proof -
  have "lanes 2 (map (\<lambda>i. of_bool (bit x (m + i))) [0..<n]) = take_bit n (drop_bit m (unat x))" for m n
  proof (induction n arbitrary: m)
    case (Suc n)
    have eq: "map (\<lambda>i. of_bool (bit x (m + i))) [0..<Suc n]
        = of_bool (bit x m) # map (\<lambda>i. of_bool (bit x (Suc m + i))) [0..<n]"
      by (simp add: upt_conv_Cons map_Suc_upt [symmetric] o_def del: upt_Suc)
    have d: "drop_bit (Suc m) (unat x) = drop_bit m (unat x) div 2"
      by (simp add: drop_bit_eq_div div_mult2_eq [symmetric] mult.commute)
    have "drop_bit m (unat x) mod 2 = of_bool (bit x m)"
      by (simp add: drop_bit_eq_div mod_2_eq_odd bit_iff_odd [symmetric] bit_unsigned_iff)
    then show ?case unfolding eq lanes.simps Suc.IH [of "Suc m"] d by (simp add: take_bit_Suc)
  qed simp
  from this [of 0 "LENGTH('a)"] show ?thesis by (simp add: take_bit_nat_eq_self)
qed

lemma unat_drop_bit: "unat (drop_bit k x) = unat x div 2 ^ k" for x :: "'a::len word"
  by (subst unsigned_drop_bit_eq) (simp add: drop_bit_eq_div take_bit_nat_eq_self)

lemma unat_and: "unat (x AND y) = unat x AND unat y" for x y :: "'a::len word"
  by (simp add: unsigned_and_eq)

text \<open>The three first steps of the population count, for any width that is a multiple of eight.\<close>

lemma popcount_bytes:
  fixes a :: "'a::len word"
  assumes len: "LENGTH('a) = 8 * n"
    and M: "unat M1 = lanes 4 (replicate (4 * n) 1)" "unat M2 = lanes 16 (replicate (2 * n) 3)"
      "unat M3 = lanes 256 (replicate n 15)"
    and x: "x1 = a - (drop_bit 1 a AND M1)" "x2 = (drop_bit 2 x1 AND M2) + (x1 AND M2)"
      "x3 = (x2 + drop_bit 4 x2) AND M3"
  shows "\<exists>ls. unat x3 = lanes 256 ls \<and> length ls = n \<and> (\<forall>l \<in> set ls. l \<le> 8) \<and> sum_list ls = bit_count a"
proof -
  define bs where "bs = map (\<lambda>i. of_bool (bit a i) :: nat) [0..<8 * n]"
  have bs: "lanes 2 bs = unat a" "length bs = 8 * n" "\<forall>l \<in> set bs. l \<le> 1" "sum_list bs = bit_count a" "\<forall>l \<in> set bs. l < 2"
    using lanes_bits [of a] by (auto simp: bs_def len bit_count_def bit_sum_def interv_sum_list_conv_sum_set_nat atLeast0LessThan)
  define l1 where "l1 = pair_sums bs"
  have l1: "length l1 = 4 * n" "\<forall>l \<in> set l1. l \<le> 2" "sum_list l1 = bit_count a"
    using pair_sums_facts(1,2) [of bs] pair_sums_facts(3) [of bs 1] bs by (auto simp: l1_def)
  define l2 where "l2 = pair_sums l1"
  have l2: "length l2 = 2 * n" "\<forall>l \<in> set l2. l \<le> 4" "sum_list l2 = bit_count a"
    using pair_sums_facts(1,2) [of l1] pair_sums_facts(3) [of l1 2] l1 by (auto simp: l2_def)
  define l3 where "l3 = pair_sums l2"
  have l3: "length l3 = n" "\<forall>l \<in> set l3. l \<le> 8" "sum_list l3 = bit_count a"
    using pair_sums_facts(1,2) [of l2] pair_sums_facts(3) [of l2 4] l2 by (auto simp: l3_def)
  have "unat (drop_bit 1 a AND M1) = lanes 4 (odds bs)"
    using lanes_odds [of bs 1 "4 * n"] bs by (auto simp: unat_and unat_drop_bit M)
  moreover have "unat a = lanes 4 (evens bs) + 2 * lanes 4 (odds bs)"
    using lanes_split [of bs 2] bs by simp
  ultimately have 1: "unat x1 = lanes 4 l1"
    unfolding x l1_def using bs lanes_pairs [of bs 4] by (subst unat_sub_nowrap) (auto simp: word_le_nat_alt)
  have "\<forall>l \<in> set l1. l < 2 ^ 2" using l1(2) by (auto intro: le_less_trans)
  then have "unat (drop_bit 2 x1 AND M2) + unat (x1 AND M2) = lanes 16 l2"
    using lanes_odds [of l1 2 "2 * n"] lanes_evens [of l1 2 "2 * n"] lanes_pairs [of l1 16] l1
    by (auto simp: unat_and unat_drop_bit M 1 l2_def)
  moreover have "lanes 16 l2 < 16 ^ length l2" using l2 by (intro lanes_bound) auto
  then have b2: "lanes 16 l2 < 2 ^ LENGTH('a)" using l2(1) by (simp add: len power_mult)
  ultimately have 2: "unat x2 = lanes 16 l2" unfolding x by (subst unat_add_nowrap) auto
  have "\<forall>l \<in> set (map ((*) 2) l2). l < 16" using l2(2) by (auto intro: le_less_trans)
  from lanes_bound [OF this] have "2 * lanes 16 l2 < 16 ^ (2 * n)"
    unfolding lanes_double by (simp only: length_map l2(1))
  then have "2 * lanes 16 l2 < 2 ^ LENGTH('a)" by (simp add: len power_mult)
  moreover have "lanes 16 l2 div 2 ^ 4 \<le> lanes 16 l2" by (rule div_le_dividend)
  ultimately have "lanes 16 l2 + lanes 16 l2 div 2 ^ 4 < 2 ^ LENGTH('a)" by linarith
  then have "unat (x2 + drop_bit 4 x2) = lanes 16 l2 + lanes 16 l2 div 2 ^ 4"
    by (subst unat_add_nowrap) (auto simp: 2 unat_drop_bit)
  moreover have "\<forall>l \<in> set l2. 2 * l < 16" using l2(2) by (auto intro: le_less_trans)
  then have "(lanes 16 l2 + lanes 16 l2 div 2 ^ 4) AND lanes 256 (replicate n 15) = lanes 256 l3"
    unfolding l3_def nibble_values(1) by (intro lanes_adjacent [of _ 4, unfolded nibble_values]) (simp_all add: l2(1))
  ultimately have "unat x3 = lanes 256 l3" unfolding x(3) unat_and M(3) by simp
  with l3 show ?thesis by blast
qed

lemma unat_and_mask: "unat (w AND mask k) = unat w mod 2 ^ k" for w :: "'a::len word"
  unfolding take_bit_eq_mask [symmetric] unsigned_take_bit_eq by (rule take_bit_eq_mod)

lemma popcount_tail:
  fixes y z :: u32
  assumes y: "unat y = lanes 256 [a, b, c, d]" and le: "a \<le> 32" "b \<le> 32" "c \<le> 32" "d \<le> 32"
    and k: "a + b + c + d < 2 ^ k" "k \<le> 8" and z: "z = y + drop_bit 16 y"
  shows "unat ((z + drop_bit 8 z) AND mask k) = a + b + c + d"
proof -
  have "unat y + unat y div 2 ^ 16 = lanes 256 [a + c, b + d, c, d]"
    using lanes_fold [of "[a, b]" "[c, d]" 256] y le by (simp add: power2_eq_square)
  then have z1: "unat z = (a + c) + 256 * ((b + d) + 256 * (c + 256 * d))"
    using le unfolding z by (subst unat_add_nowrap) (simp_all add: unat_drop_bit)
  moreover from this have "unat z div 256 = (b + d) + 256 * (c + 256 * d)" using le by simp
  ultimately have "unat (z + drop_bit 8 z) = (a + b + c + d) + 256 * (b + d + 257 * (c + 256 * d))"
    using le by (subst unat_add_nowrap) (simp_all add: unat_drop_bit)
  moreover have "(256 :: nat) * u = 2 ^ k * (2 ^ (8 - k) * u)" for u
    using k(2) by (simp flip: power_add mult.assoc)
  then have "(a + b + c + d + 256 * u) mod 2 ^ k = a + b + c + d" for u using k(1) by (simp only: mod_mult_self2 mod_less)
  ultimately show ?thesis by (simp only: unat_and_mask)
qed

lemma popcount_halve:
  fixes x :: "'w::len word"
  assumes len: "LENGTH('w) = 8 * (n + n)" "LENGTH('h) = 8 * n"
    and x: "unat x = lanes 256 (xs @ ys)" "length xs = n" "length ys = n"
    and le: "\<forall>l \<in> set (xs @ ys). 2 * l < 256"
  shows "unat (ucast (x + drop_bit (8 * n) x) :: 'h::len word) = lanes 256 (map2 (+) xs ys)"
proof -
  have e: "(2 :: nat) ^ (8 * m) = 256 ^ m" for m by (simp add: power_mult)
  have small: "\<forall>l \<in> set us. l < 256" if "\<forall>l \<in> set us. 2 * l < 256" for us :: "nat list"
    using that by (auto simp: Ball_def)
  have xs: "\<forall>l \<in> set xs. l < 256" and ys: "\<forall>l \<in> set ys. l < 256" using le by (auto intro!: small)
  have f: "unat x + unat x div 2 ^ (8 * n) = lanes 256 (map2 (+) xs ys @ ys)"
    unfolding e x(1) using lanes_fold [of xs ys 256] x(2,3) xs by simp
  have zs: "\<forall>l \<in> set (map2 (+) xs ys). l < 256"
  proof
    fix l
    assume "l \<in> set (map2 (+) xs ys)"
    then obtain a b where "a \<in> set xs" "b \<in> set ys" "l = a + b" by (auto dest: set_zip_leftD set_zip_rightD)
    with le have "2 * a < 256" "2 * b < 256" "l = a + b" by auto
    then show "l < 256" by linarith
  qed
  with ys have "lanes 256 (map2 (+) xs ys @ ys) < 256 ^ (n + n)"
    using lanes_bound [of "map2 (+) xs ys @ ys" 256] x(2,3) by auto
  then have "unat (x + drop_bit (8 * n) x) = lanes 256 (map2 (+) xs ys @ ys)"
    using f by (subst unat_add_nowrap) (simp_all only: unat_drop_bit len e)
  then have "unat (ucast (x + drop_bit (8 * n) x) :: 'h word) = lanes 256 (map2 (+) xs ys @ ys) mod 256 ^ n"
    by (simp add: unsigned_ucast_eq take_bit_eq_mod len e)
  also have "\<dots> = lanes 256 (map2 (+) xs ys)"
    using lanes_bound [OF zs] x(2,3) by (simp add: lanes_append)
  finally show ?thesis .
qed

lemma list_4: "length ls = 4 \<Longrightarrow> \<exists>a b c d. ls = [a, b, c, d]"
  by (auto simp: numeral_eq_Suc length_Suc_conv)

lemma word_of_count: "unat (w :: u32) = n \<Longrightarrow> w = of_nat n"
  by auto

lemma replicate_eqs:
  "replicate 4 x = [x, x, x, x]" "replicate 8 x = replicate 4 x @ replicate 4 x"
  "replicate 16 x = replicate 8 x @ replicate 8 x" "replicate 32 x = replicate 16 x @ replicate 16 x"
  "replicate 64 x = replicate 32 x @ replicate 32 x"
  by (simp_all add: replicate_add [symmetric]) (simp add: numeral_eq_Suc)

lemma popcount_masks32:
  "unat (0x55555555 :: u32) = lanes 4 (replicate 16 1)" "unat (0x33333333 :: u32) = lanes 16 (replicate 8 3)"
  "unat (0x0F0F0F0F :: u32) = lanes 256 (replicate 4 15)"
  by (simp_all add: replicate_eqs)

lemma popcountsi2_correct: "popcountsi2 a = of_nat (bit_count a)"
proof -
  define x1 where "x1 = a - (drop_bit 1 a AND 0x55555555)"
  define x2 where "x2 = (drop_bit 2 x1 AND 0x33333333) + (x1 AND 0x33333333)"
  define x3 where "x3 = (x2 + drop_bit 4 x2) AND 0x0F0F0F0F"
  obtain ls where ls: "unat x3 = lanes 256 ls" "length ls = 4" "\<forall>l \<in> set ls. l \<le> 8" "sum_list ls = bit_count a"
    using popcount_bytes [where n = 4, OF _ _ _ _ x1_def x2_def x3_def] popcount_masks32 by auto
  then obtain p q r s where l: "ls = [p, q, r, s]" using list_4 by blast
  define z where "z = x3 + drop_bit 16 x3"
  have "unat ((z + drop_bit 8 z) AND mask 6) = p + q + r + s"
    using ls(3) by (intro popcount_tail [where y = x3, OF ls(1) [unfolded l] _ _ _ _ _ _ z_def]) (simp_all add: l)
  moreover have "(0x3F :: u32) = mask 6" by (simp add: mask_eq_exp_minus_1)
  moreover have "popcountsi2 a = (z + drop_bit 8 z) AND 0x3F"
    by (simp only: popcountsi2_def Let_def z_def x3_def x2_def x1_def)
  ultimately show ?thesis using ls(4) by (simp add: l word_of_count)
qed

lemma sum_list_le: "\<forall>l \<in> set ls. l \<le> b \<Longrightarrow> sum_list ls \<le> length ls * b" for b :: nat
  by (induction ls) auto

lemma map2_sum_facts:
  fixes b :: nat
  assumes "length xs = length ys" and "\<forall>l \<in> set (xs @ ys). l \<le> b"
  shows "\<forall>l \<in> set (map2 (+) xs ys). l \<le> 2 * b" and "sum_list (map2 (+) xs ys) = sum_list (xs @ ys)"
  using assms by (induction xs ys rule: list_induct2) auto

text \<open>From the byte sums of a 64-bit number to the count, as the two wider routines end.\<close>

lemma popcount_tail64:
  fixes x :: u64
  assumes "unat x = lanes 256 ls" and "length ls = 8" and "\<forall>l \<in> set ls. l \<le> 16"
    and "sum_list ls < 2 ^ k" and "k \<le> 8" and y: "y = ucast (x + drop_bit 32 x)" and z: "z = y + drop_bit 16 y"
  shows "unat ((z + drop_bit 8 z) AND mask k :: u32) = sum_list ls"
proof -
  define xs ys where "xs = take 4 ls" and "ys = drop 4 ls"
  have l: "ls = xs @ ys" "length xs = 4" "length ys = 4" using assms(2) by (simp_all add: xs_def ys_def)
  have "\<forall>l \<in> set (xs @ ys). 2 * l < 256" using assms(3) l(1) by (auto intro: le_less_trans)
  then have y1: "unat y = lanes 256 (map2 (+) xs ys)"
    using popcount_halve [where 'w = 64 and 'h = 32 and n = 4, of x xs ys] assms(1) l by (simp add: y)
  obtain a b c d where q: "map2 (+) xs ys = [a, b, c, d]"
    using list_4 [of "map2 (+) xs ys"] l by auto
  note m = map2_sum_facts [of xs ys 16, unfolded l(2,3) q, OF refl assms(3) [unfolded l(1)]]
  have s: "a + b + c + d = sum_list ls" using m(2) l(1) by simp
  have "unat ((z + drop_bit 8 z) AND mask k) = a + b + c + d"
    by (rule popcount_tail [OF y1 [unfolded q] _ _ _ _ _ assms(5) z]) (use m(1) s assms(4) in simp_all)
  then show ?thesis by (simp only: s)
qed

lemma popcount_masks64:
  "unat (0x5555555555555555 :: u64) = lanes 4 (replicate 32 1)"
  "unat (0x3333333333333333 :: u64) = lanes 16 (replicate 16 3)"
  "unat (0x0F0F0F0F0F0F0F0F :: u64) = lanes 256 (replicate 8 15)"
  by (simp_all add: replicate_eqs)

lemma popcountdi2_correct: "popcountdi2 a = of_nat (bit_count a)"
proof -
  define x1 where "x1 = a - (drop_bit 1 a AND 0x5555555555555555)"
  define x2 where "x2 = (drop_bit 2 x1 AND 0x3333333333333333) + (x1 AND 0x3333333333333333)"
  define x3 where "x3 = (x2 + drop_bit 4 x2) AND 0x0F0F0F0F0F0F0F0F"
  obtain ls where ls: "unat x3 = lanes 256 ls" "length ls = 8" "\<forall>l \<in> set ls. l \<le> 8" "sum_list ls = bit_count a"
    using popcount_bytes [where n = 8, OF _ _ _ _ x1_def x2_def x3_def] popcount_masks64 by auto
  have "sum_list ls \<le> length ls * 8" using ls(3) by (intro sum_list_le) auto
  then have "sum_list ls < 2 ^ 7" by (simp add: ls(2))
  define y :: u32 where "y = ucast (x3 + drop_bit 32 x3)"
  define z where "z = y + drop_bit 16 y"
  have "unat ((z + drop_bit 8 z) AND mask 7) = sum_list ls"
    using ls(3) \<open>sum_list ls < 2 ^ 7\<close> by (intro popcount_tail64 [OF ls(1,2) _ _ _ y_def z_def]) (auto intro: le_trans)
  moreover have "(0x7F :: u32) = mask 7" by (simp add: mask_eq_exp_minus_1)
  moreover have "popcountdi2 a = (z + drop_bit 8 z) AND 0x7F"
    by (simp only: popcountdi2_def Let_def z_def y_def x3_def x2_def x1_def)
  ultimately show ?thesis using ls(4) by (simp add: word_of_count)
qed

lemma popcount_masks128:
  "unat (push_bit 64 0x5555555555555555 OR 0x5555555555555555 :: u128) = lanes 4 (replicate 64 1)"
  "unat (push_bit 64 0x3333333333333333 OR 0x3333333333333333 :: u128) = lanes 16 (replicate 32 3)"
  "unat (push_bit 64 0x0F0F0F0F0F0F0F0F OR 0x0F0F0F0F0F0F0F0F :: u128) = lanes 256 (replicate 16 15)"
  by (simp_all add: replicate_eqs)

lemma popcountti2_correct: "popcountti2 a = of_nat (bit_count a)"
proof -
  define x1 where "x1 = a - (drop_bit 1 a AND (push_bit 64 0x5555555555555555 OR 0x5555555555555555))"
  define x2 where "x2 = (drop_bit 2 x1 AND (push_bit 64 0x3333333333333333 OR 0x3333333333333333))
    + (x1 AND (push_bit 64 0x3333333333333333 OR 0x3333333333333333))"
  define x3 where "x3 = (x2 + drop_bit 4 x2) AND (push_bit 64 0x0F0F0F0F0F0F0F0F OR 0x0F0F0F0F0F0F0F0F)"
  obtain ls where ls: "unat x3 = lanes 256 ls" "length ls = 16" "\<forall>l \<in> set ls. l \<le> 8" "sum_list ls = bit_count a"
    using popcount_bytes [where n = 16, OF _ _ _ _ x1_def x2_def x3_def] popcount_masks128 by auto
  define xs ys where "xs = take 8 ls" and "ys = drop 8 ls"
  have l: "ls = xs @ ys" "length xs = 8" "length ys = 8" using ls(2) by (simp_all add: xs_def ys_def)
  define w :: u64 where "w = ucast (x3 + drop_bit 64 x3)"
  have "\<forall>l \<in> set (xs @ ys). 2 * l < 256" using ls(3) l(1) by (auto intro: le_less_trans)
  then have w: "unat w = lanes 256 (map2 (+) xs ys)"
    using popcount_halve [where 'w = 128 and 'h = 64 and n = 8, of x3 xs ys] ls(1) l by (simp add: w_def)
  note m = map2_sum_facts [of xs ys 8, unfolded l(2,3), OF refl ls(3) [unfolded l(1)]]
  have "sum_list ls \<le> length ls * 8" using ls(3) by (intro sum_list_le) auto
  then have b: "sum_list (map2 (+) xs ys) < 2 ^ 8" using m(2) l by (simp add: ls(2))
  define y :: u32 where "y = ucast (w + drop_bit 32 w)"
  define z where "z = y + drop_bit 16 y"
  have "unat ((z + drop_bit 8 z) AND mask 8) = sum_list (map2 (+) xs ys)"
    using m(1) b by (intro popcount_tail64 [OF w _ _ _ _ y_def z_def]) (simp_all add: l)
  moreover have "(0xFF :: u32) = mask 8" by (simp add: mask_eq_exp_minus_1)
  moreover have "popcountti2 a = (z + drop_bit 8 z) AND 0xFF"
    by (simp only: popcountti2_def Let_def z_def y_def w_def x3_def x2_def x1_def)
  ultimately show ?thesis using ls(4) m(2) l(1) by (simp add: word_of_count)
qed

section \<open>Properties\<close>

text \<open>C21: The counting routines agree with their definitions on bits in all three widths: leading and trailing
  zeros (of a nonzero number in the two wider ones), the one-based position of the lowest bit set, parity and
  population count. The population count's sums of neighbouring bit fields never carry into one another.\<close>

theorem bit_counts_correct:
  "clzsi2 x = of_nat (builtin_clz x) \<and> ctzsi2 x = of_nat (builtin_ctz x)
   \<and> (a \<noteq> 0 \<longrightarrow> clzdi2 a = of_nat (builtin_clz a) \<and> ctzdi2 a = of_nat (builtin_ctz a))
   \<and> (b \<noteq> 0 \<longrightarrow> clzti2 b = of_nat (builtin_clz b) \<and> ctzti2 b = of_nat (builtin_ctz b))
   \<and> ffssi2 x = (if x = 0 then 0 else of_nat (builtin_ctz x) + 1)
   \<and> ffsdi2 a = (if a = 0 then 0 else of_nat (builtin_ctz a) + 1)
   \<and> ffsti2 b = (if b = 0 then 0 else of_nat (builtin_ctz b) + 1)
   \<and> paritysi2 x = of_bool (odd (card {i. bit x i})) \<and> paritydi2 a = of_bool (odd (card {i. bit a i}))
   \<and> parityti2 b = of_bool (odd (card {i. bit b i}))
   \<and> popcountsi2 x = of_nat (card {i. bit x i}) \<and> popcountdi2 a = of_nat (card {i. bit a i})
   \<and> popcountti2 b = of_nat (card {i. bit b i})"
proof -
  have c: "bit_count w = card {i. bit w i}" for w :: "'a::len word"
  proof -
    have "bit_count w = card {i \<in> {..<LENGTH('a)}. bit w i}"
      unfolding bit_count_def bit_sum_def by (subst sum_of_bool_eq) (simp_all add: Int_def)
    also have "{i \<in> {..<LENGTH('a)}. bit w i} = {i. bit w i}" by (auto dest: bit_imp_le_length)
    finally show ?thesis .
  qed
  show ?thesis
    unfolding ffs_correct parity_correct popcountsi2_correct popcountdi2_correct popcountti2_correct
      clzsi2_correct ctzsi2_correct c
    by (simp add: clzdi2_correct ctzdi2_correct clzti2_correct ctzti2_correct)
qed

theorem bit_counts_correct_witness:
  "clzdi2 0x10 = of_nat (builtin_clz (0x10 :: u64)) \<and> ctzti2 0x30 = of_nat (builtin_ctz (0x30 :: u128))
   \<and> builtin_clz (0x10 :: u64) = 59 \<and> builtin_ctz (0x30 :: u128) = 4"
proof -
  have "builtin_clz (0x10 :: u64) = 59" "builtin_ctz (0x30 :: u128) = 4" by code_simp+
  with bit_counts_correct [of 0 "0x10" "0x30"] show ?thesis by simp
qed

end
