(* ===== verification/Cc_Division.thy ===== *)
theory Cc_Division
  imports Cc_Counts "HOL-Library.Signed_Division"
begin

text \<open>
  The division routines of the compiler's run-time (\<^verbatim>\<open>common/cc-runtime.s2.c\<close>): the shift-and-subtract
  templates for unsigned division and remainder, the 64-bit division from 32-bit halves, the 128-bit
  division with its 128-by-64-bit step, and the signed routines on top of them. A routine with a
  \<^verbatim>\<open>rem\<close> pointer returns the pair of quotient and remainder. Division by zero is undefined in C; the
  theorems exclude it.
\<close>

section \<open>Shift and subtract\<close>

text \<open>The loop of \<^verbatim>\<open>__udivXi3\<close> and \<^verbatim>\<open>__umodXi3\<close>; \<open>s\<close> is all ones when \<open>r \<ge> d\<close> and zero otherwise.\<close>

fun udiv_loop :: "nat \<Rightarrow> 'a::len word \<Rightarrow> 'a word \<Rightarrow> 'a word \<Rightarrow> 'a word \<Rightarrow> 'a word \<times> 'a word \<times> 'a word" where
  "udiv_loop 0 d r n carry = (r, n, carry)"
| "udiv_loop (Suc sr) d r n carry =
     (let r = push_bit 1 r OR drop_bit (LENGTH('a) - 1) n;
          n = push_bit 1 n OR carry;
          s = signed_drop_bit (LENGTH('a) - 1) (d - r - 1)
      in udiv_loop sr d (r - (d AND s)) n (s AND 1))"

definition shift_distance :: "'a::len word \<Rightarrow> 'a word \<Rightarrow> u32" where
  "shift_distance n d =
     of_nat (if d \<noteq> 0 then builtin_clz d else LENGTH('a)) - of_nat (if n \<noteq> 0 then builtin_clz n else LENGTH('a))"

definition udivXi3 :: "'a::len word \<Rightarrow> 'a word \<Rightarrow> 'a word" where
  "udivXi3 n d =
     (let sr = shift_distance n d in
      if sr > of_nat (LENGTH('a) - 1) then 0
      else if sr = of_nat (LENGTH('a) - 1) then n
      else
        let sr = unat (sr + 1) in
        case udiv_loop sr d (drop_bit sr n) (push_bit (LENGTH('a) - sr) n) 0 of
          (r, n, carry) \<Rightarrow> push_bit 1 n OR carry)"

definition umodXi3 :: "'a::len word \<Rightarrow> 'a word \<Rightarrow> 'a word" where
  "umodXi3 n d =
     (let sr = shift_distance n d in
      if sr > of_nat (LENGTH('a) - 1) then n
      else if sr = of_nat (LENGTH('a) - 1) then 0
      else
        let sr = unat (sr + 1) in
        case udiv_loop sr d (drop_bit sr n) (push_bit (LENGTH('a) - sr) n) 0 of (r, n, carry) \<Rightarrow> r)"

definition udivdi3 :: "u64 \<Rightarrow> u64 \<Rightarrow> u64" where
  "udivdi3 a b = udivXi3 a b"

definition umoddi3 :: "u64 \<Rightarrow> u64 \<Rightarrow> u64" where
  "umoddi3 a b = umodXi3 a b"

text \<open>The copies of the templates at 32 bits.\<close>

definition udivXi3_31 :: "u32 \<Rightarrow> u32 \<Rightarrow> u32" where
  "udivXi3_31 n d = udivXi3 n d"

definition umodXi3_40 :: "u32 \<Rightarrow> u32 \<Rightarrow> u32" where
  "umodXi3_40 n d = umodXi3 n d"

definition udivsi3 :: "u32 \<Rightarrow> u32 \<Rightarrow> u32" where
  "udivsi3 a b = udivXi3_31 a b"

definition umodsi3 :: "u32 \<Rightarrow> u32 \<Rightarrow> u32" where
  "umodsi3 a b = umodXi3_40 a b"

definition udivmodsi4 :: "u32 \<Rightarrow> u32 \<Rightarrow> u32 \<times> u32" where
  "udivmodsi4 a b = (let d = udivsi3 a b in (d, a - d * b))"

section \<open>64 bits from halves\<close>

text \<open>The special cases of \<^verbatim>\<open>__udivmoddi4\<close> return quotient and remainder (\<^const>\<open>Inl\<close>); the others start
  the loop with the numbers \<open>q\<close>, \<open>r\<close> and \<open>sr\<close> (\<^const>\<open>Inr\<close>).\<close>

definition udivmoddi4_start :: "u64 \<Rightarrow> u64 \<Rightarrow> (u64 \<times> u64) + (u64 \<times> u64 \<times> nat)" where
  "udivmoddi4_start a b =
     (let nl = lo a :: u32; nh = hi a :: u32; dl = lo b :: u32; dh = hi b :: u32 in
      if nh = 0 then
        if dh = 0 then Inl (ucast (nl div dl), ucast (nl mod dl))
        else Inl (0, ucast nl)
      else if dl = 0 then
        if dh = 0 then Inl (ucast (nh div dl), ucast (nh mod dl))
        else if nl = 0 then Inl (ucast (nh div dh), join (nh mod dh) 0)
        else if dh AND (dh - 1) = 0 then
          Inl (ucast (drop_bit (builtin_ctz dh) nh), join (nh AND (dh - 1)) nl)
        else
          let sr = of_nat (builtin_clz dh) - of_nat (builtin_clz nh) :: u32 in
          if sr > 30 then Inl (0, a)
          else
            let sr = unat (sr + 1) in
            Inr (join (push_bit (32 - sr) nl) 0,
                 join (drop_bit sr nh) (push_bit (32 - sr) nh OR drop_bit sr nl), sr)
      else if dh = 0 then
        if dl AND (dl - 1) = 0 then
          if dl = 1 then Inl (a, ucast (nl AND (dl - 1)))
          else
            let sr = builtin_ctz dl in
            Inl (join (drop_bit sr nh) (push_bit (32 - sr) nh OR drop_bit sr nl), ucast (nl AND (dl - 1)))
        else
          let sr = unat (1 + 32 + of_nat (builtin_clz dl) - of_nat (builtin_clz nh) :: u32) in
          if sr = 32 then Inr (join nl 0, join 0 nh, sr)
          else if sr < 32 then
            Inr (join (push_bit (32 - sr) nl) 0,
                 join (drop_bit sr nh) (push_bit (32 - sr) nh OR drop_bit sr nl), sr)
          else
            Inr (join (push_bit (64 - sr) nh OR drop_bit (sr - 32) nl) (push_bit (64 - sr) nl),
                 join 0 (drop_bit (sr - 32) nh), sr)
      else
        let sr = of_nat (builtin_clz dh) - of_nat (builtin_clz nh) :: u32 in
        if sr > 31 then Inl (0, a)
        else
          let sr = unat (sr + 1) in
          if sr = 32 then Inr (join nl 0, join 0 nh, sr)
          else
            Inr (join (push_bit (32 - sr) nl) 0,
                 join (drop_bit sr nh) (push_bit (32 - sr) nh OR drop_bit sr nl), sr))"

fun udivmoddi4_loop :: "nat \<Rightarrow> u64 \<Rightarrow> u64 \<Rightarrow> u64 \<Rightarrow> u32 \<Rightarrow> u64 \<times> u64 \<times> u32" where
  "udivmoddi4_loop 0 d r q carry = (r, q, carry)"
| "udivmoddi4_loop (Suc sr) d r q carry =
     (let rl = lo r :: u32; rh = hi r :: u32; ql = lo q :: u32; qh = hi q :: u32;
          r = join (push_bit 1 rh OR drop_bit 31 rl) (push_bit 1 rl OR drop_bit 31 qh);
          q = join (push_bit 1 qh OR drop_bit 31 ql) (push_bit 1 ql OR carry);
          s = signed_drop_bit 63 (d - r - 1)
      in udivmoddi4_loop sr d (r - (d AND s)) q (ucast (s AND 1)))"

definition udivmoddi4 :: "u64 \<Rightarrow> u64 \<Rightarrow> u64 \<times> u64" where
  "udivmoddi4 a b =
     (case udivmoddi4_start a b of
        Inl qr \<Rightarrow> qr
      | Inr (q, r, sr) \<Rightarrow>
          (case udivmoddi4_loop sr b r q 0 of
             (r, q, carry) \<Rightarrow> (push_bit 1 q OR ucast carry, r)))"

section \<open>128 bits\<close>

text \<open>The correction of a quotient digit in \<^verbatim>\<open>udiv128by64to64default\<close>; \<open>b\<close> is \<open>2 ^ 32\<close>. On x86-64 the
  compiler takes the machine's \<^verbatim>\<open>divq\<close> in place of this routine.\<close>

function correct_digit :: "u64 \<Rightarrow> u64 \<Rightarrow> u64 \<Rightarrow> u64 \<Rightarrow> u64 \<Rightarrow> u64" where
  "correct_digit vn1 vn0 un q rhat =
     (if q \<ge> 0x100000000 \<or> q * vn0 > 0x100000000 * rhat + un then
        let q = q - 1; rhat = rhat + vn1
        in if rhat \<ge> 0x100000000 then q else correct_digit vn1 vn0 un q rhat
      else q)"
  by pat_completeness auto
termination
proof (relation "measure (\<lambda>(vn1, vn0, un, q, rhat). unat q)", simp, goal_cases)
  case (1 vn1 vn0 un q rhat x xa)
  then have "q \<noteq> 0" by auto
  then show ?case using 1(2) by (simp add: unat_minus_one unat_gt_0 [symmetric] del: unat_gt_0)
qed

declare correct_digit.simps [simp del]

definition udiv128by64to64default :: "u64 \<Rightarrow> u64 \<Rightarrow> u64 \<Rightarrow> u64 \<times> u64" where
  "udiv128by64to64default u1 u0 v =
     (let b = 0x100000000;
          s = builtin_clz v;
          v = (if s > 0 then push_bit s v else v);
          un64 = (if s > 0 then push_bit s u1 OR drop_bit (64 - s) u0 else u1);
          un10 = (if s > 0 then push_bit s u0 else u0);
          vn1 = drop_bit 32 v; vn0 = v AND 0xFFFFFFFF;
          un1 = drop_bit 32 un10; un0 = un10 AND 0xFFFFFFFF;
          q1 = un64 div vn1;
          q1 = correct_digit vn1 vn0 un1 q1 (un64 - q1 * vn1);
          un21 = un64 * b + un1 - q1 * v;
          q0 = un21 div vn1;
          q0 = correct_digit vn1 vn0 un0 q0 (un21 - q0 * vn1)
      in (q1 * b + q0, drop_bit s (un21 * b + un0 - q0 * v)))"

text \<open>The loop over the shifts, from the distance down to zero.\<close>

fun udivmodti4_loop :: "nat \<Rightarrow> u128 \<Rightarrow> u128 \<Rightarrow> u64 \<Rightarrow> u64 \<times> u128" where
  "udivmodti4_loop 0 divisor dividend ql = (ql, dividend)"
| "udivmodti4_loop (Suc n) divisor dividend ql =
     (let ql = push_bit 1 ql;
          s = signed_drop_bit 127 (divisor - dividend - 1)
      in udivmodti4_loop n (drop_bit 1 divisor) (dividend - (divisor AND s)) (ql OR ucast (s AND 1)))"

definition udivmodti4 :: "u128 \<Rightarrow> u128 \<Rightarrow> u128 \<times> u128" where
  "udivmodti4 a b =
     (let nl = lo a :: u64; nh = hi a :: u64; dl = lo b :: u64; dh = hi b :: u64 in
      if b > a then (0, a)
      else if dh = 0 then
        if nh < dl then
          (case udiv128by64to64default nh nl dl of (q, r) \<Rightarrow> (join 0 q, join 0 r))
        else
          (case udiv128by64to64default (nh mod dl) nl dl of (q, r) \<Rightarrow> (join (nh div dl) q, join 0 r))
      else
        let shift = builtin_clz dh - builtin_clz nh in
        case udivmodti4_loop (Suc shift) (push_bit shift b) a 0 of (ql, r) \<Rightarrow> (join 0 ql, r))"

definition udivti3 :: "u128 \<Rightarrow> u128 \<Rightarrow> u128" where
  "udivti3 a b = fst (udivmodti4 a b)"

definition umodti3 :: "u128 \<Rightarrow> u128 \<Rightarrow> u128" where
  "umodti3 a b = snd (udivmodti4 a b)"

section \<open>Signed division\<close>

text \<open>The templates \<^verbatim>\<open>__divXi3\<close> and \<^verbatim>\<open>__modXi3\<close> over the unsigned routine of their width, then their copies.\<close>

definition divXi3 :: "('a::len word \<Rightarrow> 'a word \<Rightarrow> 'a word) \<Rightarrow> 'a word \<Rightarrow> 'a word \<Rightarrow> 'a word" where
  "divXi3 compute_udiv a b =
     (let s_a = signed_drop_bit (LENGTH('a) - 1) a;
          s_b = signed_drop_bit (LENGTH('a) - 1) b;
          a_u = (a XOR s_a) + (- s_a);
          b_u = (b XOR s_b) + (- s_b);
          s_a = s_a XOR s_b
      in (compute_udiv a_u b_u XOR s_a) + (- s_a))"

definition modXi3 :: "('a::len word \<Rightarrow> 'a word \<Rightarrow> 'a word) \<Rightarrow> 'a word \<Rightarrow> 'a word \<Rightarrow> 'a word" where
  "modXi3 assign_umod a b =
     (let s = signed_drop_bit (LENGTH('a) - 1) b;
          b_u = (b XOR s) + (- s);
          s = signed_drop_bit (LENGTH('a) - 1) a;
          a_u = (a XOR s) + (- s)
      in (assign_umod a_u b_u XOR s) + (- s))"

definition divdi3 :: "u64 \<Rightarrow> u64 \<Rightarrow> u64" where
  "divdi3 a b = divXi3 (\<lambda>a b. fst (udivmoddi4 a b)) a b"

definition divXi3_7 :: "u32 \<Rightarrow> u32 \<Rightarrow> u32" where
  "divXi3_7 a b = divXi3 (div) a b"

definition divsi3 :: "u32 \<Rightarrow> u32 \<Rightarrow> u32" where
  "divsi3 a b = divXi3_7 a b"

definition divXi3_11 :: "u128 \<Rightarrow> u128 \<Rightarrow> u128" where
  "divXi3_11 a b = divXi3 (\<lambda>a b. fst (udivmodti4 a b)) a b"

definition divti3 :: "u128 \<Rightarrow> u128 \<Rightarrow> u128" where
  "divti3 a b = divXi3_11 a b"

definition moddi3 :: "u64 \<Rightarrow> u64 \<Rightarrow> u64" where
  "moddi3 a b = modXi3 (\<lambda>a b. snd (udivmoddi4 a b)) a b"

definition modsi3 :: "u32 \<Rightarrow> u32 \<Rightarrow> u32" where
  "modsi3 a b = a - divsi3 a b * b"

definition modXi3_20 :: "u128 \<Rightarrow> u128 \<Rightarrow> u128" where
  "modXi3_20 a b = modXi3 (\<lambda>a b. snd (udivmodti4 a b)) a b"

definition modti3 :: "u128 \<Rightarrow> u128 \<Rightarrow> u128" where
  "modti3 a b = modXi3_20 a b"

definition divmoddi4 :: "u64 \<Rightarrow> u64 \<Rightarrow> u64 \<times> u64" where
  "divmoddi4 a b =
     (let s_a = signed_drop_bit 63 a; s_b = signed_drop_bit 63 b;
          a = (a XOR s_a) - s_a; b = (b XOR s_b) - s_b; s_b = s_b XOR s_a
      in case udivmoddi4 a b of (q, r) \<Rightarrow> ((q XOR s_b) - s_b, (r XOR s_a) - s_a))"

definition divmodsi4 :: "u32 \<Rightarrow> u32 \<Rightarrow> u32 \<times> u32" where
  "divmodsi4 a b =
     (let s_a = signed_drop_bit 31 a; s_b = signed_drop_bit 31 b;
          a = (a XOR s_a) - s_a; b = (b XOR s_b) - s_b; s_b = s_b XOR s_a
      in case udivmodsi4 a b of (q, r) \<Rightarrow> ((q XOR s_b) - s_b, (r XOR s_a) - s_a))"

definition divmodti4 :: "u128 \<Rightarrow> u128 \<Rightarrow> u128 \<times> u128" where
  "divmodti4 a b =
     (let s_a = signed_drop_bit 127 a; s_b = signed_drop_bit 127 b;
          a = (a XOR s_a) - s_a; b = (b XOR s_b) - s_b; s_b = s_b XOR s_a
      in case udivmodti4 a b of (q, r) \<Rightarrow> ((q XOR s_b) - s_b, (r XOR s_a) - s_a))"

section \<open>The comparison without a branch\<close>

lemma bit_top: "bit x (LENGTH('a) - 1) \<longleftrightarrow> 2 ^ (LENGTH('a) - 1) \<le> unat x" for x :: "'a::len word"
proof -
  have "(2 :: nat) ^ LENGTH('a) = 2 * 2 ^ (LENGTH('a) - 1)" by (simp add: power_Suc [symmetric] del: power_Suc)
  then have "unat x < 2 * 2 ^ (LENGTH('a) - 1)" using unsigned_less [of x, where 'a = nat] by simp
  from bit_range [OF this] show ?thesis by (simp add: bit_unsigned_iff)
qed

lemma sign_mask: "signed_drop_bit (LENGTH('a) - 1) x = (if bit x (LENGTH('a) - 1) then - 1 else 0)" for x :: "'a::len word"
proof (rule bit_word_eqI)
  fix n
  assume "n < LENGTH('a)"
  then show "bit (signed_drop_bit (LENGTH('a) - 1) x) n \<longleftrightarrow> bit (if bit x (LENGTH('a) - 1) then - 1 else 0 :: 'a word) n"
    unfolding bit_signed_drop_bit_word by (cases n) (auto simp: bit_simps)
qed

lemma compare_mask:
  fixes d r :: "'a::len word"
  assumes "unat r < 2 * unat d"
    and "unat d < 2 ^ (LENGTH('a) - 1) \<or> 2 ^ (LENGTH('a) - 1) \<le> unat r"
  shows "signed_drop_bit (LENGTH('a) - 1) (d - r - 1) = (if d \<le> r then - 1 else 0)"
proof -
  let ?h = "2 ^ (LENGTH('a) - 1) :: nat"
  have N: "(2 :: nat) ^ LENGTH('a) = 2 * ?h" by (simp add: power_Suc [symmetric] del: power_Suc)
  have b: "unat d < 2 * ?h" "unat r < 2 * ?h"
    using unsigned_less [of d, where 'a = nat] unsigned_less [of r, where 'a = nat] unfolding N by simp_all
  have "bit (d - r - 1) (LENGTH('a) - 1) \<longleftrightarrow> d \<le> r"
  proof (cases "d \<le> r")
    case True
    then have le: "unat d \<le> unat r" by (simp add: word_le_nat_alt)
    have d: "unat (d - 1) = unat d - 1" using assms(1) by (subst unat_sub_nowrap) (simp_all add: word_le_nat_alt)
    then have "d - 1 < r" using assms(1) le by (simp add: word_less_nat_alt)
    then have "unat (d - 1 - r) = 2 * ?h + (unat d - 1) - unat r" unfolding N [symmetric] d [symmetric] by (rule unat_sub_wrap)
    moreover have "d - 1 - r = d - r - 1" by simp
    ultimately show ?thesis using True le b assms unfolding bit_top by auto
  next
    case False
    then have lt: "r < d" by simp
    then have "unat (d - r) = unat d - unat r" by (intro unat_sub_nowrap) simp
    moreover have "1 \<le> d - r" using lt by (simp add: word_le_nat_alt calculation word_less_nat_alt)
    ultimately have "unat (d - r - 1) = unat d - unat r - 1" by (simp add: unat_sub_nowrap)
    then show ?thesis using False lt assms b unfolding bit_top word_less_nat_alt by auto
  qed
  then show ?thesis unfolding sign_mask by (simp only:)
qed

section \<open>Shift and subtract divides\<close>

lemma or_low_bit: "c \<le> 1 \<Longrightarrow> push_bit 1 x OR c = 2 * x + c" for x c :: "'a::len word"
proof -
  assume "c \<le> 1"
  then have "c = 0 \<or> c = 1" using word_le_nat_alt [of c 1] by (auto simp: word_unat_eq_iff le_Suc_eq)
  then show ?thesis by (auto simp: push_bit_eq_mult mult.commute even_or_iff or_one_eq)
qed

text \<open>The loop keeps \<open>n0 div 2 ^ k = Q * d + R\<close> with \<open>R < d\<close>: \<open>k\<close> steps are left, \<open>Q\<close> is the quotient so
  far, its last bit still in the carry and the others at the bottom of \<open>n\<close>.\<close>

definition div_inv :: "nat \<Rightarrow> nat \<Rightarrow> 'a::len word \<Rightarrow> nat \<Rightarrow> 'a word \<Rightarrow> 'a word \<Rightarrow> 'a word \<Rightarrow> bool" where
  "div_inv n0 k d Q r n carry \<longleftrightarrow>
     k \<le> LENGTH('a) \<and> unat n = (n0 mod 2 ^ k) * 2 ^ (LENGTH('a) - k) + Q div 2 \<and> unat carry = Q mod 2
     \<and> n0 div 2 ^ k = Q * unat d + unat r \<and> unat r < unat d \<and> Q < 2 ^ (LENGTH('a) - k)"

lemma div_inv_bits:
  fixes n0 Q :: nat
  assumes "n0 < 2 ^ N" and "Suc k \<le> N" and "Q < 2 ^ (N - Suc k)"
  defines "v \<equiv> (n0 mod 2 ^ Suc k) * 2 ^ (N - Suc k) + Q div 2"
  shows "v div 2 ^ (N - 1) = n0 div 2 ^ k mod 2"
    and "2 * v mod 2 ^ N + Q mod 2 = (n0 mod 2 ^ k) * 2 ^ (N - k) + Q"
    and "n0 div 2 ^ k = 2 * (n0 div 2 ^ Suc k) + n0 div 2 ^ k mod 2"
proof -
  define b where "b = n0 div 2 ^ k mod 2"
  define m where "m = n0 mod 2 ^ k"
  have n0: "n0 mod 2 ^ Suc k = m + 2 ^ k * b" 
    using mod_mult2_eq [of n0 "2 ^ k" 2] by (simp add: m_def b_def mult.commute)
  have p: "(2 :: nat) ^ (N - 1) = 2 ^ k * 2 ^ (N - Suc k)" "(2 :: nat) ^ (N - k) = 2 * 2 ^ (N - Suc k)" "(2 :: nat) ^ N = 2 * 2 ^ (N - 1)"
    using assms(2) by (simp_all flip: power_add power_Suc)
  have m: "m + 1 \<le> 2 ^ k" by (simp add: m_def Suc_le_eq)
  have "m * 2 ^ (N - Suc k) + 2 ^ (N - Suc k) \<le> 2 ^ (N - 1)"
    unfolding p(1) using mult_right_mono [OF m, of "2 ^ (N - Suc k)"] by (simp add: algebra_simps)
  then have rest: "m * 2 ^ (N - Suc k) + Q div 2 < 2 ^ (N - 1)" using assms(3) by linarith
  have v: "v = (m * 2 ^ (N - Suc k) + Q div 2) + 2 ^ (N - 1) * b" unfolding v_def n0 p(1) by (simp add: algebra_simps)
  show "v div 2 ^ (N - 1) = n0 div 2 ^ k mod 2"
    unfolding v b_def [symmetric] using rest by (subst div_mult_self2) simp_all
  have "v mod 2 ^ (N - 1) = m * 2 ^ (N - Suc k) + Q div 2"
    unfolding v mod_mult_self2 using rest by (rule mod_less)
  then have "2 * v mod 2 ^ N = 2 * (m * 2 ^ (N - Suc k) + Q div 2)"
    unfolding p(3) mult_mod_right [symmetric] by simp
  then show "2 * v mod 2 ^ N + Q mod 2 = (n0 mod 2 ^ k) * 2 ^ (N - k) + Q"
    by (simp add: m_def [symmetric] p(2) algebra_simps)
  show "n0 div 2 ^ k = 2 * (n0 div 2 ^ Suc k) + n0 div 2 ^ k mod 2"
    using mult_div_mod_eq [of 2 "n0 div 2 ^ k"] div_mult2_eq [of n0 "2 ^ k" 2] by (simp add: mult.commute)
qed

lemma udiv_loop_step:
  fixes d r n carry :: "'a::len word"
  assumes inv: "div_inv n0 (Suc k) d Q r n carry" and n0: "n0 < 2 ^ LENGTH('a)"
    and side: "unat d < 2 ^ (LENGTH('a) - 1) \<or> 2 ^ (LENGTH('a) - 1) \<le> n0 \<and> k = 0"
    and r1: "r1 = push_bit 1 r OR drop_bit (LENGTH('a) - 1) n" and n1: "n1 = push_bit 1 n OR carry"
    and s: "s = signed_drop_bit (LENGTH('a) - 1) (d - r1 - 1)"
  shows "\<exists>Q'. div_inv n0 k d Q' (r1 - (d AND s)) n1 (s AND 1)"
proof -
  let ?N = "LENGTH('a)" and ?b = "n0 div 2 ^ k mod 2"
  have i: "Suc k \<le> ?N" "unat n = (n0 mod 2 ^ Suc k) * 2 ^ (?N - Suc k) + Q div 2" "unat carry = Q mod 2"
    "n0 div 2 ^ Suc k = Q * unat d + unat r" "unat r < unat d" "Q < 2 ^ (?N - Suc k)"
    using inv by (auto simp: div_inv_def)
  note bits = div_inv_bits [OF n0 i(1,6)]
  have top: "unat (drop_bit (?N - 1) n) = ?b" unfolding unat_drop_bit i(2) by (rule bits(1))
  have le: "2 * unat r + ?b \<le> n0 div 2 ^ k" using bits(3) i(4) by simp
  have "n0 div 2 ^ k \<le> n0" by (rule div_le_dividend)
  then have lt: "2 * unat r + ?b < 2 ^ ?N" using le n0 by linarith
  have R1: "unat r1 = 2 * unat r + ?b"
  proof -
    have "r1 = 2 * r + drop_bit (?N - 1) n" unfolding r1 by (rule or_low_bit) (unfold word_le_nat_alt top, simp)
    moreover have "unat (r + r) = unat r + unat r" using lt by (intro unat_add_nowrap) linarith
    then have "unat (2 * r) = 2 * unat r" by (simp only: mult_2)
    ultimately show ?thesis using lt top by (simp add: unat_add_nowrap)
  qed
  have "(2 :: nat) ^ (?N - k) = 2 * 2 ^ (?N - Suc k)" using i(1) by (simp flip: power_Suc add: Suc_diff_Suc)
  then have Q2: "2 * Q + 1 < 2 ^ (?N - k)" using i(6) by linarith
  have N1: "unat n1 = (n0 mod 2 ^ k) * 2 ^ (?N - k) + Q"
  proof -
    have "n1 = 2 * n + carry" unfolding n1 by (rule or_low_bit) (simp add: word_le_nat_alt i(3))
    moreover have "unat (2 * n) = 2 * unat n mod 2 ^ ?N" by (simp add: unat_word_ariths)
    moreover have "(n0 mod 2 ^ k) * 2 ^ (?N - k) + Q < 2 ^ ?N"
    proof -
      have "n0 mod 2 ^ k + 1 \<le> 2 ^ k" by (simp add: Suc_le_eq)
      then have "(n0 mod 2 ^ k + 1) * 2 ^ (?N - k) \<le> 2 ^ k * 2 ^ (?N - k)" by (rule mult_right_mono) simp
      also have "(2 :: nat) ^ k * 2 ^ (?N - k) = 2 ^ ?N" using i(1) by (simp flip: power_add)
      finally show ?thesis using Q2 by (simp add: algebra_simps)
    qed
    ultimately show ?thesis using bits(2) i(2,3) by (simp add: unat_add_nowrap)
  qed
  have "2 ^ (?N - 1) \<le> unat r1" if "\<not> unat d < 2 ^ (?N - 1)"
  proof -
    have k: "k = 0" "2 ^ (?N - 1) \<le> n0" using side that by auto
    have "(2 :: nat) ^ ?N = 2 * 2 ^ (?N - 1)" by (simp flip: power_Suc)
    then have "n0 div 2 < unat d" using n0 that by linarith
    then have "Q = 0" using i(4,5) k by (cases Q) auto
    then have "unat r1 = n0" using R1 i(4) k bits(3) by simp
    then show ?thesis using k by simp
  qed
  then have "unat d < 2 ^ (?N - 1) \<or> 2 ^ (?N - 1) \<le> unat r1" by blast
  moreover have "?b < 2" by simp
  then have "unat r1 < 2 * unat d" using R1 i(5) by linarith
  ultimately have m: "s = (if d \<le> r1 then - 1 else 0)" unfolding s by (intro compare_mask)
  define c :: nat where "c = of_bool (d \<le> r1)"
  have "unat (r1 - (d AND s)) = unat r1 - c * unat d" "unat (s AND 1) = c"
    using m by (auto simp: c_def unat_sub_nowrap)
  moreover have c: "c * unat d \<le> unat r1" "unat r1 - c * unat d < unat d" "c \<le> 1"
    using R1 i(5) by (auto simp: c_def word_le_nat_alt)
  moreover have "n0 div 2 ^ k = (2 * Q + c) * unat d + (unat r1 - c * unat d)"
    using c(1) bits(3) i(4) R1 by (simp add: algebra_simps)
  moreover have "(2 * Q + c) div 2 = Q" "(2 * Q + c) mod 2 = c" using c(3) by auto
  ultimately have "div_inv n0 k d (2 * Q + c) (r1 - (d AND s)) n1 (s AND 1)"
    using i(1) N1 Q2 by (simp add: div_inv_def)
  then show ?thesis ..
qed

lemma udiv_loop_spec:
  fixes d r n carry :: "'a::len word"
  assumes "div_inv n0 k d Q r n carry" and n0: "n0 < 2 ^ LENGTH('a)"
    and "unat d < 2 ^ (LENGTH('a) - 1) \<or> 2 ^ (LENGTH('a) - 1) \<le> n0 \<and> k \<le> 1"
  shows "case udiv_loop k d r n carry of (r', n', carry') \<Rightarrow>
    unat r' = n0 mod unat d \<and> carry' \<le> 1 \<and> unat (2 * n' + carry') = n0 div unat d"
  using assms(1,3)
proof (induction k arbitrary: Q r n carry)
  case 0
  then have i: "unat n = Q div 2" "unat carry = Q mod 2" "n0 = Q * unat d + unat r" "unat r < unat d" "Q < 2 ^ LENGTH('a)"
    by (auto simp: div_inv_def)
  have Q: "n0 div unat d = Q" "n0 mod unat d = unat r" using i(3,4) by (simp_all add: div_mult_self3)
  have "unat (n + n) = unat n + unat n" using i(1,5) by (intro unat_add_nowrap) simp
  moreover have "Q div 2 + Q div 2 + Q mod 2 = Q" by presburger
  ultimately have "unat (n + n + carry) = Q" using i(1,2,5) by (subst unat_add_nowrap) (simp_all only:)
  moreover have "carry \<le> 1" by (simp add: word_le_nat_alt i(2))
  ultimately show ?case by (simp only: udiv_loop.simps prod.case mult_2 Q)
next
  case (Suc k)
  define r1 where "r1 = push_bit 1 r OR drop_bit (LENGTH('a) - 1) n"
  define n1 where "n1 = push_bit 1 n OR carry"
  define s where "s = signed_drop_bit (LENGTH('a) - 1) (d - r1 - 1)"
  have "unat d < 2 ^ (LENGTH('a) - 1) \<or> 2 ^ (LENGTH('a) - 1) \<le> n0 \<and> k = 0" using Suc.prems(2) by simp
  from udiv_loop_step [OF Suc.prems(1) n0 this r1_def n1_def s_def] obtain Q'
    where "div_inv n0 k d Q' (r1 - (d AND s)) n1 (s AND 1)" ..
  from Suc.IH [OF this] Suc.prems(2) show ?case
    by (simp only: udiv_loop.simps Let_def r1_def [symmetric] n1_def [symmetric] s_def [symmetric]) auto
qed

text \<open>The distance of the highest bits tells how many steps are needed.\<close>

lemma unat_top_bit:
  fixes x :: "'a::len word"
  assumes "top_bit x m"
  shows "2 ^ m \<le> unat x" and "unat x < 2 * 2 ^ m"
proof -
  have "drop_bit (Suc m) x = 0" using assms by (intro bit_word_eqI) (auto simp: top_bit_def bit_drop_bit_eq)
  then have "unat x div 2 ^ Suc m = 0" by (metis unat_drop_bit unat_0)
  then show *: "unat x < 2 * 2 ^ m" by (simp add: div_eq_0_iff)
  have "bit (unat x) m" using assms by (simp add: top_bit_def bit_unsigned_iff)
  with bit_range [OF *] show "2 ^ m \<le> unat x" by simp
qed

lemma top_bit_less: "top_bit x m \<Longrightarrow> m < LENGTH('a)" for x :: "'a::len word"
  by (auto simp: top_bit_def dest: bit_imp_le_length)

lemma udiv_from_top:
  fixes n d :: "'a::len word"
  assumes tn: "top_bit n mn" and td: "top_bit d md" and le: "md \<le> mn" and k: "k = Suc (mn - md)" "k < LENGTH('a)"
  shows "case udiv_loop k d (drop_bit k n) (push_bit (LENGTH('a) - k) n) 0 of (r', n', carry') \<Rightarrow>
    r' = n mod d \<and> carry' \<le> 1 \<and> push_bit 1 n' OR carry' = n div d"
proof -
  let ?N = "LENGTH('a)"
  note n = unat_top_bit [OF tn] and d = unat_top_bit [OF td]
  have mn: "mn < ?N" using tn by (rule top_bit_less)
  have "(2 :: nat) ^ k * 2 ^ md = 2 * 2 ^ mn" using k(1) le by (simp flip: power_add power_Suc)
  then have "unat n < 2 ^ md * 2 ^ k" using n(2) by (simp add: mult.commute)
  then have "unat n div 2 ^ k < 2 ^ md" by (rule less_mult_imp_div_less)
  then have R: "unat n div 2 ^ k < unat d" using d(1) by linarith
  have "unat (push_bit (?N - k) n) = unat n mod 2 ^ k * 2 ^ (?N - k)"
  proof -
    have "unat (push_bit (?N - k) n) = push_bit (?N - k) (unat n) mod 2 ^ ?N"
      by (simp add: unsigned_push_bit_eq take_bit_eq_mod)
    also have "(2 :: nat) ^ ?N = 2 ^ (?N - k) * 2 ^ k" using k(2) by (simp flip: power_add)
    finally show ?thesis by (simp add: push_bit_eq_mult mult.commute [of "unat n"] mult_mod_right [symmetric]) 
  qed
  then have "div_inv (unat n) k d 0 (drop_bit k n) (push_bit (?N - k) n) 0"
    using R k(2) by (simp add: div_inv_def unat_drop_bit)
  moreover have "unat n < 2 ^ ?N" by (rule unsigned_less)
  moreover have "unat d < 2 ^ (?N - 1) \<or> 2 ^ (?N - 1) \<le> unat n \<and> k \<le> 1"
  proof (cases "md = ?N - 1")
    case True
    then have "mn = ?N - 1" using le mn by linarith
    then show ?thesis using n(1) True k(1) by simp
  next
    case False
    then have "Suc md \<le> ?N - 1" using top_bit_less [OF td] by simp
    then have "(2 :: nat) ^ Suc md \<le> 2 ^ (?N - 1)" by (rule power_increasing) simp
    then show ?thesis using d(2) by simp
  qed
  ultimately have spec: "case udiv_loop k d (drop_bit k n) (push_bit (?N - k) n) 0 of (r', n', carry') \<Rightarrow>
    unat r' = unat n mod unat d \<and> carry' \<le> 1 \<and> unat (2 * n' + carry') = unat n div unat d"
    by (rule udiv_loop_spec)
  obtain r' n' c' where e: "udiv_loop k d (drop_bit k n) (push_bit (?N - k) n) 0 = (r', n', c')"
    by (rule prod_cases3)
  have "r' = n mod d" "c' \<le> 1" "2 * n' + c' = n div d"
    using spec unfolding e prod.case by (simp_all only: word_unat_eq_iff unat_mod unat_div)
  then show ?thesis by (simp only: e prod.case or_low_bit simp_thms)
qed

lemma shift_distance_top:
  fixes n d :: "'a::len word"
  assumes "top_bit n mn" and "top_bit d md"
  shows "shift_distance n d = of_nat mn - of_nat md"
proof -
  have "n \<noteq> 0" "d \<noteq> 0" using assms by (auto simp: top_bit_def)
  moreover have "mn < LENGTH('a)" "md < LENGTH('a)" using assms by (auto intro: top_bit_less)
  ultimately show ?thesis
    by (simp add: shift_distance_def clz_top_bit [OF assms(1)] clz_top_bit [OF assms(2)] of_nat_diff Suc_le_eq)
qed

lemma small_u32: "m < 2 ^ 32 \<Longrightarrow> unat (of_nat m :: u32) = m"
  by (rule unat_of_nat_small) simp

lemma distance_u32:
  assumes "a < 256" and "b < 256"
  shows "unat (of_nat a - of_nat b :: u32) = (if b \<le> a then a - b else 2 ^ 32 + a - b)"
proof (cases "b \<le> a")
  case True
  then show ?thesis using assms by (subst unat_sub_nowrap) (simp_all add: word_le_nat_alt small_u32)
next
  case False
  then have "(of_nat a :: u32) < of_nat b" using assms by (simp add: word_less_nat_alt small_u32)
  from unat_sub_wrap [OF this] False assms show ?thesis by (simp add: small_u32)
qed

end
