(* ===== verification/Cc_Wide_Division.thy ===== *)
theory Cc_Wide_Division
  imports Cc_Division
begin

text \<open>
  Correctness of the unsigned division routines: the templates, the 64-bit division from halves and the
  128-bit division.
\<close>

section \<open>The templates\<close>

lemma udivXi3_correct:
  fixes n d :: "'a::len word"
  assumes "d \<noteq> 0" and len: "LENGTH('a) \<le> 128"
  shows "udivXi3 n d = n div d \<and> umodXi3 n d = n mod d"
proof -
  let ?N = "LENGTH('a)" and ?sr = "shift_distance n d"
  have N: "unat (of_nat (?N - 1) :: u32) = ?N - 1" "0 < ?N" using len by (auto intro!: small_u32)
  from top_bit_exists [OF assms(1)] obtain md where md: "top_bit d md" "md < ?N" .
  show ?thesis
  proof (cases "n = 0")
    case True
    have "builtin_clz d < ?N" using clz_top_bit [OF md(1)] md(2) by simp
    moreover from this have "unat ?sr = 2 ^ 32 + builtin_clz d - ?N"
      using assms len distance_u32 [of "builtin_clz d" ?N] by (simp add: shift_distance_def True)
    ultimately have "?sr > of_nat (?N - 1)" using len unfolding word_less_nat_alt N(1) by auto
    then show ?thesis using True by (simp add: udivXi3_def umodXi3_def Let_def)
  next
    case False
    from top_bit_exists [OF False] obtain mn where mn: "top_bit n mn" "mn < ?N" .
    have sr: "unat ?sr = (if md \<le> mn then mn - md else 2 ^ 32 + mn - md)"
      unfolding shift_distance_top [OF mn(1) md(1)] using mn(2) md(2) len by (intro distance_u32) simp_all
    show ?thesis
    proof (cases "md \<le> mn")
      case lt: False
      then have "?sr > of_nat (?N - 1)" using sr md(2) len unfolding word_less_nat_alt N(1) by auto
      moreover have "2 * 2 ^ mn \<le> (2 :: nat) ^ md" using lt power_increasing [of "Suc mn" md "2 :: nat"] by simp
      then have "n < d" using unat_top_bit [OF mn(1)] unat_top_bit [OF md(1)] by (simp add: word_less_nat_alt)
      ultimately show ?thesis
        by (simp add: udivXi3_def umodXi3_def Let_def word_unat_eq_iff unat_div unat_mod word_less_nat_alt)
    next
      case le: True
      then have sr1: "unat ?sr = mn - md" using sr by simp
      have nlt: "\<not> ?sr > of_nat (?N - 1)" using sr1 mn(2) unfolding word_less_nat_alt N(1) by linarith
      have eq: "?sr = of_nat (?N - 1) \<longleftrightarrow> mn - md = ?N - 1" unfolding word_unat_eq_iff sr1 N(1) ..
      show ?thesis
      proof (cases "mn - md = ?N - 1")
        case True
        then have "md = 0" using mn(2) le by linarith
        then have "unat d = 1" using unat_top_bit [OF md(1)] by simp
        then have "d = 1" by (simp add: word_unat_eq_iff)
        then show ?thesis using nlt eq True by (simp add: udivXi3_def umodXi3_def Let_def)
      next
        case False
        then have k: "Suc (mn - md) < ?N" using mn(2) by simp
        have "unat (?sr + 1) = Suc (mn - md)" using sr1 k len by (subst unat_add_nowrap) simp_all
        then show ?thesis
          using udiv_from_top [OF mn(1) md(1) le refl k] nlt eq False
          by (simp add: udivXi3_def umodXi3_def Let_def split: prod.splits)
      qed
    qed
  qed
qed

section \<open>64 bits from halves\<close>

lemma halves_or:
  "(lo (x OR y) :: 'h::len word) = lo x OR lo y" "(hi (x OR y) :: 'h word) = hi x OR hi y" for x y :: "'w::len word"
  by (rule bit_word_eqI; auto simp: bit_or_iff)+

lemma halves_ucast:
  assumes "LENGTH('w) = 2 * LENGTH('h)"
  shows "lo (ucast c :: 'w::len word) = (c :: 'h::len word)" and "hi (ucast c :: 'w word) = (0 :: 'h word)"
  by (rule bit_word_eqI; use assms in \<open>auto simp: bit_unsigned_iff dest: bit_imp_le_length\<close>)+

lemma halves_join:
  assumes "LENGTH('w) = 2 * LENGTH('h)"
  shows "lo (join h l :: 'w::len word) = (l :: 'h::len word)" and "hi (join h l :: 'w word) = h"
  by (rule bit_word_eqI; use assms in \<open>auto simp: bit_join\<close>)+

lemma step_halves:
  fixes r q :: u64 and c :: u32
  shows "join (push_bit 1 (hi r) OR drop_bit 31 (lo r)) (push_bit 1 (lo r) OR drop_bit 31 (hi q) :: u32) = push_bit 1 r OR drop_bit 63 q"
    and "join (push_bit 1 (hi q) OR drop_bit 31 (lo q)) (push_bit 1 (lo q) OR c) = push_bit 1 q OR ucast c"
proof -
  have p: "(hi (push_bit 1 x) :: u32) = push_bit 1 (hi x) OR drop_bit 31 (lo x)" "(lo (push_bit 1 x) :: u32) = push_bit 1 (lo x)" for x :: u64
    using halves_push_bit(1,2) [where 'w = 64 and 'h = 32, of 1 x] by simp_all
  have d: "(lo (drop_bit 63 q) :: u32) = drop_bit 31 (hi q)" "(hi (drop_bit 63 q) :: u32) = 0"
    using halves_drop_bit(3,4) [where 'w = 64 and 'h = 32, of 63 q] by simp_all
  show "join (push_bit 1 (hi r) OR drop_bit 31 (lo r)) (push_bit 1 (lo r) OR drop_bit 31 (hi q) :: u32) = push_bit 1 r OR drop_bit 63 q"
    by (rule join_eqI) (simp_all only: halves_or p d or.right_neutral, simp)
  show "join (push_bit 1 (hi q) OR drop_bit 31 (lo q)) (push_bit 1 (lo q) OR c) = push_bit 1 q OR ucast c"
    by (rule join_eqI) (simp_all only: halves_or p halves_ucast or.right_neutral, simp_all add: halves_ucast)
qed

lemma mask_casts:
  fixes x :: u64
  shows "ucast (ucast (x AND 1) :: u32) = x AND 1" and "ucast (ucast c :: u64) = (c :: u32)"
  by (rule bit_word_eqI; auto simp: bit_simps)+

lemma udivmoddi4_loop_eq:
  "udivmoddi4_loop k d r q c = (case udiv_loop k d r q (ucast c) of (r, q, c) \<Rightarrow> (r, q, ucast c))"
proof (induction k arbitrary: r q c)
  case 0
  then show ?case by (simp add: mask_casts)
next
  case (Suc k)
  show ?case
    unfolding udivmoddi4_loop.simps udiv_loop.simps Let_def
    unfolding step_halves(1) unfolding step_halves(2) Suc.IH mask_casts by simp
qed

lemma start_shifts:
  fixes a :: u64
  shows "sr \<le> 32 \<Longrightarrow> join (push_bit (32 - sr) (lo a :: u32)) 0 = push_bit (64 - sr) a"
    and "sr \<le> 32 \<Longrightarrow> join (drop_bit sr (hi a :: u32)) (push_bit (32 - sr) (hi a) OR drop_bit sr (lo a)) = drop_bit sr a"
    and "32 \<le> sr \<Longrightarrow> sr \<le> 64 \<Longrightarrow>
      join (push_bit (64 - sr) (hi a :: u32) OR drop_bit (sr - 32) (lo a)) (push_bit (64 - sr) (lo a)) = push_bit (64 - sr) a"
    and "32 \<le> sr \<Longrightarrow> join 0 (drop_bit (sr - 32) (hi a :: u32)) = drop_bit sr a"
  by (rule join_eqI; simp add: halves_push_bit halves_drop_bit)+

lemma start_shifts_32: "join (lo a :: u32) 0 = push_bit 32 a" "join 0 (hi a :: u32) = drop_bit 32 a" for a :: u64
  using start_shifts(1,4) [of 32 a] by simp_all

lemma top_bit_unique:
  assumes "top_bit x m" and "top_bit x m'"
  shows "m = m'"
  using assms by (cases m m' rule: linorder_cases) (auto simp: top_bit_def)

lemma top_bit_wide:
  fixes a :: u64
  shows "top_bit (hi a :: u32) m \<Longrightarrow> top_bit a (m + 32)"
    and "hi a = (0 :: u32) \<Longrightarrow> top_bit (lo a :: u32) m \<Longrightarrow> top_bit a m"
proof -
  assume *: "top_bit (hi a :: u32) m"
  then have "(hi a :: u32) \<noteq> 0" by (auto simp: top_bit_def simp del: bit_hi)
  then have "a \<noteq> 0" by (auto simp: halves_zero)
  from top_bit_exists [OF this] obtain k where k: "top_bit a k" .
  note h = top_bit_halves [where 'w = 64 and 'h = 32, OF _ k, simplified]
  have "\<not> k < 32" using h(1) \<open>hi a \<noteq> 0\<close> by simp
  with top_bit_unique [OF h(3) *] k show "top_bit a (m + 32)" by auto
next
  assume *: "hi a = (0 :: u32)" "top_bit (lo a :: u32) m"
  then have "(lo a :: u32) \<noteq> 0" by (auto simp: top_bit_def simp del: bit_lo)
  then have "a \<noteq> 0" by (auto simp: halves_zero)
  from top_bit_exists [OF this] obtain k where k: "top_bit a k" .
  note h = top_bit_halves [where 'w = 64 and 'h = 32, OF _ k, simplified]
  have "k < 32" using h(1) *(1) by simp
  with top_bit_unique [OF h(2) *(2)] k show "top_bit a m" by auto
qed

text \<open>\<open>x AND (x - 1) = 0\<close> tests for a power of two.\<close>

lemma power_of_two_test:
  fixes x :: "'a::len word"
  assumes "x \<noteq> 0" and "x AND (x - 1) = 0"
  shows "unat x = 2 ^ builtin_ctz x" and "unat (y AND (x - 1)) = unat y mod 2 ^ builtin_ctz x"
    and "builtin_ctz x < LENGTH('a)"
proof -
  from low_bit_exists [OF assms(1)] obtain m where m: "low_bit x m" "m < LENGTH('a)" .
  have c: "builtin_ctz x = m" using m(1) by (rule ctz_low_bit)
  have "unat x mod 2 ^ m = 0"
  proof -
    have "take_bit m x = 0" using m(1) by (intro bit_word_eqI) (auto simp: low_bit_def bit_take_bit_iff)
    then have "unat (take_bit m x) = 0" by simp
    then show ?thesis unfolding unsigned_take_bit_eq by (simp only: take_bit_eq_mod)
  qed
  moreover have "odd (unat x div 2 ^ m)" using m(1) by (simp add: low_bit_def bit_unsigned_iff flip: bit_iff_odd)
  then obtain z where "unat x div 2 ^ m = 2 * z + 1" by (rule oddE)
  ultimately have z: "unat x = 2 ^ m + 2 ^ Suc m * z"
    using mult_div_mod_eq [of "2 ^ m" "unat x"] by (simp add: algebra_simps)
  have x1: "unat (x - 1) = (2 ^ m - 1) + 2 ^ Suc m * z"
  proof -
    have "1 \<le> (2 :: nat) ^ m" by simp
    then have "1 \<le> unat x" "unat x - 1 = (2 ^ m - 1) + 2 ^ Suc m * z" unfolding z by linarith+
    then show ?thesis by (subst unat_sub_nowrap) (simp_all add: word_le_nat_alt)
  qed
  have "unat x AND unat (x - 1) = (2 ^ m AND (2 ^ m - 1)) + 2 ^ Suc m * (z AND z)"
    unfolding z x1 by (rule nat_and_split) (simp, rule less_le_trans [of _ "2 ^ m"], simp_all)
  moreover have "unat x AND unat (x - 1) = 0" unfolding unat_and [symmetric] assms(2) by simp
  ultimately have "z = 0" by simp
  then show "unat x = 2 ^ builtin_ctz x" using z c by simp
  have "unat (y AND (x - 1)) = unat y AND mask m"
    using x1 \<open>z = 0\<close> by (simp add: unat_and mask_eq_exp_minus_1)
  then show "unat (y AND (x - 1)) = unat y mod 2 ^ builtin_ctz x"
    by (simp add: c take_bit_eq_mask [symmetric] take_bit_eq_mod)
  show "builtin_ctz x < LENGTH('a)" using m(2) c by simp
qed

text \<open>What the special cases return and what the loop starts with.\<close>

definition start_ok :: "u64 \<Rightarrow> u64 \<Rightarrow> (u64 \<times> u64) + (u64 \<times> u64 \<times> nat) \<Rightarrow> bool" where
  "start_ok a b res \<longleftrightarrow>
     (case res of
        Inl (q, r) \<Rightarrow> q = a div b \<and> r = a mod b
      | Inr (q, r, sr) \<Rightarrow>
          sr < 64 \<and> q = push_bit (64 - sr) a \<and> r = drop_bit sr a
          \<and> (\<exists>mn md. top_bit a mn \<and> top_bit b md \<and> md \<le> mn \<and> sr = Suc (mn - md)))"

lemma unat_wide: "unat a = unat (hi a :: u32) * 2 ^ 32 + unat (lo a :: u32)" for a :: u64
  using unat_halves [where 'w = 64 and 'h = 32, of a] by simp

lemma unat_join: "unat (join h l :: u64) = unat h * 2 ^ 32 + unat l" for h l :: u32
  using unat_wide [of "join h l"] by (simp add: halves_join)

lemma start_okI: "unat q = unat a div unat b \<Longrightarrow> unat r = unat a mod unat b \<Longrightarrow> start_ok a b (Inl (q, r))"
  by (simp add: start_ok_def word_unat_eq_iff unat_div unat_mod)

lemma cast_wide [simp]: "unat (ucast x :: u64) = unat x" for x :: u32
  by (rule unat_ucast_up) simp

lemma start_small:
  assumes "b \<noteq> 0" and "hi a = (0 :: u32)"
  shows "start_ok a b (if hi b = (0 :: u32) then Inl (ucast ((lo a :: u32) div lo b), ucast ((lo a :: u32) mod lo b))
    else Inl (0, ucast (lo a :: u32)))"
proof (cases "hi b = (0 :: u32)")
  case True
  then show ?thesis using assms(2)
    by (simp add: start_ok_def word_unat_eq_iff unat_div unat_mod unat_wide [of a] unat_wide [of b])
next
  case False
  have "unat (lo a :: u32) < 2 ^ 32" using unsigned_less [of "lo a :: u32", where 'a = nat] by simp
  moreover have "1 \<le> unat (hi b :: u32)" using False by (simp add: Suc_le_eq unat_gt_0)
  ultimately have "unat a < unat b" using assms(2) unfolding unat_wide [of a] unat_wide [of b] by simp
  then show ?thesis using False assms(2)
    by (simp add: start_ok_def word_unat_eq_iff unat_div unat_mod unat_wide [of a])
qed

lemma start_high_only:
  assumes "hi b \<noteq> (0 :: u32)" and "lo b = (0 :: u32)"
  shows "lo a = (0 :: u32) \<Longrightarrow> start_ok a b (Inl (ucast ((hi a :: u32) div hi b), join ((hi a :: u32) mod hi b) 0))"
    and "hi b AND (hi b - 1) = (0 :: u32) \<Longrightarrow>
      start_ok a b (Inl (ucast (drop_bit (builtin_ctz (hi b :: u32)) (hi a :: u32)), join (hi a AND (hi b - 1)) (lo a :: u32)))"
proof -
  have b: "unat b = unat (hi b :: u32) * 2 ^ 32" using assms(2) by (simp add: unat_wide [of b])
  show "start_ok a b (Inl (ucast ((hi a :: u32) div hi b), join ((hi a :: u32) mod hi b) 0))" if "lo a = (0 :: u32)"
  proof -
    have a: "unat a = unat (hi a :: u32) * 2 ^ 32" using that by (simp add: unat_wide [of a])
    have "unat a div unat b = unat (hi a :: u32) div unat (hi b :: u32)"
      unfolding a b by (rule div_mult_mult2) simp
    moreover have "unat a mod unat b = unat (hi a :: u32) mod unat (hi b :: u32) * 2 ^ 32"
      unfolding a b by (rule mod_mult_mult2)
    ultimately show ?thesis by (intro start_okI) (simp_all add: unat_div unat_mod unat_join)
  qed
  assume p: "hi b AND (hi b - 1) = (0 :: u32)"
  let ?c = "builtin_ctz (hi b :: u32)"
  note two = power_of_two_test [OF assms(1) p]
  have b2: "unat b = 2 ^ 32 * 2 ^ ?c" by (simp add: b two(1))
  have lo: "unat (lo a :: u32) < 2 ^ 32" using unsigned_less [of "lo a :: u32", where 'a = nat] by simp
  have "unat a div unat b = unat (hi a :: u32) div 2 ^ ?c"
    unfolding b2 div_mult2_eq using lo by (simp add: unat_wide [of a])
  moreover have "unat a mod unat b = unat (hi a :: u32) mod 2 ^ ?c * 2 ^ 32 + unat (lo a :: u32)"
    unfolding b2 mod_mult2_eq using lo by (simp add: unat_wide [of a])
  ultimately show "start_ok a b (Inl (ucast (drop_bit ?c (hi a :: u32)), join (hi a AND (hi b - 1)) (lo a :: u32)))"
    by (intro start_okI) (simp_all add: unat_drop_bit two(2) unat_join)
qed

lemma start_low_only:
  assumes "hi b = (0 :: u32)" and "lo b \<noteq> (0 :: u32)" and p: "lo b AND (lo b - 1) = (0 :: u32)"
  shows "lo b = (1 :: u32) \<Longrightarrow> start_ok a b (Inl (a, ucast (lo a AND (lo b - 1 :: u32))))"
    and "start_ok a b (let sr = builtin_ctz (lo b :: u32) in
      Inl (join (drop_bit sr (hi a :: u32)) (push_bit (32 - sr) (hi a) OR drop_bit sr (lo a)),
        ucast (lo a AND (lo b - 1 :: u32))))"
proof -
  let ?c = "builtin_ctz (lo b :: u32)"
  note two = power_of_two_test [OF assms(2) p]
  have b: "unat b = 2 ^ ?c" using assms(1) two(1) by (simp add: unat_wide [of b])
  have "(2 :: nat) ^ ?c dvd 2 ^ 32" using two(3) by (intro le_imp_power_dvd) simp
  then have "unat (hi a :: u32) * 2 ^ 32 mod 2 ^ ?c = 0" by (simp add: dvd_mult)
  then have m: "unat a mod unat b = unat (lo a :: u32) mod 2 ^ ?c"
    unfolding b unat_wide [of a] by (metis add.left_neutral mod_add_left_eq)
  show "start_ok a b (Inl (a, ucast (lo a AND (lo b - 1 :: u32))))" if "lo b = (1 :: u32)"
    using that assms(1) by (intro start_okI) (simp_all add: unat_wide [of b])
  show "start_ok a b (let sr = ?c in
      Inl (join (drop_bit sr (hi a :: u32)) (push_bit (32 - sr) (hi a) OR drop_bit sr (lo a)),
        ucast (lo a AND (lo b - 1 :: u32))))"
    unfolding Let_def using two(3) by (subst start_shifts(2), simp) (intro start_okI, simp_all add: unat_drop_bit b m [unfolded b] two(2))
qed

text \<open>The general case, from the highest bits of the halves.\<close>

lemma start_Inr:
  assumes "top_bit a mn" and "top_bit b md" and "md \<le> mn" and "sr = Suc (mn - md)" and "sr < 64"
    and "q = push_bit (64 - sr) a" and "r = drop_bit sr a"
  shows "start_ok a b (Inr (q, r, sr))"
  unfolding start_ok_def using assms by auto

lemma start_both_high:
  fixes a b :: u64
  assumes "hi a \<noteq> (0 :: u32)" and "hi b \<noteq> (0 :: u32)"
  defines "sr \<equiv> of_nat (builtin_clz (hi b :: u32)) - of_nat (builtin_clz (hi a :: u32)) :: u32"
  shows "\<exists>mn md. top_bit a (mn + 32) \<and> top_bit b (md + 32) \<and> mn < 32 \<and> md < 32
    \<and> unat sr = (if md \<le> mn then mn - md else 2 ^ 32 + mn - md) \<and> (mn < md \<longrightarrow> a < b)
    \<and> unat (hi b :: u32) \<ge> 2 ^ md \<and> unat (hi b :: u32) < 2 * 2 ^ md"
proof -
  from top_bit_exists [OF assms(1)] obtain mn where mn: "top_bit (hi a :: u32) mn" "mn < 32" by auto
  from top_bit_exists [OF assms(2)] obtain md where md: "top_bit (hi b :: u32) md" "md < 32" by auto
  have "sr = of_nat mn - of_nat md"
    unfolding sr_def clz_top_bit [OF mn(1)] clz_top_bit [OF md(1)] using mn(2) md(2) by (simp add: of_nat_diff)
  then have "unat sr = (if md \<le> mn then mn - md else 2 ^ 32 + mn - md)"
    using distance_u32 [of mn md] mn(2) md(2) by simp
  moreover have "a < b" if "mn < md"
  proof -
    have "2 * 2 ^ mn \<le> (2 :: nat) ^ md" using that power_increasing [of "Suc mn" md "2 :: nat"] by simp
    then have "(hi a :: u32) < hi b" using unat_top_bit [OF mn(1)] unat_top_bit [OF md(1)] by (simp add: word_less_nat_alt)
    then show ?thesis using wide_less(1) [where 'w = 64 and 'h = 32, of a b] by simp
  qed
  ultimately show ?thesis using top_bit_wide(1) [OF mn(1)] top_bit_wide(1) [OF md(1)] mn(2) md(2) unat_top_bit [OF md(1)] by blast
qed

lemma start_small_quotient: "a < b \<Longrightarrow> start_ok a b (Inl (0, a))"
  by (intro start_okI) (simp_all add: word_less_nat_alt)

lemma not_power_of_two:
  fixes x :: u32
  assumes "x AND (x - 1) \<noteq> 0" and "2 ^ m \<le> unat x" "unat x < 2 * 2 ^ m"
  shows "1 \<le> m"
proof (rule ccontr)
  assume "\<not> 1 \<le> m"
  then have "m = 0" by simp
  then have "unat x = 1" using assms(2,3) by simp
  then have "x = 1" by (simp add: word_unat_eq_iff)
  with assms(1) show False by simp
qed

lemma start_case_high:
  fixes a b :: u64
  assumes "hi a \<noteq> (0 :: u32)" and "hi b \<noteq> (0 :: u32)"
  defines "sr \<equiv> of_nat (builtin_clz (hi b :: u32)) - of_nat (builtin_clz (hi a :: u32)) :: u32"
  shows "sr > 31 \<Longrightarrow> start_ok a b (Inl (0, a))"
    and "\<not> sr > 31 \<Longrightarrow> unat (sr + 1) \<le> 32 \<and>
      start_ok a b (Inr (push_bit (64 - unat (sr + 1)) a, drop_bit (unat (sr + 1)) a, unat (sr + 1)))"
    and "hi b AND (hi b - 1) \<noteq> (0 :: u32) \<Longrightarrow> sr > 30 \<Longrightarrow> sr > 31"
proof -
  from start_both_high [OF assms(1,2), folded sr_def] obtain mn md
    where m: "top_bit a (mn + 32)" "top_bit b (md + 32)" "mn < 32" "md < 32"
      "unat sr = (if md \<le> mn then mn - md else 2 ^ 32 + mn - md)" "mn < md \<longrightarrow> a < b"
      "2 ^ md \<le> unat (hi b :: u32)" "unat (hi b :: u32) < 2 * 2 ^ md" by blast
  have big: "sr > 31 \<longleftrightarrow> mn < md" using m(3,4,5) by (auto simp: word_less_nat_alt not_le)
  show "start_ok a b (Inl (0, a))" if "sr > 31" using that big m(6) by (intro start_small_quotient) simp
  show "unat (sr + 1) \<le> 32 \<and> start_ok a b (Inr (push_bit (64 - unat (sr + 1)) a, drop_bit (unat (sr + 1)) a, unat (sr + 1)))"
    if "\<not> sr > 31"
  proof -
    have le: "md \<le> mn" using that big by simp
    then have "unat (sr + 1) = Suc (mn - md)" using m(3,5) by (subst unat_add_nowrap) simp_all
    with m(3) le show ?thesis by (auto intro!: start_Inr [OF m(1,2)])
  qed
  show "sr > 31" if "hi b AND (hi b - 1) \<noteq> (0 :: u32)" and "sr > 30"
    using not_power_of_two [OF that(1) m(7,8)] that(2) m(3,5) unfolding big by (auto simp: word_less_nat_alt not_le split: if_splits)
qed

lemma start_case_low:
  fixes a b :: u64
  assumes "hi a \<noteq> (0 :: u32)" and "hi b = (0 :: u32)" and "lo b AND (lo b - 1) \<noteq> (0 :: u32)"
  defines "sr \<equiv> unat (1 + 32 + of_nat (builtin_clz (lo b :: u32)) - of_nat (builtin_clz (hi a :: u32)) :: u32)"
  shows "start_ok a b (Inr (push_bit (64 - sr) a, drop_bit sr a, sr)) \<and> sr < 64"
proof -
  have "lo b \<noteq> (0 :: u32)" using assms(3) by auto
  from top_bit_exists [OF this] obtain md where md: "top_bit (lo b :: u32) md" "md < 32" by auto
  from top_bit_exists [OF assms(1)] obtain mn where mn: "top_bit (hi a :: u32) mn" "mn < 32" by auto
  have 1: "1 \<le> md" using not_power_of_two [OF assms(3) unat_top_bit [OF md(1)]] .
  have eq: "1 + 32 + of_nat (31 - md) - of_nat (31 - mn) = (of_nat (33 + mn) - of_nat md :: u32)"
    using mn(2) md(2) by (simp add: of_nat_diff)
  have clz: "builtin_clz (lo b :: u32) = 31 - md" "builtin_clz (hi a :: u32) = 31 - mn"
    using clz_top_bit [OF mn(1)] clz_top_bit [OF md(1)] by simp_all
  have "sr = 33 + mn - md"
    unfolding sr_def clz eq using distance_u32 [of "33 + mn" md] mn(2) md(2) by simp
  then have "sr = Suc (mn + 32 - md)" "sr < 64" using mn(2) md(2) 1 by auto
  moreover have "md \<le> mn + 32" using md(2) by simp
  ultimately show ?thesis
    using start_Inr [OF top_bit_wide(1) [OF mn(1)] top_bit_wide(2) [OF assms(2) md(1)]] by blast
qed

lemma udivmoddi4_start_ok:
  assumes "b \<noteq> 0"
  shows "start_ok a b (udivmoddi4_start a b)"
proof (cases "hi a = (0 :: u32)")
  case True
  then show ?thesis using start_small [OF assms True] by (simp add: udivmoddi4_start_def Let_def)
next
  case nh: False
  show ?thesis
  proof (cases "hi b = (0 :: u32)")
    case dh: True
    then have dl: "lo b \<noteq> (0 :: u32)" using assms unat_wide [of b] by (auto simp: word_unat_eq_iff [of b])
    show ?thesis
    proof (cases "lo b AND (lo b - 1) = (0 :: u32)")
      case True
      then show ?thesis using nh dh dl start_low_only [OF dh dl True, of a]
        by (simp add: udivmoddi4_start_def Let_def)
    next
      case False
      define sr where "sr = unat (1 + 32 + of_nat (builtin_clz (lo b :: u32)) - of_nat (builtin_clz (hi a :: u32)) :: u32)"
      have ok: "start_ok a b (Inr (push_bit (64 - sr) a, drop_bit sr a, sr))" "sr < 64"
        using start_case_low [OF nh dh False] by (simp_all add: sr_def)
      have "udivmoddi4_start a b = Inr (push_bit (64 - sr) a, drop_bit sr a, sr)"
        unfolding udivmoddi4_start_def Let_def sr_def [symmetric]
        using ok(2) nh dh dl False by (simp add: start_shifts start_shifts_32)
      with ok(1) show ?thesis by simp
    qed
  next
    case dh: False
    define sr where "sr = (of_nat (builtin_clz (hi b :: u32)) - of_nat (builtin_clz (hi a :: u32)) :: u32)"
    note c = start_case_high [OF nh dh, folded sr_def]
    show ?thesis
    proof (cases "lo b = (0 :: u32)")
      case dl: True
      consider "lo a = (0 :: u32)" | "lo a \<noteq> (0 :: u32)" "hi b AND (hi b - 1) = (0 :: u32)"
        | "lo a \<noteq> (0 :: u32)" "hi b AND (hi b - 1) \<noteq> (0 :: u32)" "sr > 30"
        | "lo a \<noteq> (0 :: u32)" "hi b AND (hi b - 1) \<noteq> (0 :: u32)" "\<not> sr > 30" by blast
      then show ?thesis
      proof cases
        case 4
        then have "\<not> sr > 31" by (auto simp: word_less_nat_alt)
        with 4 nh dh dl c(2) show ?thesis
          by (simp add: udivmoddi4_start_def Let_def start_shifts flip: sr_def)
      qed (use nh dh dl c start_high_only [OF dh dl, of a] in \<open>simp_all add: udivmoddi4_start_def Let_def flip: sr_def\<close>)
    next
      case False
      then show ?thesis using nh dh c(1,2)
        by (cases "sr > 31") (auto simp: udivmoddi4_start_def Let_def start_shifts start_shifts_32 simp flip: sr_def)
    qed
  qed
qed

lemma udivmoddi4_correct:
  assumes "b \<noteq> 0"
  shows "udivmoddi4 a b = (a div b, a mod b)"
proof -
  have ok: "start_ok a b (udivmoddi4_start a b)" using assms by (rule udivmoddi4_start_ok)
  show ?thesis
  proof (cases "udivmoddi4_start a b")
    case (Inl qr)
    then show ?thesis using ok by (cases qr) (simp add: udivmoddi4_def start_ok_def)
  next
    case (Inr s)
    obtain q r sr where s: "s = (q, r, sr)" by (rule prod_cases3)
    from ok obtain mn md where m: "sr < 64" "q = push_bit (64 - sr) a" "r = drop_bit sr a" "top_bit a mn" "top_bit b md"
      "md \<le> mn" "sr = Suc (mn - md)" by (auto simp: Inr s start_ok_def)
    obtain r' n' c' where e: "udiv_loop sr b r q 0 = (r', n', c')" by (rule prod_cases3)
    have "r' = a mod b \<and> c' \<le> 1 \<and> push_bit 1 n' OR c' = a div b"
      using udiv_from_top [OF m(4-7)] m(1) e by (simp add: m(2,3))
    moreover have "ucast (ucast c' :: u32) = c'" if "c' \<le> 1"
    proof -
      have "c' = 0 \<or> c' = 1" using that by (auto simp: word_le_nat_alt word_unat_eq_iff le_Suc_eq)
      then show ?thesis by auto
    qed
    ultimately show ?thesis by (simp add: udivmoddi4_def Inr s udivmoddi4_loop_eq e)
  qed
qed

end
