(* ===== verification/Cc_Ti_Division.thy ===== *)
theory Cc_Ti_Division
  imports Cc_Wide_Division
begin

text \<open>
  Correctness of the 128-bit division: the digit-by-digit division of 128 by 64 bits (Knuth's algorithm
  D with two digits of 32 bits), and the shift-and-subtract loop for wide divisors.
\<close>

section \<open>A quotient digit\<close>

text \<open>The facts about an estimate \<open>q\<close> of the digit \<open>(un * b + u) div v\<close>, all on natural numbers.\<close>

lemma digit_estimate:
  fixes un u v v1 v0 q rhat b :: nat
  assumes v: "v = v1 * b + v0" "v0 < b" "b \<le> 2 * v1" and un: "un < v" "u < b" and q: "un = q * v1 + rhat"
  shows "(un * b + u) div v < b" and "q \<le> b + 1" and "q * v + rhat * b = un * b + q * v0"
proof -
  have "(un + 1) * b \<le> v * b" using un(1) by (intro mult_right_mono) simp_all
  then have "un * b + u < b * v" using un(2) by (simp add: algebra_simps)
  then show "(un * b + u) div v < b" by (rule less_mult_imp_div_less)
  have "q * v1 < (b + 2) * v1" using v un(1) q by (simp add: algebra_simps)
  then show "q \<le> b + 1" by (simp only: mult_less_cancel2) simp
  show "q * v + rhat * b = un * b + q * v0" by (simp add: v(1) q algebra_simps)
qed

lemma digit_too_big:
  fixes un u v v1 v0 q rhat b :: nat
  assumes v: "v = v1 * b + v0" "v0 < b" "b \<le> 2 * v1" and un: "un < v" "u < b" and q: "un = q * v1 + rhat"
  shows "q \<ge> b \<or> q * v0 > b * rhat + u \<Longrightarrow> (un * b + u) div v < q"
    and "\<not> (q * v0 > b * rhat + u) \<Longrightarrow> q \<le> (un * b + u) div v"
proof -
  note e = digit_estimate [OF v un q]
  have v0: "0 < v" using un(1) by simp
  show "(un * b + u) div v < q" if "q \<ge> b \<or> q * v0 > b * rhat + u"
  proof (cases "q \<ge> b")
    case True
    then show ?thesis using e(1) by linarith
  next
    case False
    then have "un * b + u < q * v" using that e(3) by (simp add: mult.commute)
    then show ?thesis by (rule less_mult_imp_div_less)
  qed
  show "q \<le> (un * b + u) div v" if "\<not> (q * v0 > b * rhat + u)"
  proof -
    have "q * v \<le> un * b + u" using that e(3) by (simp add: mult.commute)
    then show ?thesis using v0 by (simp add: less_eq_div_iff_mult_less_eq)
  qed
qed

lemma correct_digit_correct:
  fixes vn1 vn0 un q rhat :: u64
  assumes v: "unat vn0 < 2 ^ 32" "2 ^ 31 \<le> unat vn1" "unat vn1 < 2 ^ 32" and u: "unat un < 2 ^ 32"
    and w: "w < unat vn1 * 2 ^ 32 + unat vn0" "w = unat q * unat vn1 + unat rhat" "unat rhat < 2 ^ 32"
    and D: "D = (w * 2 ^ 32 + unat un) div (unat vn1 * 2 ^ 32 + unat vn0)" "D \<le> unat q"
  shows "unat (correct_digit vn1 vn0 un q rhat) = D"
  using w(2,3) D(2)
proof (induction "unat q" arbitrary: q rhat rule: less_induct)
  case less
  let ?b = "2 ^ 32 :: nat" and ?v = "unat vn1 * 2 ^ 32 + unat vn0"
  have h: "?v = unat vn1 * ?b + unat vn0" "unat vn0 < ?b" "?b \<le> 2 * unat vn1" using v by simp_all
  note q = digit_estimate(2) [OF h w(1) u less.prems(1)] and big = digit_too_big [OF h w(1) u less.prems(1), folded D(1)]
  have rhs: "unat (0x100000000 * rhat + un) = ?b * unat rhat + unat un"
  proof -
    have "unat (0x100000000 * rhat) = ?b * unat rhat" using less.prems(2) by (subst unat_mult_nowrap) simp_all
    then show ?thesis using less.prems(2) u by (subst unat_add_nowrap) simp_all
  qed
  have lhs: "unat (q * vn0) = unat q * unat vn0" if "\<not> q \<ge> 0x100000000"
  proof -
    have "unat q * unat vn0 \<le> ?b * unat vn0" using that by (intro mult_right_mono) (simp_all add: word_le_nat_alt)
    also have "\<dots> < ?b * ?b" using v(1) by (intro mult_strict_left_mono) simp_all
    finally show ?thesis by (intro unat_mult_nowrap) simp
  qed
  show ?case
  proof (cases "q \<ge> 0x100000000 \<or> q * vn0 > 0x100000000 * rhat + un")
    case True
    then have "unat q \<ge> ?b \<or> unat q * unat vn0 > ?b * unat rhat + unat un"
      using rhs lhs by (cases "q \<ge> 0x100000000") (auto simp: word_le_nat_alt word_less_nat_alt)
    then have D1: "D < unat q" by (rule big(1))
    then have q1: "unat (q - 1) = unat q - 1" by (subst unat_sub_nowrap) (simp_all add: word_le_nat_alt)
    have r1: "unat (rhat + vn1) = unat rhat + unat vn1" using less.prems(2) v(3) by (intro unat_add_nowrap) simp
    have w1: "w = unat (q - 1) * unat vn1 + unat (rhat + vn1)"
      using less.prems(1) D1 unfolding q1 r1 by (cases "unat q") simp_all
    show ?thesis
    proof (cases "rhat + vn1 \<ge> 0x100000000")
      case exit: True
      have "unat (q - 1) * unat vn0 \<le> ?b * unat vn0" using q q1 by (intro mult_right_mono) simp_all
      also have "\<dots> \<le> ?b * unat (rhat + vn1)" using exit v(1) by (intro mult_left_mono) (simp_all add: word_le_nat_alt)
      finally have "unat (q - 1) \<le> D"
        by (intro digit_too_big(2) [OF h w(1) u w1, folded D(1)]) simp
      then have "unat (q - 1) = D" using D1 q1 by simp
      then show ?thesis using True exit by (simp add: correct_digit.simps [of vn1 vn0 un q] Let_def)
    next
      case False
      then have "unat (rhat + vn1) < ?b" by (simp add: word_le_nat_alt)
      with less.hyps [of "q - 1" "rhat + vn1"] w1 D1 q1 have "unat (correct_digit vn1 vn0 un (q - 1) (rhat + vn1)) = D"
        by simp
      then show ?thesis using True False by (simp add: correct_digit.simps [of vn1 vn0 un q] Let_def)
    qed
  next
    case False
    then have "\<not> unat q * unat vn0 > ?b * unat rhat + unat un"
      using rhs lhs by (auto simp: word_less_nat_alt)
    then have "unat q \<le> D" by (rule big(2))
    then show ?thesis using False less.prems(3) by (simp add: correct_digit.simps [of vn1 vn0 un q])
  qed
qed

text \<open>One digit of the quotient and the remainder that is left, from a remainder \<open>un < v\<close> and the next digit
  \<open>u\<close> of a normalised division.\<close>

lemma knuth_digit:
  fixes v un u :: u64
  assumes v: "2 ^ 63 \<le> unat v" and un: "unat un < unat v" and u: "unat u < 2 ^ 32"
  defines "vn1 \<equiv> drop_bit 32 v" and "vn0 \<equiv> v AND 0xFFFFFFFF"
  defines "q \<equiv> correct_digit vn1 vn0 u (un div vn1) (un - un div vn1 * vn1)"
  shows "unat q = (unat un * 2 ^ 32 + unat u) div unat v"
    and "unat (un * 0x100000000 + u - q * v) = (unat un * 2 ^ 32 + unat u) mod unat v"
    and "unat q < 2 ^ 32"
proof -
  have "(0xFFFFFFFF :: u64) = mask 32" by (simp add: mask_eq_exp_minus_1)
  then have n: "unat vn1 = unat v div 2 ^ 32" "unat vn0 = unat v mod 2 ^ 32"
    by (simp_all only: vn1_def vn0_def unat_drop_bit unat_and_mask)
  then have vv: "unat v = unat vn1 * 2 ^ 32 + unat vn0" by simp
  have b: "unat vn0 < 2 ^ 32" "2 ^ 31 \<le> unat vn1" "unat vn1 < 2 ^ 32"
    using v u64_bound [of v] unfolding n by (simp_all add: less_mult_imp_div_less less_eq_div_iff_mult_less_eq)
  let ?D = "(unat un * 2 ^ 32 + unat u) div unat v"
  have q0: "unat (un div vn1) = unat un div unat vn1" by (simp add: unat_div)
  have le: "unat un div unat vn1 * unat vn1 \<le> unat un" by simp
  have m: "unat (un div vn1 * vn1) = unat un div unat vn1 * unat vn1"
    using le_less_trans [OF le u64_bound] by (subst unat_mult_nowrap) (simp_all only: q0 len_of_numeral_defs, simp)
  then have r0: "unat (un - un div vn1 * vn1) = unat un mod unat vn1"
    using le by (subst unat_sub_nowrap) (simp_all add: word_le_nat_alt minus_div_mult_eq_mod)
  have "?D * unat v \<le> unat un * 2 ^ 32 + unat u" by simp
  then have "?D * unat vn1 * 2 ^ 32 < (unat un + 1) * 2 ^ 32"
    using u unfolding vv by (simp add: algebra_simps)
  then have "?D * unat vn1 \<le> unat un" by (simp only: mult_less_cancel2) simp
  then have D: "?D \<le> unat un div unat vn1" using b(2) by (simp add: less_eq_div_iff_mult_less_eq)
  have "unat un mod unat vn1 < unat vn1" using b(2) by (intro mod_less_divisor) simp
  then have r1: "unat un mod unat vn1 < 2 ^ 32" using b(3) by linarith
  show q: "unat q = ?D" unfolding q_def
    by (rule correct_digit_correct [OF b u, of "unat un", folded vv]) (use un D r1 in \<open>simp_all add: q0 r0\<close>)
  show "unat q < 2 ^ 32" unfolding q
    by (rule digit_estimate(1) [OF vv b(1) _ un u, of "unat un div unat vn1" "unat un mod unat vn1"]) (use b(2) in simp_all)
  let ?R = "(unat un * 2 ^ 32 + unat u) mod unat v"
  have "unat q * unat v + ?R = unat un * 2 ^ 32 + unat u" unfolding q by (rule div_mult_mod_eq)
  from arg_cong [OF this, of "of_nat :: nat \<Rightarrow> u64"] have "q * v + of_nat ?R = un * 0x100000000 + u"
    by simp
  then have eq: "un * 0x100000000 + u - q * v = of_nat ?R" by (metis add_diff_cancel_left')
  have "?R < unat v" using un by (intro mod_less_divisor) linarith
  then have "?R < 2 ^ 64" using u64_bound [of v] by linarith
  then show "unat (un * 0x100000000 + u - q * v) = ?R" unfolding eq by (intro unat_of_nat_small) simp
qed

section \<open>128 by 64 bits\<close>

lemma normalise:
  fixes u1 u0 v :: u64
  assumes v: "v \<noteq> 0" and u1: "u1 < v" and s: "s = builtin_clz v"
  defines "vn \<equiv> (if s > 0 then push_bit s v else v)"
    and "un64 \<equiv> (if s > 0 then push_bit s u1 OR drop_bit (64 - s) u0 else u1)"
    and "un10 \<equiv> (if s > 0 then push_bit s u0 else u0)"
  shows "unat vn = unat v * 2 ^ s" and "2 ^ 63 \<le> unat vn" and "unat un64 < unat vn"
    and "unat un64 * 2 ^ 64 + unat un10 = (unat u1 * 2 ^ 64 + unat u0) * 2 ^ s"
proof -
  from top_bit_exists [OF v] obtain m where m: "top_bit v m" "m < 64" by auto
  then have sm: "s = 63 - m" unfolding s clz_top_bit [OF m(1)] by simp
  note t = unat_top_bit [OF m(1)]
  have p: "(2 :: nat) ^ m * 2 ^ s = 2 ^ 63" "(2 :: nat) ^ 64 = 2 ^ (64 - s) * 2 ^ s"
    using m(2) sm by (simp_all flip: power_add)
  have "unat v * 2 ^ s < (2 * 2 ^ m) * 2 ^ s" using t(2) by (intro mult_strict_right_mono) simp_all
  also have "(2 * 2 ^ m) * 2 ^ s = (2 :: nat) ^ 64" unfolding mult.assoc p(1) by simp
  finally have vb: "unat v * 2 ^ s < 2 ^ 64" .
  have push: "unat (push_bit s x) = unat x * 2 ^ s mod 2 ^ 64" for x :: u64
    by (simp add: unsigned_push_bit_eq take_bit_eq_mod) (simp add: push_bit_eq_mult)
  have vn': "vn = push_bit s v" and un': "un64 = push_bit s u1 OR drop_bit (64 - s) u0" "un10 = push_bit s u0"
    by (auto simp: vn_def un64_def un10_def drop_bit_exp_eq)
  show vn: "unat vn = unat v * 2 ^ s" unfolding vn' push using vb by (rule mod_less)
  have "2 ^ m * 2 ^ s \<le> unat v * 2 ^ s" using t(1) by (intro mult_right_mono) simp_all
  then show "2 ^ 63 \<le> unat vn" unfolding vn using p(1) by simp
  have "unat u1 + 1 \<le> unat v" using u1 by (simp add: word_less_nat_alt)
  then have u1v: "(unat u1 + 1) * 2 ^ s \<le> unat v * 2 ^ s" by (rule mult_right_mono) simp
  have "unat u0 < 2 ^ s * 2 ^ (64 - s)" using u64_bound [of u0] p(2) by (simp add: mult.commute)
  then have top: "unat u0 div 2 ^ (64 - s) < 2 ^ s" by (rule less_mult_imp_div_less)
  have "push_bit s u1 OR drop_bit (64 - s) u0 = push_bit s u1 + drop_bit (64 - s) u0"
    using sm by (intro disjunctive_add [symmetric]) (auto simp: bit_simps dest: bit_imp_le_length)
  moreover have pu: "unat (push_bit s u1) = unat u1 * 2 ^ s" unfolding push using u1v vb by (intro mod_less) simp
  ultimately have un64: "unat un64 = unat u1 * 2 ^ s + unat u0 div 2 ^ (64 - s)"
    unfolding un' using u1v vb top by (simp only:) (subst unat_add_nowrap, simp_all add: unat_drop_bit pu)
  show "unat un64 < unat vn" unfolding un64 vn using u1v top by simp
  have "unat u0 div 2 ^ (64 - s) = unat u0 * 2 ^ s div 2 ^ 64" unfolding p(2) by (subst div_mult_mult2) simp_all
  then show "unat un64 * 2 ^ 64 + unat un10 = (unat u1 * 2 ^ 64 + unat u0) * 2 ^ s"
    unfolding un64 un'(2) push using div_mult_mod_eq [of "unat u0 * 2 ^ s" "2 ^ 64"] by (simp add: algebra_simps)
qed

lemma div_mod_scaled:
  fixes n q d r k :: nat
  assumes "n * 2 ^ k = q * (d * 2 ^ k) + r" and "r < d * 2 ^ k"
  shows "q = n div d" and "r = n mod d * 2 ^ k"
proof -
  have "d * 2 ^ k \<noteq> 0" using assms(2) by linarith
  then have "q = n * 2 ^ k div (d * 2 ^ k)" "r = n * 2 ^ k mod (d * 2 ^ k)"
    unfolding assms(1) div_mult_self3 mod_mult_self3 using assms(2) by simp_all
  then show "q = n div d" and "r = n mod d * 2 ^ k" by (simp_all add: mult_mod_left)
qed

lemma udiv128by64to64default_correct:
  fixes u1 u0 v :: u64
  assumes "v \<noteq> 0" and "u1 < v"
  shows "(case udiv128by64to64default u1 u0 v of (q, r) \<Rightarrow>
    unat q = (unat u1 * 2 ^ 64 + unat u0) div unat v \<and> unat r = (unat u1 * 2 ^ 64 + unat u0) mod unat v)"
proof -
  define s where "s = builtin_clz v"
  define vn where "vn = (if s > 0 then push_bit s v else v)"
  define un64 where "un64 = (if s > 0 then push_bit s u1 OR drop_bit (64 - s) u0 else u1)"
  define un10 where "un10 = (if s > 0 then push_bit s u0 else u0)"
  note n = normalise(1,2) [OF assms s_def, folded vn_def]
    normalise(3,4) [OF assms s_def, of u0, folded vn_def un64_def un10_def]
  define un1 un0 where "un1 = drop_bit 32 un10" and "un0 = un10 AND 0xFFFFFFFF"
  have "(0xFFFFFFFF :: u64) = mask 32" by (simp add: mask_eq_exp_minus_1)
  then have u: "unat un1 = unat un10 div 2 ^ 32" "unat un0 = unat un10 mod 2 ^ 32"
    by (simp_all only: un1_def un0_def unat_drop_bit unat_and_mask)
  have ub: "unat un1 < 2 ^ 32" "unat un0 < 2 ^ 32"
    using u64_bound [of un10] unfolding u by (simp_all add: less_mult_imp_div_less)
  define vn1 vn0 where "vn1 = drop_bit 32 vn" and "vn0 = vn AND 0xFFFFFFFF"
  define q1 where "q1 = correct_digit vn1 vn0 un1 (un64 div vn1) (un64 - un64 div vn1 * vn1)"
  define un21 where "un21 = un64 * 0x100000000 + un1 - q1 * vn"
  define q0 where "q0 = correct_digit vn1 vn0 un0 (un21 div vn1) (un21 - un21 div vn1 * vn1)"
  define r where "r = un21 * 0x100000000 + un0 - q0 * vn"
  note d1 = knuth_digit [OF n(2,3) ub(1), folded vn1_def vn0_def q1_def, folded un21_def]
  have "unat un21 < unat vn" unfolding d1(2) using n(2) by (intro mod_less_divisor) simp
  note d0 = knuth_digit [OF n(2) this ub(2), folded vn1_def vn0_def q0_def, folded r_def]
  let ?U = "unat u1 * 2 ^ 64 + unat u0"
  have U: "?U * 2 ^ s = (unat q1 * 2 ^ 32 + unat q0) * unat vn + unat r"
  proof -
    have "unat un10 = unat un1 * 2 ^ 32 + unat un0" unfolding u by simp
    then have "?U * 2 ^ s = (unat un64 * 2 ^ 32 + unat un1) * 2 ^ 32 + unat un0"
      using n(4) by (simp add: algebra_simps)
    also have "unat un64 * 2 ^ 32 + unat un1 = unat q1 * unat vn + unat un21"
      unfolding d1 by (rule div_mult_mod_eq [symmetric])
    also have "(unat q1 * unat vn + unat un21) * 2 ^ 32 + unat un0
        = unat q1 * 2 ^ 32 * unat vn + (unat un21 * 2 ^ 32 + unat un0)" by (simp add: algebra_simps)
    also have "unat un21 * 2 ^ 32 + unat un0 = unat q0 * unat vn + unat r"
      unfolding d0 by (rule div_mult_mod_eq [symmetric])
    finally show ?thesis by (simp add: algebra_simps)
  qed
  have r: "unat r < unat vn" unfolding d0(2) using n(2) by (intro mod_less_divisor) simp
  have Q: "unat q1 * 2 ^ 32 + unat q0 = ?U div unat v" and R: "unat r = ?U mod unat v * 2 ^ s"
    by (rule div_mod_scaled [OF U [unfolded n(1)] r [unfolded n(1)]])+
  have "unat (q1 * 0x100000000 + q0) = unat q1 * 2 ^ 32 + unat q0"
  proof -
    have "unat (q1 * 0x100000000) = unat q1 * 2 ^ 32" using d1(3) by (subst unat_mult_nowrap) simp_all
    then show ?thesis using d1(3) d0(3) by (subst unat_add_nowrap) simp_all
  qed
  moreover have "udiv128by64to64default u1 u0 v = (q1 * 0x100000000 + q0, drop_bit s r)"
    unfolding udiv128by64to64default_def Let_def
    by (simp only: s_def [symmetric] vn_def [symmetric] un64_def [symmetric] un10_def [symmetric] un1_def [symmetric]
      un0_def [symmetric] vn1_def [symmetric] vn0_def [symmetric] q1_def [symmetric] un21_def [symmetric] q0_def [symmetric] r_def [symmetric])
  ultimately show ?thesis using Q R by (simp add: unat_drop_bit)
qed

section \<open>128 by 128 bits\<close>

text \<open>With \<open>n\<close> shifts left the divisor is \<open>b * 2 ^ (n - 1)\<close>, the dividend is below \<open>b * 2 ^ n\<close> and the
  quotient is \<open>ql * 2 ^ n\<close> plus that of the dividend.\<close>

lemma udivmodti4_loop_spec:
  fixes b divisor dividend :: u128
  assumes "b \<noteq> 0" and "unat dividend < unat b * 2 ^ n" and "unat ql < 2 ^ (64 - n)" and "n \<le> 64"
    and "n > 0 \<longrightarrow> unat divisor = unat b * 2 ^ (n - 1) \<and> (unat divisor < 2 ^ 127 \<or> 2 ^ 127 \<le> unat dividend)"
  shows "case udivmodti4_loop n divisor dividend ql of (q, r) \<Rightarrow>
    unat q = unat ql * 2 ^ n + unat dividend div unat b \<and> unat r = unat dividend mod unat b"
  using assms(2-)
proof (induction n arbitrary: divisor dividend ql)
  case 0
  then show ?case by simp
next
  case (Suc n)
  have D: "unat divisor = unat b * 2 ^ n" using Suc.prems by simp
  define s where "s = signed_drop_bit 127 (divisor - dividend - 1)"
  have s: "s = (if divisor \<le> dividend then - 1 else 0)"
    unfolding s_def using compare_mask [of dividend divisor] Suc.prems D by simp
  define c where "c = (ucast (s AND 1) :: u64)"
  have c: "c = of_bool (divisor \<le> dividend)" unfolding c_def s by simp
  have p: "(2 :: nat) ^ (64 - n) = 2 * 2 ^ (64 - Suc n)"
    using Suc.prems(3) by (simp add: Suc_diff_Suc flip: power_Suc)
  have "(2 :: nat) ^ (64 - Suc n) \<le> 2 ^ 63" by (rule power_increasing) simp_all
  note p = p this
  define q where "q = push_bit 1 ql OR c"
  have "q = 2 * ql + c" unfolding q_def by (rule or_low_bit) (simp add: c)
  moreover have "unat (2 * ql) = 2 * unat ql" using Suc.prems(2) p(2) by (subst unat_mult_nowrap) simp_all
  ultimately have q: "unat q = 2 * unat ql + of_bool (divisor \<le> dividend)"
    using Suc.prems(2) p(2) by (simp add: c unat_add_nowrap)
  define r where "r = dividend - (divisor AND s)"
  have r: "unat r = unat dividend - (if divisor \<le> dividend then unat divisor else 0)"
    unfolding r_def s by (simp add: unat_sub_nowrap)
  have rb: "unat r < unat b * 2 ^ n" using r Suc.prems(1) D by (auto simp: word_le_nat_alt)
  have h: "unat (drop_bit 1 divisor) = unat b * 2 ^ n div 2" by (simp add: unat_drop_bit D del: drop_bit_Suc)
  have "case udivmodti4_loop n (drop_bit 1 divisor) r q of (q', r') \<Rightarrow>
    unat q' = unat q * 2 ^ n + unat r div unat b \<and> unat r' = unat r mod unat b"
  proof (rule Suc.IH [OF rb])
    show "unat q < 2 ^ (64 - n)" using q p Suc.prems(2) by simp
    show "n \<le> 64" using Suc.prems(3) by simp
    have "unat b * 2 ^ n div 2 < 2 ^ 127" using unsigned_less [of divisor, where 'a = nat] unfolding D by simp
    then show "n > 0 \<longrightarrow> unat (drop_bit 1 divisor) = unat b * 2 ^ (n - 1)
        \<and> (unat (drop_bit 1 divisor) < 2 ^ 127 \<or> 2 ^ 127 \<le> unat r)"
      unfolding h by (cases n) simp_all
  qed
  moreover have "unat q * 2 ^ n + unat r div unat b = unat ql * 2 ^ Suc n + unat dividend div unat b"
    and "unat r mod unat b = unat dividend mod unat b"
  proof -
    have "unat dividend = unat r + of_bool (divisor \<le> dividend) * 2 ^ n * unat b"
      using r D by (auto simp: word_le_nat_alt mult.commute)
    moreover have "unat b \<noteq> 0" using assms(1) by (simp add: unat_eq_zero)
    ultimately have "unat dividend div unat b = of_bool (divisor \<le> dividend) * 2 ^ n + unat r div unat b"
      and m: "unat dividend mod unat b = unat r mod unat b" by simp_all
    then show "unat q * 2 ^ n + unat r div unat b = unat ql * 2 ^ Suc n + unat dividend div unat b"
      by (simp add: q algebra_simps)
    show "unat r mod unat b = unat dividend mod unat b" using m by simp
  qed
  ultimately show ?case
    by (simp only: udivmodti4_loop.simps Let_def s_def [symmetric] c_def [symmetric] q_def [symmetric] r_def [symmetric])
qed

lemma unat_wide_128: "unat a = unat (hi a :: u64) * 2 ^ 64 + unat (lo a :: u64)" for a :: u128
  using unat_halves [where 'w = 128 and 'h = 64, of a] by simp

lemma unat_join_128: "unat (join h l :: u128) = unat h * 2 ^ 64 + unat l" for h l :: u64
  using unat_wide_128 [of "join h l"] by (simp add: halves_join)

lemma word_quotient_eqI:
  "unat q = unat a div unat b \<Longrightarrow> unat r = unat a mod unat b \<Longrightarrow> (q, r) = (a div b, a mod b)" for a b q r :: "'a::len word"
  by (simp add: word_unat_eq_iff unat_div unat_mod)

lemma udivmodti4_low_divisor:
  assumes "b \<noteq> 0" and "hi b = (0 :: u64)" and "b \<le> a"
  shows "udivmodti4 a b = (a div b, a mod b)"
proof -
  define nl nh dl where "nl = (lo a :: u64)" and "nh = (hi a :: u64)" and "dl = (lo b :: u64)"
  have a: "unat a = unat nh * 2 ^ 64 + unat nl" and b: "unat b = unat dl"
    using unat_wide_128 [of a] unat_wide_128 [of b] assms(2) by (simp_all add: nl_def nh_def dl_def)
  have dl: "dl \<noteq> 0" using assms(1) b unat_eq_zero [of b] by auto
  have nlt: "\<not> a < b" using assms(3) by (simp add: not_less)
  show ?thesis
  proof (cases "nh < dl")
    case True
    obtain q r where qr: "udiv128by64to64default nh nl dl = (q, r)" by fastforce
    have "udivmodti4 a b = (join 0 q, join 0 r)" using assms(2) nlt True qr
      by (simp add: udivmodti4_def Let_def nl_def nh_def dl_def)
    also have "\<dots> = (a div b, a mod b)"
      using udiv128by64to64default_correct [OF dl True, of nl] qr
      by (intro word_quotient_eqI) (simp_all add: unat_join_128 a b)
    finally show ?thesis .
  next
    case False
    have m: "nh mod dl < dl" using dl unat_eq_zero [of dl] by (simp add: word_less_nat_alt unat_mod)
    obtain q r where qr: "udiv128by64to64default (nh mod dl) nl dl = (q, r)" by fastforce
    note c = udiv128by64to64default_correct [OF dl m, of nl, unfolded qr prod.case unat_mod]
    have N: "unat a = unat nh div unat dl * 2 ^ 64 * unat dl + (unat nh mod unat dl * 2 ^ 64 + unat nl)"
      unfolding a by (subst div_mult_mod_eq [of "unat nh" "unat dl", symmetric]) (simp only: algebra_simps)
    have "udivmodti4 a b = (join (nh div dl) q, join 0 r)" using assms(2) nlt False qr
      by (simp add: udivmodti4_def Let_def nl_def nh_def dl_def)
    also have "\<dots> = (a div b, a mod b)"
    proof (rule word_quotient_eqI)
      have "unat dl \<noteq> 0" using dl by (simp only: unat_eq_zero not_False_eq_True)
      then show "unat (join (nh div dl) q :: u128) = unat a div unat b"
        unfolding N b div_mult_self3 [OF \<open>unat dl \<noteq> 0\<close>] by (simp add: c unat_join_128 unat_div)
      show "unat (join 0 r :: u128) = unat a mod unat b" unfolding N b mod_mult_self3 by (simp add: c unat_join_128)
    qed
    finally show ?thesis .
  qed
qed

lemma udivmodti4_correct:
  assumes "b \<noteq> 0"
  shows "udivmodti4 a b = (a div b, a mod b)"
proof (cases "b > a \<or> hi b = (0 :: u64)")
  case True
  then show ?thesis
  proof (cases "b > a")
    case True
    then show ?thesis by (simp add: udivmodti4_def Let_def word_unat_eq_iff unat_div unat_mod word_less_nat_alt)
  next
    case False
    then show ?thesis using assms True by (intro udivmodti4_low_divisor) simp_all
  qed
next
  case False
  then have le: "b \<le> a" and hb: "hi b \<noteq> (0 :: u64)" by auto
  have "a \<noteq> 0" using le assms by auto
  from top_bit_exists [OF this] obtain ma where ma: "top_bit a ma" .
  from top_bit_exists [OF assms] obtain mb where mb: "top_bit b mb" .
  note ta = unat_top_bit [OF ma] and tb = unat_top_bit [OF mb]
  have "(2 :: nat) ^ mb < 2 ^ Suc ma" using ta(2) tb(1) le by (simp add: word_le_nat_alt)
  then have mm: "mb \<le> ma" using power_less_imp_less_exp [of "2 :: nat" mb "Suc ma"] by simp
  note hb' = top_bit_halves [where 'w = 128 and 'h = 64, OF _ mb, simplified]
  have mb64: "64 \<le> mb" using hb'(1) hb by simp
  note ha' = top_bit_halves [where 'w = 128 and 'h = 64, OF _ ma, simplified]
  have bound: "ma < 128" using top_bit_less [OF ma] by simp
  define shift where "shift = builtin_clz (hi b :: u64) - builtin_clz (hi a :: u64)"
  have sh: "shift = ma - mb"
    unfolding shift_def using clz_top_bit [OF hb'(3)] clz_top_bit [OF ha'(3)] mb64 mm bound by simp
  have p: "(2 :: nat) ^ ma = 2 ^ mb * 2 ^ shift" using mm sh by (simp flip: power_add)
  have up: "unat b * 2 ^ shift < 2 * 2 ^ ma" unfolding p using tb(2) by simp
  have low: "2 ^ ma \<le> unat b * 2 ^ shift" unfolding p using tb(1) by simp
  have "(2 :: nat) * 2 ^ ma \<le> 2 ^ 128" using power_increasing [of "Suc ma" 128 "2 :: nat"] bound by simp
  then have D: "unat (push_bit shift b) = unat b * 2 ^ shift"
    using up by (simp add: unsigned_push_bit_eq take_bit_eq_mod) (simp add: push_bit_eq_mult)
  have "unat (push_bit shift b) < 2 ^ 127 \<or> 2 ^ 127 \<le> unat a"
  proof (cases "ma = 127")
    case True
    then show ?thesis using ta(1) by simp
  next
    case False
    then have "(2 :: nat) * 2 ^ ma \<le> 2 ^ 127" using power_increasing [of "Suc ma" 127 "2 :: nat"] bound by simp
    then show ?thesis using up unfolding D by linarith
  qed
  moreover have "unat a < unat b * 2 ^ Suc shift" using ta(2) low by simp
  ultimately have "case udivmodti4_loop (Suc shift) (push_bit shift b) a 0 of (q, r) \<Rightarrow>
    unat q = unat (0 :: u64) * 2 ^ Suc shift + unat a div unat b \<and> unat r = unat a mod unat b"
    using sh mb64 bound D by (intro udivmodti4_loop_spec [OF assms]) simp_all
  then show ?thesis using False
    by (auto simp: udivmodti4_def Let_def shift_def [symmetric] unat_join_128 simp del: udivmodti4_loop.simps split: prod.split)
      (simp_all add: word_unat_eq_iff unat_join_128 unat_div unat_mod)
qed

section \<open>Signed division\<close>

lemma negate_if:
  "(x XOR (if p then - 1 else 0)) + - (if p then - 1 else 0) = (if p then - x else x)"
  "(x XOR (if p then - 1 else 0)) - (if p then - 1 else 0) = (if p then - x else x)" for x :: "'a::len word"
  using minus_eq_not_plus_1 [of x] by (cases p; simp)+

lemma xor_signs: "(if p then - 1 else 0) XOR (if q then - 1 else 0) = (if p \<noteq> q then - 1 else 0 :: 'a::len word)"
  by simp

definition magnitude :: "'a::len word \<Rightarrow> 'a word" where
  "magnitude a = (if bit a (LENGTH('a) - 1) then - a else a)"

lemma sint_neg: "bit a (LENGTH('a) - 1) \<longleftrightarrow> sint a < 0" for a :: "'a::len word"
  by (simp add: bit_last_iff)

lemma uint_magnitude: "uint (magnitude a) = \<bar>sint a\<bar>" for a :: "'a::len word"
proof (cases "bit a (LENGTH('a) - 1)")
  case True
  then have "a \<noteq> 0" by auto
  have "uint a < 2 ^ LENGTH('a)" by simp
  moreover have "sint a = uint a - 2 ^ LENGTH('a)" using True by (simp add: sint_uint_bit)
  moreover have "uint (- a) = 2 ^ LENGTH('a) - uint a"
    using \<open>a \<noteq> 0\<close> by (simp add: uint_word_ariths zmod_zminus1_eq_if uint_0_iff)
  ultimately show ?thesis unfolding magnitude_def if_P [OF True] by linarith
next
  case False
  then have "sint a = uint a" by (simp add: sint_uint_bit)
  then show ?thesis unfolding magnitude_def using False by simp
qed

lemma magnitude_nonzero: "b \<noteq> 0 \<Longrightarrow> magnitude b \<noteq> 0"
  by (auto simp: magnitude_def)

lemma signed_quotient:
  fixes a b :: "'a::len word"
  shows "(if bit b (LENGTH('a) - 1) \<noteq> bit a (LENGTH('a) - 1) then - (magnitude a div magnitude b) else magnitude a div magnitude b)
      = word_of_int (sint a sdiv sint b)"
    and "(if bit a (LENGTH('a) - 1) then - (magnitude a mod magnitude b) else magnitude a mod magnitude b)
      = word_of_int (sint a smod sint b)"
proof -
  have q: "magnitude a div magnitude b = word_of_int (\<bar>sint a\<bar> div \<bar>sint b\<bar>)"
    and r: "magnitude a mod magnitude b = word_of_int (\<bar>sint a\<bar> mod \<bar>sint b\<bar>)"
    by (simp_all add: word_div_def word_mod_def uint_magnitude)
  show "(if bit b (LENGTH('a) - 1) \<noteq> bit a (LENGTH('a) - 1) then - (magnitude a div magnitude b) else magnitude a div magnitude b)
      = word_of_int (sint a sdiv sint b)"
    unfolding q sint_neg signed_divide_int_def by (cases "sint a = 0"; cases "sint b = 0") (auto simp: sgn_if)
  show "(if bit a (LENGTH('a) - 1) then - (magnitude a mod magnitude b) else magnitude a mod magnitude b)
      = word_of_int (sint a smod sint b)"
    unfolding r sint_neg signed_modulo_int_def by (auto simp: sgn_if)
qed

lemma divXi3_signed:
  fixes a b :: "'a::len word"
  assumes "b \<noteq> 0" and "\<And>n d. d \<noteq> 0 \<Longrightarrow> udiv n d = n div d"
  shows "divXi3 udiv a b = word_of_int (sint a sdiv sint b)"
proof -
  have "bit a (LENGTH('a) - 1) \<noteq> bit b (LENGTH('a) - 1) \<longleftrightarrow> bit b (LENGTH('a) - 1) \<noteq> bit a (LENGTH('a) - 1)" by blast
  then show ?thesis
    unfolding divXi3_def Let_def sign_mask xor_signs negate_if magnitude_def [symmetric]
    by (simp only: assms(2) [OF magnitude_nonzero [OF assms(1)]] signed_quotient)
qed

lemma modXi3_signed:
  fixes a b :: "'a::len word"
  assumes "b \<noteq> 0" and "\<And>n d. d \<noteq> 0 \<Longrightarrow> umod n d = n mod d"
  shows "modXi3 umod a b = word_of_int (sint a smod sint b)"
  unfolding modXi3_def Let_def sign_mask negate_if magnitude_def [symmetric]
  by (simp only: assms(2) [OF magnitude_nonzero [OF assms(1)]] signed_quotient)

lemma divmod_signed:
  fixes a b :: "'a::len word"
  assumes "b \<noteq> 0" and u: "\<And>n d. d \<noteq> 0 \<Longrightarrow> udivmod n d = (n div d, n mod d)"
    and "s_a = signed_drop_bit (LENGTH('a) - 1) a" and "s_b = signed_drop_bit (LENGTH('a) - 1) b"
  shows "(case udivmod ((a XOR s_a) - s_a) ((b XOR s_b) - s_b) of
      (q, r) \<Rightarrow> ((q XOR (s_b XOR s_a)) - (s_b XOR s_a), (r XOR s_a) - s_a))
    = (word_of_int (sint a sdiv sint b), word_of_int (sint a smod sint b))"
  unfolding assms(3,4) sign_mask xor_signs negate_if magnitude_def [symmetric]
    u [OF magnitude_nonzero [OF assms(1)]] prod.case signed_quotient by (rule refl)

lemma smod_word:
  fixes a b :: "'a::len word"
  shows "a - word_of_int (sint a sdiv sint b) * b = word_of_int (sint a smod sint b)"
proof -
  have "a - word_of_int (sint a sdiv sint b) * b = word_of_int (sint a) - word_of_int (sint a sdiv sint b) * word_of_int (sint b)"
    by simp
  also have "\<dots> = word_of_int (sint a - sint a sdiv sint b * sint b)" by (simp only: wi_hom_mult wi_hom_sub)
  also have "sint a - sint a sdiv sint b * sint b = sint a smod sint b"
    by (simp add: minus_sdiv_mult_eq_smod)
  finally show ?thesis .
qed

section \<open>The routines of the run-time\<close>

lemma udivmodsi4_correct:
  assumes "b \<noteq> 0"
  shows "udivmodsi4 a b = (a div b, a mod b)"
  using udivXi3_correct [OF assms, of a] 
  by (simp add: udivmodsi4_def udivsi3_def udivXi3_31_def Let_def minus_div_mult_eq_mod)

text \<open>C17: The unsigned division routines of every width (32 bits, 64 bits from 32-bit halves, 128 bits with Knuth's
  128-by-64-bit division) return the quotient and the remainder, for every divisor but zero.\<close>

theorem unsigned_division_correct:
  "(b \<noteq> 0 \<longrightarrow> udivsi3 a b = a div b \<and> umodsi3 a b = a mod b \<and> udivmodsi4 a b = (a div b, a mod b))
   \<and> (d \<noteq> 0 \<longrightarrow> udivdi3 c d = c div d \<and> umoddi3 c d = c mod d \<and> udivmoddi4 c d = (c div d, c mod d))
   \<and> (f \<noteq> 0 \<longrightarrow> udivti3 e f = e div f \<and> umodti3 e f = e mod f \<and> udivmodti4 e f = (e div f, e mod f))"
  using udivXi3_correct [of b a] udivXi3_correct [of d c]
  by (simp add: udivsi3_def umodsi3_def udivXi3_31_def umodXi3_40_def udivdi3_def umoddi3_def udivti3_def umodti3_def
      udivmodsi4_correct udivmoddi4_correct udivmodti4_correct)

theorem unsigned_division_correct_witness:
  "udivsi3 100 7 = 14 \<and> umoddi3 (2 ^ 40) 10 = 6 \<and> udivmodti4 (2 ^ 100) (2 ^ 70 + 1) = (2 ^ 30 - 1, 2 ^ 70 + 1 - 2 ^ 30)"
  using unsigned_division_correct [of 7 100 10 "2 ^ 40" "2 ^ 70 + 1" "2 ^ 100"] by simp

lemma signed_si:
  assumes "b \<noteq> 0"
  shows "divsi3 a b = word_of_int (sint a sdiv sint b)" and "modsi3 a b = word_of_int (sint a smod sint b)"
    and "divmodsi4 a b = (word_of_int (sint a sdiv sint b), word_of_int (sint a smod sint b))"
proof -
  show *: "divsi3 a b = word_of_int (sint a sdiv sint b)"
    unfolding divsi3_def divXi3_7_def by (rule divXi3_signed [OF assms(1)]) simp
  show "modsi3 a b = word_of_int (sint a smod sint b)" unfolding modsi3_def * by (rule smod_word)
  show "divmodsi4 a b = (word_of_int (sint a sdiv sint b), word_of_int (sint a smod sint b))"
    unfolding divmodsi4_def Let_def by (rule divmod_signed [OF assms(1) udivmodsi4_correct]) simp_all
qed

lemma signed_di:
  assumes "b \<noteq> 0"
  shows "divdi3 a b = word_of_int (sint a sdiv sint b)" and "moddi3 a b = word_of_int (sint a smod sint b)"
    and "divmoddi4 a b = (word_of_int (sint a sdiv sint b), word_of_int (sint a smod sint b))"
  unfolding divdi3_def moddi3_def divmoddi4_def Let_def
  by (rule divXi3_signed modXi3_signed divmod_signed [OF _ udivmoddi4_correct]; simp add: assms udivmoddi4_correct)+

lemma signed_ti:
  assumes "b \<noteq> 0"
  shows "divti3 a b = word_of_int (sint a sdiv sint b)" and "modti3 a b = word_of_int (sint a smod sint b)"
    and "divmodti4 a b = (word_of_int (sint a sdiv sint b), word_of_int (sint a smod sint b))"
  unfolding divti3_def divXi3_11_def modti3_def modXi3_20_def divmodti4_def Let_def
  by (rule divXi3_signed modXi3_signed divmod_signed [OF _ udivmodti4_correct]; simp add: assms udivmodti4_correct)+

text \<open>C18: The signed routines round the quotient toward zero and give the remainder the dividend's sign, as C asks;
  the result is taken modulo the width, which matters only for the least number divided by minus one.\<close>

theorem signed_division_correct:
  "(b \<noteq> 0 \<longrightarrow> divsi3 a b = word_of_int (sint a sdiv sint b) \<and> modsi3 a b = word_of_int (sint a smod sint b)
      \<and> divmodsi4 a b = (word_of_int (sint a sdiv sint b), word_of_int (sint a smod sint b)))
   \<and> (d \<noteq> 0 \<longrightarrow> divdi3 c d = word_of_int (sint c sdiv sint d) \<and> moddi3 c d = word_of_int (sint c smod sint d)
      \<and> divmoddi4 c d = (word_of_int (sint c sdiv sint d), word_of_int (sint c smod sint d)))
   \<and> (f \<noteq> 0 \<longrightarrow> divti3 e f = word_of_int (sint e sdiv sint f) \<and> modti3 e f = word_of_int (sint e smod sint f)
      \<and> divmodti4 e f = (word_of_int (sint e sdiv sint f), word_of_int (sint e smod sint f)))"
  by (simp add: signed_si signed_di signed_ti)

theorem signed_division_correct_witness:
  "divsi3 (- 7) 2 = - 3 \<and> moddi3 (- 7) 2 = - 1 \<and> divmodti4 (- 7) 2 = (- 3, - 1)"
  using signed_division_correct [of 2 "- 7" 2 "- 7" 2 "- 7"] by (simp add: signed_divide_int_def signed_modulo_int_def)

end
