(* ===== verification/Cc_Trap.thy ===== *)
theory Cc_Trap
  imports Cc_Ti_Division
begin

text \<open>
  The multiplications from halves and the arithmetic with an overflow check of the compiler's run-time
  (\<^verbatim>\<open>common/cc-runtime.s2.c\<close>). A routine that calls \<^verbatim>\<open>compilerrt_abort\<close> returns \<^const>\<open>None\<close> there; one with
  an \<^verbatim>\<open>overflow\<close> pointer returns the product and the flag. The code is the same at every width, so each group has
  its text once, at any width, and the routines and the copies of the templates are its instances.
\<close>

section \<open>Multiplication\<close>

text \<open>The text of \<^verbatim>\<open>__muldsi3\<close> and \<^verbatim>\<open>__mulddi3\<close>, over a word \<open>'h\<close> and the one of twice its width \<open>'w\<close>.\<close>

definition mul_halves :: "'h::len word \<Rightarrow> 'h word \<Rightarrow> 'w::len word" where
  "mul_halves a b =
     (let bits_in_word_2 = LENGTH('h) div 2;
          lower_mask = drop_bit bits_in_word_2 (NOT 0) :: 'h word;
          low = (a AND lower_mask) * (b AND lower_mask);
          t = drop_bit bits_in_word_2 low;
          low = low AND lower_mask;
          t = t + drop_bit bits_in_word_2 a * (b AND lower_mask);
          low = low + push_bit bits_in_word_2 (t AND lower_mask);
          high = drop_bit bits_in_word_2 t;
          t = drop_bit bits_in_word_2 low;
          low = low AND lower_mask;
          t = t + drop_bit bits_in_word_2 b * (a AND lower_mask);
          low = low + push_bit bits_in_word_2 (t AND lower_mask);
          high = high + drop_bit bits_in_word_2 t;
          high = high + drop_bit bits_in_word_2 a * drop_bit bits_in_word_2 b
      in join high low)"

definition muldsi3 :: "u32 \<Rightarrow> u32 \<Rightarrow> u64" where
  "muldsi3 a b = mul_halves a b"

definition muldi3 :: "u64 \<Rightarrow> u64 \<Rightarrow> u64" where
  "muldi3 a b =
     (let r = muldsi3 (lo a) (lo b)
      in join (hi r + ((hi a :: u32) * lo b + lo a * hi b)) (lo r))"

definition mulddi3 :: "u64 \<Rightarrow> u64 \<Rightarrow> u128" where
  "mulddi3 a b = mul_halves a b"

definition multi3 :: "u128 \<Rightarrow> u128 \<Rightarrow> u128" where
  "multi3 a b =
     (let r = mulddi3 (lo a) (lo b)
      in join (hi r + ((hi a :: u64) * lo b + lo a * hi b)) (lo r))"

section \<open>Multiplication with an overflow check\<close>

definition fixint_MIN :: "'a::len word" where
  "fixint_MIN = push_bit (LENGTH('a) - 1) 1"

definition fixint_MAX :: "'a::len word" where
  "fixint_MAX = NOT fixint_MIN"

text \<open>The signed division of C on machine words.\<close>

definition signed_quot :: "'a::len word \<Rightarrow> 'a word \<Rightarrow> 'a word" where
  "signed_quot a b = word_of_int (sint a sdiv sint b)"

definition muloXi4 :: "'a::len word \<Rightarrow> 'a word \<Rightarrow> 'a word \<times> bool" where
  "muloXi4 a b =
     (let result = a * b in
      if a = fixint_MIN then (result, b \<noteq> 0 \<and> b \<noteq> 1)
      else if b = fixint_MIN then (result, a \<noteq> 0 \<and> a \<noteq> 1)
      else
        let sa = signed_drop_bit (LENGTH('a) - 1) a; abs_a = (a XOR sa) - sa;
            sb = signed_drop_bit (LENGTH('a) - 1) b; abs_b = (b XOR sb) - sb
        in if sint abs_a < 2 \<or> sint abs_b < 2 then (result, False)
           else if sa = sb then (result, sint abs_a > sint (signed_quot fixint_MAX abs_b))
           else (result, sint abs_a > sint (signed_quot fixint_MIN (- abs_b))))"

definition mulodi4 :: "u64 \<Rightarrow> u64 \<Rightarrow> u64 \<times> bool" where
  "mulodi4 a b = muloXi4 a b"

definition muloXi4_22 :: "u32 \<Rightarrow> u32 \<Rightarrow> u32 \<times> bool" where
  "muloXi4_22 a b = muloXi4 a b"

definition mulosi4 :: "u32 \<Rightarrow> u32 \<Rightarrow> u32 \<times> bool" where
  "mulosi4 a b = muloXi4_22 a b"

definition muloXi4_23 :: "u128 \<Rightarrow> u128 \<Rightarrow> u128 \<times> bool" where
  "muloXi4_23 a b = muloXi4 a b"

definition muloti4 :: "u128 \<Rightarrow> u128 \<Rightarrow> u128 \<times> bool" where
  "muloti4 a b = muloXi4_23 a b"

definition mulvXi3 :: "'a::len word \<Rightarrow> 'a word \<Rightarrow> 'a word option" where
  "mulvXi3 a b =
     (if a = fixint_MIN then if b = 0 \<or> b = 1 then Some (a * b) else None
      else if b = fixint_MIN then if a = 0 \<or> a = 1 then Some (a * b) else None
      else
        let sa = signed_drop_bit (LENGTH('a) - 1) a; abs_a = (a XOR sa) - sa;
            sb = signed_drop_bit (LENGTH('a) - 1) b; abs_b = (b XOR sb) - sb
        in if sint abs_a < 2 \<or> sint abs_b < 2 then Some (a * b)
           else if sa = sb then if sint abs_a > sint (signed_quot fixint_MAX abs_b) then None else Some (a * b)
           else if sint abs_a > sint (signed_quot fixint_MIN (- abs_b)) then None else Some (a * b))"

definition mulvdi3 :: "u64 \<Rightarrow> u64 \<Rightarrow> u64 option" where
  "mulvdi3 a b = mulvXi3 a b"

definition mulvXi3_25 :: "u32 \<Rightarrow> u32 \<Rightarrow> u32 option" where
  "mulvXi3_25 a b = mulvXi3 a b"

definition mulvsi3 :: "u32 \<Rightarrow> u32 \<Rightarrow> u32 option" where
  "mulvsi3 a b = mulvXi3_25 a b"

definition mulvXi3_26 :: "u128 \<Rightarrow> u128 \<Rightarrow> u128 option" where
  "mulvXi3_26 a b = mulvXi3 a b"

definition mulvti3 :: "u128 \<Rightarrow> u128 \<Rightarrow> u128 option" where
  "mulvti3 a b = mulvXi3_26 a b"

section \<open>Sums, differences and signs with an overflow check\<close>

definition absv :: "'a::len word \<Rightarrow> 'a word option" where
  "absv a =
     (if a = push_bit (LENGTH('a) - 1) 1 then None
      else let t = signed_drop_bit (LENGTH('a) - 1) a in Some ((a XOR t) - t))"

definition absvdi2 :: "u64 \<Rightarrow> u64 option" where
  "absvdi2 a = absv a"

definition absvsi2 :: "u32 \<Rightarrow> u32 option" where
  "absvsi2 a = absv a"

definition absvti2 :: "u128 \<Rightarrow> u128 option" where
  "absvti2 a = absv a"

definition addv :: "'a::len word \<Rightarrow> 'a word \<Rightarrow> 'a word option" where
  "addv a b =
     (let s = a + b in
      if sint b \<ge> 0 then if sint s < sint a then None else Some s
      else if sint s \<ge> sint a then None else Some s)"

definition addvdi3 :: "u64 \<Rightarrow> u64 \<Rightarrow> u64 option" where
  "addvdi3 a b = addv a b"

definition addvsi3 :: "u32 \<Rightarrow> u32 \<Rightarrow> u32 option" where
  "addvsi3 a b = addv a b"

definition addvti3 :: "u128 \<Rightarrow> u128 \<Rightarrow> u128 option" where
  "addvti3 a b = addv a b"

definition subv :: "'a::len word \<Rightarrow> 'a word \<Rightarrow> 'a word option" where
  "subv a b =
     (let s = a - b in
      if sint b \<ge> 0 then if sint s > sint a then None else Some s
      else if sint s \<le> sint a then None else Some s)"

definition subvdi3 :: "u64 \<Rightarrow> u64 \<Rightarrow> u64 option" where
  "subvdi3 a b = subv a b"

definition subvsi3 :: "u32 \<Rightarrow> u32 \<Rightarrow> u32 option" where
  "subvsi3 a b = subv a b"

definition subvti3 :: "u128 \<Rightarrow> u128 \<Rightarrow> u128 option" where
  "subvti3 a b = subv a b"

definition negdi2 :: "u64 \<Rightarrow> u64" where
  "negdi2 a = - a"

definition negti2 :: "u128 \<Rightarrow> u128" where
  "negti2 a = - a"

definition negv :: "'a::len word \<Rightarrow> 'a word option" where
  "negv a = (if a = fixint_MIN then None else Some (- a))"

definition negvdi2 :: "u64 \<Rightarrow> u64 option" where
  "negvdi2 a = negv a"

definition negvsi2 :: "u32 \<Rightarrow> u32 option" where
  "negvsi2 a = negv a"

definition negvti2 :: "u128 \<Rightarrow> u128 option" where
  "negvti2 a = negv a"

section \<open>Products of halves\<close>

lemma mul_digits:
  fixes a1 a0 b1 b0 B :: nat
  assumes "t = a0 * b0 div B + a1 * b0" and "t2 = t mod B + b1 * a0"
  shows "(t div B + t2 div B + a1 * b1) * (B * B) + ((a0 * b0) mod B + (t2 mod B) * B) = (a1 * B + a0) * (b1 * B + b0)"
proof -
  have split: "a0 * b0 = a0 * b0 div B * B + (a0 * b0) mod B" "t div B * B + t mod B = a0 * b0 div B + a1 * b0"
    "t2 div B * B + t2 mod B = t mod B + b1 * a0"
    using assms by simp_all
  have *: "(q + q2 + a1 * b1) * (B * B) + (s + r2 * B) = (a1 * B + a0) * (b1 * B + b0)"
    if "a0 * b0 = p * B + s" "q * B + r = p + a1 * b0" "q2 * B + r2 = r + b1 * a0" for p s q r q2 r2 :: nat
    using that by algebra
  show ?thesis by (rule * [OF split])
qed

lemma digit_sum_bound:
  fixes x y c B :: nat
  assumes "x < B" and "y < B" and "c < B"
  shows "c + x * y < B * B"
proof -
  have "x * y \<le> (B - 1) * (B - 1)" using assms by (intro mult_le_mono) simp_all
  also have "(B - 1) * (B - 1) + B \<le> B * B" using assms(1) by (cases B) simp_all
  finally show ?thesis using assms(3) by linarith
qed

lemma mul_halves_correct:
  fixes a b :: "'h::len word"
  assumes w: "LENGTH('w) = 2 * LENGTH('h)" and e: "even LENGTH('h)"
  shows "unat (mul_halves a b :: 'w::len word) = unat a * unat b"
proof -
  define k where "k = LENGTH('h) div 2"
  define B where "B = (2 :: nat) ^ k"
  have BB: "(2 :: nat) ^ LENGTH('h) = B * B" using e unfolding B_def k_def power_add [symmetric] by (simp flip: mult_2)
  have B0: "0 < B" by (simp add: B_def)
  define m where "m = (drop_bit k (NOT 0) :: 'h word)"
  have "m = mask k" unfolding m_def
    by (rule bit_word_eqI) (use e in \<open>auto simp: bit_simps k_def\<close>)
  then have lowbits: "unat (x AND m) = unat x mod B" for x :: "'h word" by (simp only: unat_and_mask B_def)
  have highbits: "unat (drop_bit k x) = unat x div B" for x :: "'h word" by (simp only: unat_drop_bit B_def)
  have digit: "unat x div B < B" for x :: "'h word"
    using unsigned_less [of x, where 'a = nat] unfolding BB by (rule less_mult_imp_div_less)
  have md: "n mod B < B" for n by (simp add: B0)
  have up: "unat (push_bit k (x AND m)) = unat x mod B * B" for x :: "'h word"
  proof -
    have "unat x mod B * B < B * B" using md [of "unat x"] B0 by simp
    then show ?thesis
      by (simp only: unsigned_push_bit_eq take_bit_eq_mod push_bit_eq_mult [where 'a = nat] lowbits BB B_def [symmetric] mod_less)
  qed
  have pr: "unat (x * y) = unat x * unat y" if "unat x < B" "unat y < B" for x y :: "'h word"
    using that digit_sum_bound [of "unat x" B "unat y" 0] B0 by (intro unat_mult_nowrap) (simp add: BB)
  define a1 a0 b1 b0 where "a1 = unat a div B" and "a0 = unat a mod B" and "b1 = unat b div B" and "b0 = unat b mod B"
  note digits = a1_def [symmetric] a0_def [symmetric] b1_def [symmetric] b0_def [symmetric]
  have d: "a1 < B" "a0 < B" "b1 < B" "b0 < B" by (simp_all add: a1_def a0_def b1_def b0_def digit md)
  define T where "T = a0 * b0 div B + a1 * b0"
  define T2 where "T2 = T mod B + b1 * a0"
  define H where "H = T div B + T2 div B + a1 * b1"
  have "a0 * b0 < B * B" using digit_sum_bound [OF d(2,4) B0] by simp
  then have c: "a0 * b0 div B < B" by (rule less_mult_imp_div_less)
  have T: "T < B * B" unfolding T_def using d c by (intro digit_sum_bound)
  have T2: "T2 < B * B" unfolding T2_def using d md by (intro digit_sum_bound)
  have total: "H * (B * B) + ((a0 * b0) mod B + T2 mod B * B) = unat a * unat b"
    using mul_digits [OF T_def T2_def] unfolding H_def by (simp add: a1_def a0_def b1_def b0_def)
  have "unat a * unat b < (B * B) * (B * B)"
    using unsigned_less [of a, where 'a = nat] unsigned_less [of b, where 'a = nat] unfolding BB
    by (intro mult_strict_mono) (simp_all add: B0)
  then have "H * (B * B) < (B * B) * (B * B)" using total by linarith
  then have H: "H < B * B" by simp
  have two: "x mod B + y mod B * B < B * B" for x y
    using md [of x] md [of y] digit_sum_bound [of "y mod B" B "B - 1" "x mod B"] B0
    by (metis Suc_leI Suc_pred add.commute add_less_mono1 less_le_trans mult.commute mult_le_mono1 mult_Suc)
  note pr = pr [of "a AND m" "b AND m", unfolded lowbits digits, OF d(2,4)]
    pr [of "drop_bit k a" "b AND m", unfolded lowbits highbits digits, OF d(1,4)]
    pr [of "drop_bit k b" "a AND m", unfolded lowbits highbits digits, OF d(3,2)]
    pr [of "drop_bit k a" "drop_bit k b", unfolded highbits digits, OF d(1,3)]
  define t1 where "t1 = drop_bit k ((a AND m) * (b AND m)) + drop_bit k a * (b AND m)"
  have t1: "unat t1 = T" unfolding t1_def
    by (subst unat_add_nowrap) (simp_all only: highbits pr BB T_def [symmetric] T)
  define l2 where "l2 = ((a AND m) * (b AND m) AND m) + push_bit k (t1 AND m)"
  have l2: "unat l2 = a0 * b0 mod B + T mod B * B" unfolding l2_def
    by (subst unat_add_nowrap) (simp_all only: lowbits up pr BB t1 two)
  have l2d: "unat l2 div B = T mod B" "unat l2 mod B = a0 * b0 mod B" unfolding l2 using B0 md by simp_all
  define t2 where "t2 = drop_bit k l2 + drop_bit k b * (a AND m)"
  have t2: "unat t2 = T2" unfolding t2_def
    by (subst unat_add_nowrap) (simp_all only: highbits pr BB l2d T2_def [symmetric] T2)
  define l3 where "l3 = (l2 AND m) + push_bit k (t2 AND m)"
  have l3: "unat l3 = a0 * b0 mod B + T2 mod B * B" unfolding l3_def
    by (subst unat_add_nowrap) (simp_all only: lowbits up BB t2 l2d two)
  define h where "h = drop_bit k t1 + drop_bit k t2 + drop_bit k a * drop_bit k b"
  have "unat (drop_bit k t1 + drop_bit k t2) = T div B + T2 div B"
    using H unfolding H_def by (subst unat_add_nowrap) (simp_all only: highbits t1 t2 BB)
  then have h: "unat h = H" using H unfolding h_def H_def
    by (subst unat_add_nowrap) (simp_all only: pr BB)
  have "mul_halves a b = (join h l3 :: 'w word)"
    unfolding mul_halves_def Let_def k_def [symmetric] m_def [symmetric] t1_def [symmetric] l2_def [symmetric]
      t2_def [symmetric] l3_def [symmetric] h_def [symmetric] by (rule refl)
  then show ?thesis
    using unat_halves [OF w, of "join h l3"] total by (simp add: halves_join [OF w] h l3 BB)
qed

text \<open>Above the half's width only the product's low half matters.\<close>

lemma top_mod:
  assumes "LENGTH('w) = 2 * LENGTH('h)"
  shows "of_nat (n mod 2 ^ LENGTH('h::len)) * 2 ^ LENGTH('h) = (of_nat n * 2 ^ LENGTH('h) :: 'w::len word)"
proof -
  have z: "(2 ^ LENGTH('h) * 2 ^ LENGTH('h) :: 'w word) = 0"
    by (simp add: assms flip: power_add mult_2)
  have "(of_nat n :: 'w word) = of_nat (n div 2 ^ LENGTH('h) * 2 ^ LENGTH('h) + n mod 2 ^ LENGTH('h))"
    by (simp only: div_mult_mod_eq)
  also have "\<dots> = of_nat (n div 2 ^ LENGTH('h)) * 2 ^ LENGTH('h) + of_nat (n mod 2 ^ LENGTH('h))"
    by (simp only: of_nat_add of_nat_mult of_nat_power of_nat_numeral)
  finally show ?thesis by (simp only: distrib_right mult.assoc z mult_zero_right add_0_left)
qed

lemma join_value:
  fixes h l :: "'h::len word"
  assumes "LENGTH('w) = 2 * LENGTH('h)"
  shows "(join h l :: 'w::len word) = of_nat (unat h) * 2 ^ LENGTH('h) + of_nat (unat l)"
proof -
  have "unat (join h l :: 'w word) = unat h * 2 ^ LENGTH('h) + unat l"
    using unat_halves [OF assms, of "join h l"] by (simp only: halves_join [OF assms])
  from arg_cong [OF this, of "of_nat :: nat \<Rightarrow> 'w word"] show ?thesis by simp
qed

lemma mul_from_halves:
  fixes a b :: "'w::len word"
  assumes w: "LENGTH('w) = 2 * LENGTH('h::len)" and e: "even LENGTH('h)"
  defines "r \<equiv> mul_halves (lo a :: 'h word) (lo b) :: 'w word"
  shows "join (hi r + ((hi a :: 'h word) * lo b + lo a * hi b)) (lo r) = a * b"
proof -
  let ?H = "2 ^ LENGTH('h) :: 'w word"
  define n where "n = (\<lambda>x. of_nat (unat (x :: 'h word)) :: 'w word)"
  have top: "n (x + y) * ?H = (n x + n y) * ?H" "n (x * y) * ?H = n x * n y * ?H" for x y
    unfolding n_def unat_word_ariths(1,2) top_mod [OF w] by simp_all
  have split: "x = n (hi x) * ?H + n (lo x)" for x :: "'w word"
    using join_value [OF w, of "hi x" "lo x"] by (simp add: n_def join_halves [OF w])
  have r: "r = n (lo a) * n (lo b)"
    using arg_cong [OF mul_halves_correct [OF w e, of "lo a" "lo b"], of "of_nat :: nat \<Rightarrow> 'w word"]
    by (simp add: r_def n_def)
  have z: "?H * ?H = 0" by (simp add: w flip: power_add mult_2)
  have "join (hi r + ((hi a :: 'h word) * lo b + lo a * hi b)) (lo r)
      = n (hi r + ((hi a :: 'h word) * lo b + lo a * hi b)) * ?H + n (lo r)"
    by (simp only: join_value [OF w] n_def)
  also have "\<dots> = (n (hi r) + (n (hi a) * n (lo b) + n (lo a) * n (hi b))) * ?H + n (lo r)"
    by (simp only: top distrib_right)
  also have "\<dots> = (n (hi a) * n (lo b) + n (lo a) * n (hi b)) * ?H + n (lo a) * n (lo b)"
    using split [of r] r by (simp add: algebra_simps)
  also have "\<dots> = (n (hi a) * ?H + n (lo a)) * (n (hi b) * ?H + n (lo b))"
    by (simp add: distrib_left distrib_right mult.assoc mult.left_commute [of _ ?H] z) (simp add: ac_simps, simp only: z mult_zero_right)
  finally show ?thesis using split [of a] split [of b] by simp
qed

lemma muldi3_correct: "muldi3 a b = a * b"
  unfolding muldi3_def muldsi3_def Let_def by (rule mul_from_halves) simp_all

lemma multi3_correct: "multi3 a b = a * b"
  unfolding multi3_def mulddi3_def Let_def by (rule mul_from_halves) simp_all

section \<open>Overflow\<close>

text \<open>The numbers a signed word holds.\<close>

definition fits :: "'a::len itself \<Rightarrow> int \<Rightarrow> bool" where
  "fits _ k \<longleftrightarrow> - (2 ^ (LENGTH('a) - 1)) \<le> k \<and> k < 2 ^ (LENGTH('a) - 1)"

lemma sint_fits: "fits TYPE('a) (sint a)" for a :: "'a::len word"
  unfolding fits_def using sint_range_size [of a] by (simp add: word_size)

lemma sint_of_int_fits: "fits TYPE('a) k \<Longrightarrow> sint (word_of_int k :: 'a::len word) = k"
  unfolding fits_def by (simp add: sint_sbintrunc' signed_take_bit_int_eq_self)

lemma two_halves: "(2 :: int) ^ LENGTH('a::len) = 2 * 2 ^ (LENGTH('a) - 1)"
  by (simp add: power_Suc [symmetric] del: power_Suc)

lemma sint_of_int_high:
  "2 ^ (LENGTH('a) - 1) \<le> k \<Longrightarrow> sint (word_of_int k :: 'a::len word) \<le> k - 2 * 2 ^ (LENGTH('a) - 1)"
  using signed_take_bit_int_less_eq [of "LENGTH('a) - 1" k] unfolding two_halves [symmetric] by (simp add: sint_sbintrunc')

lemma sint_of_int_low:
  "k < - (2 ^ (LENGTH('a) - 1)) \<Longrightarrow> k + 2 * 2 ^ (LENGTH('a) - 1) \<le> sint (word_of_int k :: 'a::len word)"
  using signed_take_bit_int_greater_eq [of k "LENGTH('a) - 1"] unfolding two_halves [symmetric] by (simp add: sint_sbintrunc')

lemma fits_cases:
  obtains "fits TYPE('a::len) k" | "\<not> fits TYPE('a) k" "2 ^ (LENGTH('a) - 1) \<le> k"
  | "\<not> fits TYPE('a) k" "k < - (2 ^ (LENGTH('a) - 1))"
  unfolding fits_def by linarith

lemma word_sint_ops:
  "a + b = word_of_int (sint a + sint b)" "a - b = word_of_int (sint a - sint b)" "a * b = word_of_int (sint a * sint b)"
  "- a = word_of_int (- sint a)" for a b :: "'a::len word"
  by (simp_all flip: wi_hom_add wi_hom_sub wi_hom_mult wi_hom_neg)

lemma addv_correct:
  fixes a b :: "'a::len word"
  shows "addv a b = (if fits TYPE('a) (sint a + sint b) then Some (a + b) else None)"
proof -
  note w = word_sint_ops(1) [of a b] and a = sint_fits [of a, unfolded fits_def] and b = sint_fits [of b, unfolded fits_def]
  show ?thesis
  proof (cases "sint a + sint b" rule: fits_cases [where 'a = 'a])
    case 1
    then have "sint (a + b) = sint a + sint b" unfolding w by (rule sint_of_int_fits)
    then show ?thesis using 1 by (simp add: addv_def Let_def)
  next
    case 2
    then have "sint (a + b) \<le> sint a + sint b - 2 * 2 ^ (LENGTH('a) - 1)" unfolding w by (intro sint_of_int_high)
    then have "sint (a + b) < sint a" "sint b \<ge> 0" using 2 a b by linarith+
    then show ?thesis using 2 by (simp add: addv_def Let_def)
  next
    case 3
    then have "sint a + sint b + 2 * 2 ^ (LENGTH('a) - 1) \<le> sint (a + b)" unfolding w by (intro sint_of_int_low)
    then have "sint (a + b) \<ge> sint a" "\<not> sint b \<ge> 0" using 3 a b by linarith+
    then show ?thesis using 3 by (simp add: addv_def Let_def)
  qed
qed

lemma subv_correct:
  fixes a b :: "'a::len word"
  shows "subv a b = (if fits TYPE('a) (sint a - sint b) then Some (a - b) else None)"
proof -
  note w = word_sint_ops(2) [of a b] and a = sint_fits [of a, unfolded fits_def] and b = sint_fits [of b, unfolded fits_def]
  show ?thesis
  proof (cases "sint a - sint b" rule: fits_cases [where 'a = 'a])
    case 1
    then have "sint (a - b) = sint a - sint b" unfolding w by (rule sint_of_int_fits)
    then show ?thesis using 1 by (simp add: subv_def Let_def)
  next
    case 2
    then have "sint (a - b) \<le> sint a - sint b - 2 * 2 ^ (LENGTH('a) - 1)" unfolding w by (intro sint_of_int_high)
    then have "sint (a - b) \<le> sint a" "\<not> sint b \<ge> 0" using 2 a b by linarith+
    then show ?thesis using 2 by (simp add: subv_def Let_def)
  next
    case 3
    then have "sint a - sint b + 2 * 2 ^ (LENGTH('a) - 1) \<le> sint (a - b)" unfolding w by (intro sint_of_int_low)
    then have "sint (a - b) > sint a" "sint b \<ge> 0" using 3 a b by linarith+
    then show ?thesis using 3 by (simp add: subv_def Let_def)
  qed
qed

lemma fixint_MIN_of_int: "fixint_MIN = (word_of_int (- (2 ^ (LENGTH('a) - 1))) :: 'a::len word)"
proof -
  have "(word_of_int (- (2 ^ (LENGTH('a) - 1))) :: 'a word) = word_of_int (2 ^ LENGTH('a) - 2 ^ (LENGTH('a) - 1))"
    by (simp flip: wi_hom_sub add: wi_hom_neg)
  also have "(2 :: int) ^ LENGTH('a) - 2 ^ (LENGTH('a) - 1) = 2 ^ (LENGTH('a) - 1)" by (simp add: two_halves)
  finally show ?thesis by (simp add: fixint_MIN_def push_bit_eq_mult)
qed

lemma sint_fixint_MIN: "sint (fixint_MIN :: 'a::len word) = - (2 ^ (LENGTH('a) - 1))"
  unfolding fixint_MIN_of_int by (rule sint_of_int_fits) (simp add: fits_def)

lemma sint_fixint_MAX: "sint (fixint_MAX :: 'a::len word) = 2 ^ (LENGTH('a) - 1) - 1"
proof -
  have m: "(fixint_MAX :: 'a word) = word_of_int (2 ^ (LENGTH('a) - 1) - 1)"
    unfolding fixint_MAX_def fixint_MIN_of_int not_eq_complement by (simp add: wi_hom_neg flip: wi_hom_sub)
  have "fits TYPE('a) (2 ^ (LENGTH('a) - 1) - 1)" unfolding fits_def by (simp add: add.commute)
  then show ?thesis unfolding m by (rule sint_of_int_fits)
qed

lemma is_fixint_MIN: "a = fixint_MIN \<longleftrightarrow> sint a = - (2 ^ (LENGTH('a) - 1))" for a :: "'a::len word"
proof
  assume "sint a = - (2 ^ (LENGTH('a) - 1))"
  from arg_cong [OF this, of "word_of_int :: int \<Rightarrow> 'a word"] show "a = fixint_MIN" by (simp add: fixint_MIN_of_int)
qed (simp add: sint_fixint_MIN)

lemma negv_correct: "negv a = (if fits TYPE('a) (- sint a) then Some (- a) else None)" for a :: "'a::len word"
  using sint_fits [of a] unfolding negv_def is_fixint_MIN fits_def by auto

lemma sint_magnitude: "a \<noteq> fixint_MIN \<Longrightarrow> sint (magnitude a) = \<bar>sint a\<bar>" for a :: "'a::len word"
proof -
  assume "a \<noteq> fixint_MIN"
  then have "fits TYPE('a) \<bar>sint a\<bar>" using sint_fits [of a] unfolding is_fixint_MIN fits_def by auto
  then have "sint (word_of_int \<bar>sint a\<bar> :: 'a word) = \<bar>sint a\<bar>" by (rule sint_of_int_fits)
  then show ?thesis by (simp flip: uint_magnitude)
qed

lemma absv_correct: "absv a = (if fits TYPE('a) \<bar>sint a\<bar> then Some (word_of_int \<bar>sint a\<bar>) else None)" for a :: "'a::len word"
proof -
  have "fits TYPE('a) \<bar>sint a\<bar> \<longleftrightarrow> a \<noteq> fixint_MIN"
    using sint_fits [of a] unfolding is_fixint_MIN fits_def by auto
  moreover have "word_of_int \<bar>sint a\<bar> = magnitude a" by (simp flip: uint_magnitude)
  ultimately show ?thesis
    unfolding absv_def fixint_MIN_def [symmetric] Let_def sign_mask negate_if magnitude_def [symmetric] by simp
qed

lemma int_div_less: "x div k < n \<longleftrightarrow> x < n * k" if "0 < k" for x k n :: int
proof
  assume "x div k < n"
  then have "(x div k + 1) * k \<le> n * k" using that by (intro mult_right_mono) simp_all
  moreover have "x < (x div k + 1) * k" 
    using div_mult_mod_eq [of x k] pos_mod_bound [OF that, of x] unfolding distrib_right by linarith
  ultimately show "x < n * k" by linarith
next
  assume *: "x < n * k"
  show "x div k < n"
  proof (rule ccontr)
    assume "\<not> x div k < n"
    then have "n * k \<le> x div k * k" using that by (intro mult_right_mono) simp_all
    then show False using * that div_mult_mod_eq [of x k] pos_mod_sign [of k x] by linarith
  qed
qed

lemma sint_quotients:
  fixes b :: "'a::len word"
  assumes "2 \<le> sint b"
  shows "sint (signed_quot fixint_MAX b) = (2 ^ (LENGTH('a) - 1) - 1) div sint b"
    and "sint (signed_quot fixint_MIN (- b)) = 2 ^ (LENGTH('a) - 1) div sint b"
proof -
  let ?M = "2 ^ (LENGTH('a) - 1) :: int"
  have M: "0 < ?M" by simp
  have b: "0 < sint b" "sint b < ?M" using assms sint_fits [of b] unfolding fits_def by simp_all
  have q: "0 \<le> x div sint b" "x div sint b < ?M" if "0 \<le> x" "x \<le> ?M" for x
  proof -
    show "0 \<le> x div sint b" using that b by (simp add: pos_imp_zdiv_nonneg_iff)
    have "?M < ?M * 2" using M by linarith
    also have "\<dots> \<le> ?M * sint b" using assms M by (intro mult_left_mono) simp_all
    finally have "x < ?M * sint b" using that by linarith
    then show "x div sint b < ?M" using b by (simp only: int_div_less)
  qed
  have "sint (fixint_MAX :: 'a word) sdiv sint b = (?M - 1) div sint b"
    using b unfolding sint_fixint_MAX signed_divide_int_def by (cases "?M = 1") (simp_all add: sgn_if)
  moreover have "fits TYPE('a) ((?M - 1) div sint b)" using q [of "?M - 1"] M unfolding fits_def by linarith
  ultimately show "sint (signed_quot fixint_MAX b) = (?M - 1) div sint b"
    by (simp only: signed_quot_def sint_of_int_fits)
  have "fits TYPE('a) (- sint b)" using b unfolding fits_def by linarith
  then have "sint (- b) = - sint b" unfolding word_sint_ops(4) by (rule sint_of_int_fits)
  then have "sint (fixint_MIN :: 'a word) sdiv sint (- b) = ?M div sint b"
    using b unfolding sint_fixint_MIN signed_divide_int_def by (simp add: sgn_if)
  moreover have "fits TYPE('a) (?M div sint b)" using q [of ?M] M unfolding fits_def by linarith
  ultimately show "sint (signed_quot fixint_MIN (- b)) = ?M div sint b"
    by (simp only: signed_quot_def sint_of_int_fits)
qed

lemma fits_MIN_times:
  assumes "1 < LENGTH('a::len)"
  shows "fits TYPE('a) (- (2 ^ (LENGTH('a) - 1)) * k) \<longleftrightarrow> k = 0 \<or> k = 1"
proof -
  let ?M = "2 ^ (LENGTH('a) - 1) :: int"
  have M: "0 < ?M" by simp
  consider "k \<le> - 1" | "k = 0" | "k = 1" | "k \<ge> 2" by linarith
  then show ?thesis
  proof cases
    case 1
    then have "?M * 1 \<le> ?M * (- k)" using M by (intro mult_left_mono) simp_all
    then show ?thesis using 1 unfolding fits_def by simp
  next
    case 4
    then have "?M * 2 \<le> ?M * k" using M by (intro mult_left_mono) simp_all
    then have "?M < ?M * k" using M by linarith
    then show ?thesis using 4 unfolding fits_def by simp
  qed (simp_all add: fits_def)
qed

lemma small_constants:
  fixes b :: "'a::len word"
  assumes "1 < LENGTH('a)"
  shows "b = 0 \<longleftrightarrow> sint b = 0" "b = 1 \<longleftrightarrow> sint b = 1"
proof -
  have b: "b = word_of_int (sint b)" by simp
  show "b = 0 \<longleftrightarrow> sint b = 0" by (metis b sint_0 of_int_0)
  have "(1 :: int) < 2 ^ (LENGTH('a) - 1)" using assms by (intro one_less_power) simp_all
  then have "fits TYPE('a) 1" unfolding fits_def by linarith
  from sint_of_int_fits [OF this] show "b = 1 \<longleftrightarrow> sint b = 1" by (metis b of_int_1)
qed

lemma fits_product:
  fixes x y :: int
  assumes "2 \<le> \<bar>x\<bar>" and "2 \<le> \<bar>y\<bar>"
  shows "fits TYPE('a::len) (x * y) \<longleftrightarrow>
    (if (x < 0) = (y < 0) then \<bar>x\<bar> \<le> (2 ^ (LENGTH('a) - 1) - 1) div \<bar>y\<bar> else \<bar>x\<bar> \<le> 2 ^ (LENGTH('a) - 1) div \<bar>y\<bar>)"
proof -
  let ?M = "2 ^ (LENGTH('a) - 1) :: int"
  have M: "0 < ?M" by simp
  have y: "0 < \<bar>y\<bar>" using assms by simp
  have a: "\<bar>x\<bar> * \<bar>y\<bar> = (if (x < 0) = (y < 0) then x * y else - (x * y))" by (auto simp: abs_if)
  have pos: "0 < \<bar>x\<bar> * \<bar>y\<bar>" using assms by simp
  have "fits TYPE('a) (x * y) \<longleftrightarrow> (if (x < 0) = (y < 0) then \<not> ?M - 1 < \<bar>x\<bar> * \<bar>y\<bar> else \<not> ?M < \<bar>x\<bar> * \<bar>y\<bar>)"
    using M pos a unfolding fits_def by (cases "(x < 0) = (y < 0)") auto
  then show ?thesis unfolding int_div_less [OF y, symmetric] not_less .
qed

lemma muloXi4_correct:
  fixes a b :: "'a::len word"
  assumes l: "1 < LENGTH('a)"
  shows "muloXi4 a b = (a * b, \<not> fits TYPE('a) (sint a * sint b))"
proof -
  consider "a = fixint_MIN" | "a \<noteq> fixint_MIN" "b = fixint_MIN" | "a \<noteq> fixint_MIN" "b \<noteq> fixint_MIN" by blast
  then show ?thesis
  proof cases
    case 1
    then show ?thesis using fits_MIN_times [OF l, of "sint b"]
      by (simp add: muloXi4_def Let_def small_constants [OF l, of b] sint_fixint_MIN)
  next
    case 2
    then show ?thesis using fits_MIN_times [OF l, of "sint a"]
      by (simp add: muloXi4_def Let_def small_constants [OF l, of a] sint_fixint_MIN mult.commute [of "sint a"])
  next
    case 3
    note m = sint_magnitude [OF 3(1)] sint_magnitude [OF 3(2)]
    have run: "muloXi4 a b =
        (if \<bar>sint a\<bar> < 2 \<or> \<bar>sint b\<bar> < 2 then (a * b, False)
         else if (sint a < 0) = (sint b < 0) then (a * b, \<bar>sint a\<bar> > sint (signed_quot fixint_MAX (magnitude b)))
         else (a * b, \<bar>sint a\<bar> > sint (signed_quot fixint_MIN (- magnitude b))))"
      unfolding muloXi4_def Let_def sign_mask negate_if unfolding magnitude_def [symmetric] m unfolding sint_neg using 3
      by simp
    show ?thesis
    proof (cases "\<bar>sint a\<bar> < 2 \<or> \<bar>sint b\<bar> < 2")
      case True
      then have "sint a \<in> {- 1, 0, 1} \<or> sint b \<in> {- 1, 0, 1}" by auto
      moreover have "fits TYPE('a) (sint a)" "fits TYPE('a) (- sint a)" "fits TYPE('a) (sint b)" "fits TYPE('a) (- sint b)"
        using 3 sint_fits [of a] sint_fits [of b] unfolding is_fixint_MIN fits_def by auto
      moreover have "fits TYPE('a) 0" by (simp add: fits_def)
      ultimately show ?thesis using True unfolding run by auto
    next
      case False
      then have q: "2 \<le> sint (magnitude b)" unfolding m by simp
      from False fits_product [of "sint a" "sint b", where 'a = 'a] show ?thesis
        unfolding run sint_quotients [OF q] m by (auto simp: not_le)
    qed
  qed
qed

lemma mulvXi3_muloXi4: "mulvXi3 a b = (if snd (muloXi4 a b) then None else Some (a * b))"
  by (simp add: mulvXi3_def muloXi4_def Let_def)

section \<open>Properties\<close>

text \<open>C19: The products put together from products of halves are the products of the whole numbers: the double-width
  product of \<^verbatim>\<open>__muldsi3\<close> and \<^verbatim>\<open>__mulddi3\<close>, and the wrapping product of \<^verbatim>\<open>__muldi3\<close> and \<^verbatim>\<open>__multi3\<close>.\<close>

theorem wide_products_correct:
  "unat (muldsi3 a b) = unat a * unat b \<and> muldi3 c d = c * d \<and> unat (mulddi3 c d) = unat c * unat d \<and> multi3 e f = e * f"
  by (simp add: muldsi3_def mulddi3_def mul_halves_correct muldi3_correct multi3_correct)

text \<open>C20: An operation with an overflow check aborts, or sets the overflow flag, exactly when the signed result does
  not fit the width, and otherwise returns the result: sums, differences, products, negation and absolute value, at 32, 64 and 128
  bits.\<close>

theorem overflow_checks_correct:
  "addvsi3 a b = (if fits TYPE(32) (sint a + sint b) then Some (a + b) else None)
   \<and> addvdi3 c d = (if fits TYPE(64) (sint c + sint d) then Some (c + d) else None)
   \<and> addvti3 e f = (if fits TYPE(128) (sint e + sint f) then Some (e + f) else None)
   \<and> subvsi3 a b = (if fits TYPE(32) (sint a - sint b) then Some (a - b) else None)
   \<and> subvdi3 c d = (if fits TYPE(64) (sint c - sint d) then Some (c - d) else None)
   \<and> subvti3 e f = (if fits TYPE(128) (sint e - sint f) then Some (e - f) else None)
   \<and> mulvsi3 a b = (if fits TYPE(32) (sint a * sint b) then Some (a * b) else None)
   \<and> mulvdi3 c d = (if fits TYPE(64) (sint c * sint d) then Some (c * d) else None)
   \<and> mulvti3 e f = (if fits TYPE(128) (sint e * sint f) then Some (e * f) else None)
   \<and> mulosi4 a b = (a * b, \<not> fits TYPE(32) (sint a * sint b))
   \<and> mulodi4 c d = (c * d, \<not> fits TYPE(64) (sint c * sint d))
   \<and> muloti4 e f = (e * f, \<not> fits TYPE(128) (sint e * sint f))
   \<and> negvsi2 a = (if fits TYPE(32) (- sint a) then Some (- a) else None)
   \<and> negvdi2 c = (if fits TYPE(64) (- sint c) then Some (negdi2 c) else None)
   \<and> negvti2 e = (if fits TYPE(128) (- sint e) then Some (negti2 e) else None)
   \<and> absvsi2 a = (if fits TYPE(32) \<bar>sint a\<bar> then Some (word_of_int \<bar>sint a\<bar>) else None)
   \<and> absvdi2 c = (if fits TYPE(64) \<bar>sint c\<bar> then Some (word_of_int \<bar>sint c\<bar>) else None)
   \<and> absvti2 e = (if fits TYPE(128) \<bar>sint e\<bar> then Some (word_of_int \<bar>sint e\<bar>) else None)"
  unfolding addvsi3_def addvdi3_def addvti3_def subvsi3_def subvdi3_def subvti3_def mulvsi3_def mulvdi3_def mulvti3_def
    mulosi4_def mulodi4_def muloti4_def negvsi2_def negvdi2_def negvti2_def absvsi2_def absvdi2_def absvti2_def
    muloXi4_22_def muloXi4_23_def mulvXi3_25_def mulvXi3_26_def negdi2_def negti2_def addv_correct subv_correct negv_correct absv_correct mulvXi3_muloXi4
  by (simp add: muloXi4_correct)

end
