(* ===== verification/Blake2b.thy ===== *)
theory Blake2b
  imports Libc
begin

text \<open>
  The hash that guards files (\<^verbatim>\<open>common/crypt/blake2b.c\<close>): the state with its arrays as lists, one definition per
  function, and the hash of RFC 7693 it computes. Memory read or written through a pointer is a list of bytes; a
  \<^verbatim>\<open>memcpy\<close> into an array replaces a slice of its list.
\<close>

section \<open>Constants and state\<close>

definition BLAKE2B_BLOCK_BYTES :: nat where
  "BLAKE2B_BLOCK_BYTES = 128"

definition BLAKE2B_OUT_BYTES :: nat where
  "BLAKE2B_OUT_BYTES = 64"

definition blake2b_iv :: "u64 list" where
  "blake2b_iv =
     [0x6a09e667f3bcc908, 0xbb67ae8584caa73b, 0x3c6ef372fe94f82b, 0xa54ff53a5f1d36f1,
      0x510e527fade682d1, 0x9b05688c2b3e6c1f, 0x1f83d9abfb41bd6b, 0x5be0cd19137e2179]"

definition blake2b_sigma :: "nat list list" where
  "blake2b_sigma =
     [[ 0,  1,  2,  3,  4,  5,  6,  7,  8,  9, 10, 11, 12, 13, 14, 15],
      [14, 10,  4,  8,  9, 15, 13,  6,  1, 12,  0,  2, 11,  7,  5,  3],
      [11,  8, 12,  0,  5,  2, 15, 13, 10, 14,  3,  6,  7,  1,  9,  4],
      [ 7,  9,  3,  1, 13, 12, 11, 14,  2,  6,  5, 10,  4,  0, 15,  8],
      [ 9,  0,  5,  7,  2,  4, 10, 15, 14,  1, 11, 12,  6,  8,  3, 13],
      [ 2, 12,  6, 10,  0, 11,  8,  3,  4, 13,  7,  5, 15, 14,  1,  9],
      [12,  5,  1, 15, 14, 13,  4, 10,  0,  7,  6,  3,  9,  2,  8, 11],
      [13, 11,  7, 14, 12,  1,  3,  9,  5,  0, 15,  4,  8,  6,  2, 10],
      [ 6, 15, 14,  9, 11,  3,  0,  8, 12,  2, 13,  7,  1,  4, 10,  5],
      [10,  2,  8,  4,  7,  6,  1,  5, 15, 11,  9, 14,  3, 12, 13,  0],
      [ 0,  1,  2,  3,  4,  5,  6,  7,  8,  9, 10, 11, 12, 13, 14, 15],
      [14, 10,  4,  8,  9, 15, 13,  6,  1, 12,  0,  2, 11,  7,  5,  3]]"

record blake2b_state =
  st_h :: "u64 list"
  st_t :: "u64 list"
  st_f :: "u64 list"
  st_buf :: "u8 list"
  st_buf_len :: nat
  st_last_node :: u8

record blake2b_param =
  pr_digest_length :: u8
  pr_key_length :: u8
  pr_fan_out :: u8
  pr_depth :: u8
  pr_leaf_length :: u32
  pr_node_offset :: u32
  pr_xof_length :: u32
  pr_node_depth :: u8
  pr_inner_length :: u8
  pr_reserved :: "u8 list"
  pr_salt :: "u8 list"
  pr_personal :: "u8 list"

section \<open>Bytes and words\<close>

definition load64_le :: "u8 list \<Rightarrow> u64" where
  "load64_le src = foldr (\<lambda>b v. push_bit 8 v OR ucast b) (take 8 src) 0"

definition store64_le :: "u64 \<Rightarrow> u8 list" where
  "store64_le val = map (\<lambda>i. ucast (drop_bit (8 * i) val)) [0..<8]"

text \<open>The bytes of the packed structure, on a little-endian machine.\<close>

definition word_bytes :: "u32 \<Rightarrow> u8 list" where
  "word_bytes w = map (\<lambda>i. ucast (drop_bit (8 * i) w)) [0..<4]"

definition param_bytes :: "blake2b_param \<Rightarrow> u8 list" where
  "param_bytes p =
     [pr_digest_length p, pr_key_length p, pr_fan_out p, pr_depth p] @ word_bytes (pr_leaf_length p)
     @ word_bytes (pr_node_offset p) @ word_bytes (pr_xof_length p) @ [pr_node_depth p, pr_inner_length p]
     @ pr_reserved p @ pr_salt p @ pr_personal p"

text \<open>\<^verbatim>\<open>memcpy(buf + off, src, n)\<close> with \<open>src\<close> the \<open>n\<close> bytes copied.\<close>

definition copy_at :: "u8 list \<Rightarrow> nat \<Rightarrow> u8 list \<Rightarrow> u8 list" where
  "copy_at buf off src = take off buf @ src @ drop (off + length src) buf"

definition rotr64 :: "u64 \<Rightarrow> nat \<Rightarrow> u64" where
  "rotr64 w c = drop_bit c w OR push_bit (64 - c) w"

section \<open>Compression\<close>

definition blake2b_increment_counter :: "blake2b_state \<Rightarrow> u64 \<Rightarrow> blake2b_state" where
  "blake2b_increment_counter st inc =
     (let t0 = st_t st ! 0 + inc
      in st\<lparr>st_t := [t0, st_t st ! 1 + (if t0 < inc then 1 else 0)]\<rparr>)"

definition G :: "u64 list \<Rightarrow> nat \<Rightarrow> nat \<Rightarrow> nat \<Rightarrow> nat \<Rightarrow> nat \<Rightarrow> nat \<Rightarrow> u64 list \<Rightarrow> u64 list" where
  "G m r i a b c d v =
     (let v = v[a := v ! a + v ! b + m ! (blake2b_sigma ! r ! (2 * i + 0))];
          v = v[d := rotr64 (v ! d XOR v ! a) 32];
          v = v[c := v ! c + v ! d];
          v = v[b := rotr64 (v ! b XOR v ! c) 24];
          v = v[a := v ! a + v ! b + m ! (blake2b_sigma ! r ! (2 * i + 1))];
          v = v[d := rotr64 (v ! d XOR v ! a) 16];
          v = v[c := v ! c + v ! d]
      in v[b := rotr64 (v ! b XOR v ! c) 63])"

definition ROUND :: "u64 list \<Rightarrow> nat \<Rightarrow> u64 list \<Rightarrow> u64 list" where
  "ROUND m r v =
     (let v = G m r 0 0 4 8 12 v;
          v = G m r 1 1 5 9 13 v;
          v = G m r 2 2 6 10 14 v;
          v = G m r 3 3 7 11 15 v;
          v = G m r 4 0 5 10 15 v;
          v = G m r 5 1 6 11 12 v;
          v = G m r 6 2 7 8 13 v
      in G m r 7 3 4 9 14 v)"

definition blake2b_compress :: "blake2b_state \<Rightarrow> u8 list \<Rightarrow> blake2b_state" where
  "blake2b_compress st block =
     (let m = map (\<lambda>i. load64_le (drop (i * 8) block)) [0..<16];
          v = map (\<lambda>i. st_h st ! i) [0..<8] @
              [blake2b_iv ! 0, blake2b_iv ! 1, blake2b_iv ! 2, blake2b_iv ! 3,
               blake2b_iv ! 4 XOR st_t st ! 0, blake2b_iv ! 5 XOR st_t st ! 1,
               blake2b_iv ! 6 XOR st_f st ! 0, blake2b_iv ! 7 XOR st_f st ! 1];
          v = foldl (\<lambda>v r. ROUND m r v) v [0, 1, 2, 3, 4, 5, 6, 7, 8, 9, 10, 11]
      in st\<lparr>st_h := map (\<lambda>i. st_h st ! i XOR v ! i XOR v ! (i + 8)) [0..<8]\<rparr>)"

section \<open>Hashing\<close>

definition blake2b_init :: blake2b_state where
  "blake2b_init =
     (let param = \<lparr>pr_digest_length = of_nat BLAKE2B_OUT_BYTES, pr_key_length = 0, pr_fan_out = 1, pr_depth = 1,
                   pr_leaf_length = 0, pr_node_offset = 0, pr_xof_length = 0, pr_node_depth = 0, pr_inner_length = 0,
                   pr_reserved = replicate 14 0, pr_salt = replicate 16 0, pr_personal = replicate 16 0\<rparr>
      in \<lparr>st_h = map (\<lambda>i. blake2b_iv ! i XOR load64_le (drop (8 * i) (param_bytes param))) [0..<8],
          st_t = [0, 0], st_f = [0, 0], st_buf = replicate BLAKE2B_BLOCK_BYTES 0, st_buf_len = 0, st_last_node = 0\<rparr>)"

function blake2b_blocks :: "blake2b_state \<Rightarrow> u8 list \<Rightarrow> blake2b_state \<times> u8 list" where
  "blake2b_blocks st inp =
     (if length inp > BLAKE2B_BLOCK_BYTES then
        blake2b_blocks
          (blake2b_compress (blake2b_increment_counter st (of_nat BLAKE2B_BLOCK_BYTES)) (take BLAKE2B_BLOCK_BYTES inp))
          (drop BLAKE2B_BLOCK_BYTES inp)
      else (st, inp))"
  by pat_completeness auto
termination
  by (relation "measure (\<lambda>(st, inp). length inp)") (simp_all add: BLAKE2B_BLOCK_BYTES_def)

declare blake2b_blocks.simps [simp del]

definition blake2b_update :: "blake2b_state \<Rightarrow> u8 list \<Rightarrow> blake2b_state" where
  "blake2b_update st inp =
     (if inp = [] then st
      else
        let left = st_buf_len st;
            fill = BLAKE2B_BLOCK_BYTES - left;
            (st, inp) =
              (if length inp > fill then
                 let st = st\<lparr>st_buf_len := 0\<rparr>;
                     st = st\<lparr>st_buf := copy_at (st_buf st) left (take fill inp)\<rparr>;
                     st = blake2b_increment_counter st (of_nat BLAKE2B_BLOCK_BYTES);
                     st = blake2b_compress st (st_buf st)
                 in blake2b_blocks st (drop fill inp)
               else (st, inp))
        in st\<lparr>st_buf := copy_at (st_buf st) (st_buf_len st) inp, st_buf_len := st_buf_len st + length inp\<rparr>)"

definition blake2b_final :: "blake2b_state \<Rightarrow> u8 list" where
  "blake2b_final st =
     (let st = blake2b_increment_counter st (of_nat (st_buf_len st));
          st = st\<lparr>st_f := (st_f st)[0 := - 1]\<rparr>;
          st = st\<lparr>st_buf := copy_at (st_buf st) (st_buf_len st) (replicate (BLAKE2B_BLOCK_BYTES - st_buf_len st) 0)\<rparr>;
          st = blake2b_compress st (st_buf st)
      in concat (map (\<lambda>i. store64_le (st_h st ! i)) [0..<8]))"

definition blake2b :: "u8 list \<Rightarrow> u8 list" where
  "blake2b inp = blake2b_final (blake2b_update blake2b_init inp)"

section \<open>The hash of RFC 7693\<close>

definition rfc_sigma :: "nat list list" where
  "rfc_sigma =
     [[ 0,  1,  2,  3,  4,  5,  6,  7,  8,  9, 10, 11, 12, 13, 14, 15],
      [14, 10,  4,  8,  9, 15, 13,  6,  1, 12,  0,  2, 11,  7,  5,  3],
      [11,  8, 12,  0,  5,  2, 15, 13, 10, 14,  3,  6,  7,  1,  9,  4],
      [ 7,  9,  3,  1, 13, 12, 11, 14,  2,  6,  5, 10,  4,  0, 15,  8],
      [ 9,  0,  5,  7,  2,  4, 10, 15, 14,  1, 11, 12,  6,  8,  3, 13],
      [ 2, 12,  6, 10,  0, 11,  8,  3,  4, 13,  7,  5, 15, 14,  1,  9],
      [12,  5,  1, 15, 14, 13,  4, 10,  0,  7,  6,  3,  9,  2,  8, 11],
      [13, 11,  7, 14, 12,  1,  3,  9,  5,  0, 15,  4,  8,  6,  2, 10],
      [ 6, 15, 14,  9, 11,  3,  0,  8, 12,  2, 13,  7,  1,  4, 10,  5],
      [10,  2,  8,  4,  7,  6,  1,  5, 15, 11,  9, 14,  3, 12, 13,  0]]"

text \<open>The first 64 bits of the fractional parts of the square roots of the first eight primes.\<close>

definition rfc_iv :: "u64 list" where
  "rfc_iv =
     [0x6A09E667F3BCC908, 0xBB67AE8584CAA73B, 0x3C6EF372FE94F82B, 0xA54FF53A5F1D36F1,
      0x510E527FADE682D1, 0x9B05688C2B3E6C1F, 0x1F83D9ABFB41BD6B, 0x5BE0CD19137E2179]"

lemma rfc_iv_roots:
  "list_all2 (\<lambda>w (p, r). let n = r * 2 ^ 64 + unat w in n * n \<le> p * 2 ^ 128 \<and> p * 2 ^ 128 < (n + 1) * (n + 1))
     rfc_iv [(2, 1), (3, 1), (5, 2), (7, 2), (11, 3), (13, 3), (17, 4), (19, 4)]"
  by (simp add: rfc_iv_def Let_def)

definition rfc_mix :: "u64 list \<Rightarrow> nat \<Rightarrow> nat \<Rightarrow> nat \<Rightarrow> nat \<Rightarrow> u64 \<Rightarrow> u64 \<Rightarrow> u64 list" where
  "rfc_mix v a b c d x y =
     (let va = v ! a + v ! b + x;
          vd = word_rotr 32 (v ! d XOR va);
          vc = v ! c + vd;
          vb = word_rotr 24 (v ! b XOR vc);
          va = va + vb + y;
          vd = word_rotr 16 (vd XOR va);
          vc = vc + vd;
          vb = word_rotr 63 (vb XOR vc)
      in v[a := va, b := vb, c := vc, d := vd])"

definition rfc_round :: "u64 list \<Rightarrow> nat list \<Rightarrow> u64 list \<Rightarrow> u64 list" where
  "rfc_round m s v =
     (let v = rfc_mix v 0 4 8 12 (m ! (s ! 0)) (m ! (s ! 1));
          v = rfc_mix v 1 5 9 13 (m ! (s ! 2)) (m ! (s ! 3));
          v = rfc_mix v 2 6 10 14 (m ! (s ! 4)) (m ! (s ! 5));
          v = rfc_mix v 3 7 11 15 (m ! (s ! 6)) (m ! (s ! 7));
          v = rfc_mix v 0 5 10 15 (m ! (s ! 8)) (m ! (s ! 9));
          v = rfc_mix v 1 6 11 12 (m ! (s ! 10)) (m ! (s ! 11));
          v = rfc_mix v 2 7 8 13 (m ! (s ! 12)) (m ! (s ! 13))
      in rfc_mix v 3 4 9 14 (m ! (s ! 14)) (m ! (s ! 15)))"

text \<open>The compression function; \<open>t\<close> counts the bytes up to the end of the block.\<close>

definition rfc_F :: "u64 list \<Rightarrow> u8 list \<Rightarrow> nat \<Rightarrow> bool \<Rightarrow> u64 list" where
  "rfc_F h block t final =
     (let m = map (\<lambda>i. \<Sum>j<8. 256 ^ j * ucast (block ! (8 * i + j))) [0..<16];
          v = h @ rfc_iv;
          v = v[12 := v ! 12 XOR of_nat (t mod 2 ^ 64), 13 := v ! 13 XOR of_nat (t div 2 ^ 64)];
          v = (if final then v[14 := NOT (v ! 14)] else v);
          v = foldl (\<lambda>v i. rfc_round m (rfc_sigma ! (i mod 10)) v) v [0..<12]
      in map (\<lambda>i. h ! i XOR v ! i XOR v ! (i + 8)) [0..<8])"

text \<open>The whole hash, without a key and with 64 bytes of output: the message is padded with zeros to full blocks, at
  least one.\<close>

definition rfc_block :: "u8 list \<Rightarrow> nat \<Rightarrow> u8 list" where
  "rfc_block msg i = map (\<lambda>j. if 128 * i + j < length msg then msg ! (128 * i + j) else 0) [0..<128]"

definition rfc_blake2b :: "u8 list \<Rightarrow> u8 list" where
  "rfc_blake2b msg =
     (let ll = length msg;
          dd = max 1 ((ll + 127) div 128);
          h = rfc_iv[0 := rfc_iv ! 0 XOR 0x01010000 XOR 64];
          h = foldl (\<lambda>h i. rfc_F h (rfc_block msg i) ((i + 1) * 128) False) h [0..<dd - 1];
          h = rfc_F h (rfc_block msg (dd - 1)) ll True
      in concat (map (\<lambda>w. map (\<lambda>i. ucast (drop_bit (8 * i) w)) [0..<8]) h))"

section \<open>The compression function\<close>

lemma byte_or_add: "push_bit 8 v OR ucast b = 256 * v + ucast b" for v :: u64 and b :: u8
proof -
  have "push_bit 8 v + ucast b = push_bit 8 v OR ucast b"
    by (rule disjunctive_add) (auto simp: bit_simps dest: bit_imp_le_length)
  then show ?thesis by (simp add: push_bit_eq_mult mult.commute)
qed

lemma foldr_bytes: "foldr (\<lambda>b v. push_bit 8 v OR ucast b) bs 0 = (\<Sum>j<length bs. 256 ^ j * ucast (bs ! j) :: u64)"
  for bs :: "u8 list"
proof (induction bs)
  case (Cons b bs)
  have "foldr (\<lambda>b v. push_bit 8 v OR ucast b) (b # bs) 0 = 256 * (\<Sum>j<length bs. 256 ^ j * ucast (bs ! j)) + (ucast b :: u64)"
    unfolding foldr.simps comp_apply Cons.IH by (rule byte_or_add)
  then show ?case by (simp add: sum.lessThan_Suc_shift sum_distrib_left mult.assoc del: sum.lessThan_Suc)
qed simp

lemma load64_le_sum: "8 \<le> length bs \<Longrightarrow> load64_le bs = (\<Sum>j<8. 256 ^ j * ucast (bs ! j))"
  by (simp add: load64_le_def foldr_bytes)

lemma rotr64_word_rotr: "0 < c \<Longrightarrow> c < 64 \<Longrightarrow> rotr64 w c = word_rotr c w"
  unfolding rotr64_def
proof (rule bit_word_eqI)
  fix n
  assume "n < LENGTH(64)" and c: "0 < c" "c < 64"
  then have n: "n < 64" by simp
  show "bit (drop_bit c w OR push_bit (64 - c) w) n \<longleftrightarrow> bit (word_rotr c w) n"
  proof (cases "n + c < 64")
    case True
    then show ?thesis using c n by (auto simp: bit_simps bit_word_rotr_iff ac_simps)
  next
    case False
    then have "(n + c) mod 64 = n - (64 - c)" using c n by (subst le_mod_geq) simp_all
    then show ?thesis using False c n by (auto simp: bit_simps bit_word_rotr_iff ac_simps dest: bit_imp_le_length)
  qed
qed

lemma updates_in_turn:
  assumes "distinct [a, b, c, d]" and "a < length v" "b < length v" "c < length v" "d < length v"
  shows "v[a := a1, d := d1, c := c1, b := b1, a := a2, d := d2, c := c2, b := b2] = v[a := a2, b := b2, c := c2, d := d2]"
  by (rule nth_equalityI) (use assms in \<open>auto simp: nth_list_update\<close>)

lemma rfc_mix_G:
  assumes "length v = 16" and "a < 16" "b < 16" "c < 16" "d < 16" and "distinct [a, b, c, d]"
  shows "G m r i a b c d v = rfc_mix v a b c d (m ! (blake2b_sigma ! r ! (2 * i))) (m ! (blake2b_sigma ! r ! (2 * i + 1)))"
proof -
  define x y where "x = m ! (blake2b_sigma ! r ! (2 * i))" and "y = m ! (blake2b_sigma ! r ! (2 * i + 1))"
  define a1 where "a1 = v ! a + v ! b + x"
  define d1 where "d1 = word_rotr 32 (v ! d XOR a1)"
  define c1 where "c1 = v ! c + d1"
  define b1 where "b1 = word_rotr 24 (v ! b XOR c1)"
  define a2 where "a2 = a1 + b1 + y"
  define d2 where "d2 = word_rotr 16 (d1 XOR a2)"
  define c2 where "c2 = c1 + d2"
  define b2 where "b2 = word_rotr 63 (b1 XOR c2)"
  note defs = a1_def d1_def c1_def b1_def a2_def d2_def c2_def b2_def
  note nth = nth_list_update_eq nth_list_update_neq length_list_update
  have ne: "a \<noteq> b" "a \<noteq> c" "a \<noteq> d" "b \<noteq> c" "b \<noteq> d" "c \<noteq> d"
    "b \<noteq> a" "c \<noteq> a" "d \<noteq> a" "c \<noteq> b" "d \<noteq> b" "d \<noteq> c" using assms(6) by auto
  have "G m r i a b c d v = v[a := a1, d := d1, c := c1, b := b1, a := a2, d := d2, c := c2, b := b2]"
    unfolding G_def Let_def add_0_right x_def [symmetric] y_def [symmetric] a1_def [symmetric]
    by (simp only: nth assms(1-5) ne rotr64_word_rotr defs(2-8) [symmetric] zero_less_numeral numeral_less_iff num.simps
        less_num_simps not_False_eq_True)
  also have "\<dots> = v[a := a2, b := b2, c := c2, d := d2]" using assms by (intro updates_in_turn) simp_all
  also have "\<dots> = rfc_mix v a b c d x y"
    unfolding rfc_mix_def Let_def defs [symmetric] by (rule refl)
  finally show ?thesis unfolding x_def y_def .
qed

lemma length_rfc_mix [simp]: "length (rfc_mix v a b c d x y) = length v"
  by (simp add: rfc_mix_def Let_def)

lemma length_rfc_round [simp]: "length (rfc_round m s v) = length v"
  by (simp add: rfc_round_def Let_def)

lemma ROUND_rfc: "length v = 16 \<Longrightarrow> ROUND m r v = rfc_round m (blake2b_sigma ! r) v"
  by (simp add: ROUND_def rfc_round_def Let_def rfc_mix_G)

lemma sigma_rows: "r < 12 \<Longrightarrow> blake2b_sigma ! r = rfc_sigma ! (r mod 10)"
proof -
  have "list_all (\<lambda>r. blake2b_sigma ! r = rfc_sigma ! (r mod 10)) [0, 1, 2, 3, 4, 5, 6, 7, 8, 9, 10, 11]"
    by (simp add: blake2b_sigma_def rfc_sigma_def)
  moreover assume "r < 12"
  then have "r \<in> set [0, 1, 2, 3, 4, 5, 6, 7, 8, 9, 10, 11]" by (simp, presburger)
  ultimately show ?thesis by (auto simp: list_all_iff)
qed

lemma length_rounds: "length (foldl (\<lambda>v i. rfc_round m (f i) v) v is) = length v"
  by (induction "is" arbitrary: v) simp_all

lemma rounds_rfc:
  assumes "length v = 16" and "\<forall>r \<in> set rs. r < 12"
  shows "foldl (\<lambda>v r. ROUND m r v) v rs = foldl (\<lambda>v i. rfc_round m (rfc_sigma ! (i mod 10)) v) v rs"
  using assms
proof (induction rs arbitrary: v)
  case (Cons r rs)
  then show ?case by (simp add: ROUND_rfc sigma_rows)
qed simp

lemma iv_rfc: "blake2b_iv = rfc_iv"
  by (simp add: blake2b_iv_def rfc_iv_def)

lemma length_rfc_iv: "length rfc_iv = 8"
  by (simp add: rfc_iv_def)

lemma twelve: "[0, 1, 2, 3, 4, 5, 6, 7, 8, 9, 10, 11] = [0..<12 :: nat]"
  by code_simp

lemma eight_entries: "length h = 8 \<Longrightarrow> map (\<lambda>i. h ! i) [0..<8] = h"
  by (simp add: list_eq_iff_nth_eq)

lemma blake2b_compress_rfc:
  assumes h: "length (st_h st) = 8" and b: "length block = 128" and n: "n < 2 ^ 64"
    and t: "st_t st = [of_nat n, 0]" and f: "st_f st = [if final then - 1 else 0, 0]"
  shows "blake2b_compress st block = st\<lparr>st_h := rfc_F (st_h st) block n final\<rparr>"
proof -
  have m: "map (\<lambda>i. load64_le (drop (i * 8) block)) [0..<16] = map (\<lambda>i. \<Sum>j<8. 256 ^ j * ucast (block ! (8 * i + j))) [0..<16]"
    using b by (auto simp: load64_le_sum mult.commute intro!: sum.cong)
  let ?v = "st_h st @ rfc_iv"
  let ?w = "?v[12 := ?v ! 12 XOR of_nat (n mod 2 ^ 64), 13 := ?v ! 13 XOR of_nat (n div 2 ^ 64)]"
  have v: "map (\<lambda>i. st_h st ! i) [0..<8] @
      [blake2b_iv ! 0, blake2b_iv ! 1, blake2b_iv ! 2, blake2b_iv ! 3,
       blake2b_iv ! 4 XOR st_t st ! 0, blake2b_iv ! 5 XOR st_t st ! 1,
       blake2b_iv ! 6 XOR st_f st ! 0, blake2b_iv ! 7 XOR st_f st ! 1]
     = (if final then ?w[14 := NOT (?w ! 14)] else ?w)"
    using h n unfolding eight_entries [OF h] iv_rfc t f
    by (simp add: rfc_iv_def list_update_append nth_append)
  define w where "w = (if final then ?w[14 := NOT (?w ! 14)] else ?w)"
  have "length w = 16" by (simp add: w_def h length_rfc_iv)
  then have r: "foldl (\<lambda>v r. ROUND m r v) w [0..<12] = foldl (\<lambda>v i. rfc_round m (rfc_sigma ! (i mod 10)) v) w [0..<12]" for m
    by (rule rounds_rfc) simp
  show ?thesis
    unfolding blake2b_compress_def rfc_F_def Let_def m v twelve w_def [symmetric] r by (rule refl)
qed

lemma length_rfc_F [simp]: "length (rfc_F h block n final) = 8"
  by (simp add: rfc_F_def Let_def)

section \<open>Absorbing a message\<close>

text \<open>The chain value after the first \<open>k\<close> blocks of a message, and the state that has absorbed them.\<close>

definition rfc_h0 :: "u64 list" where
  "rfc_h0 = rfc_iv[0 := rfc_iv ! 0 XOR 0x01010000 XOR 64]"

definition chain :: "u8 list \<Rightarrow> nat \<Rightarrow> u64 list" where
  "chain msg k = foldl (\<lambda>h i. rfc_F h (rfc_block msg i) ((i + 1) * 128) False) rfc_h0 [0..<k]"

definition at_block :: "u8 list \<Rightarrow> nat \<Rightarrow> blake2b_state \<Rightarrow> bool" where
  "at_block msg k st \<longleftrightarrow>
     128 * k \<le> length msg \<and> st_h st = chain msg k \<and> st_t st = [of_nat (128 * k), 0] \<and> st_f st = [0, 0]"

definition absorbed :: "u8 list \<Rightarrow> blake2b_state \<Rightarrow> bool" where
  "absorbed msg st \<longleftrightarrow>
     length (st_buf st) = 128 \<and> st_buf_len st \<le> 128 \<and> (msg \<noteq> [] \<longrightarrow> 0 < st_buf_len st)
     \<and> (\<exists>k. at_block msg k st \<and> length msg = 128 * k + st_buf_len st \<and> take (st_buf_len st) (st_buf st) = drop (128 * k) msg)"

lemma chain_Suc: "chain msg (Suc k) = rfc_F (chain msg k) (rfc_block msg k) ((k + 1) * 128) False"
  by (simp add: chain_def)

lemma length_chain [simp]: "length (chain msg k) = 8"
  by (cases k) (simp_all add: chain_Suc, simp add: chain_def rfc_h0_def length_rfc_iv)

lemma rfc_block_full: "128 * Suc k \<le> length msg \<Longrightarrow> rfc_block msg k = take 128 (drop (128 * k) msg)"
  by (rule nth_equalityI) (simp_all add: rfc_block_def)

lemma chain_append: "128 * k \<le> length msg \<Longrightarrow> chain (msg @ xs) k = chain msg k"
proof (induction k)
  case (Suc k)
  then have "rfc_block (msg @ xs) k = rfc_block msg k" by (simp add: rfc_block_full)
  then show ?case using Suc by (simp add: chain_Suc)
qed (simp add: chain_def)

lemma at_block_append: "at_block msg k st \<Longrightarrow> at_block (msg @ xs) k st"
  by (auto simp: at_block_def chain_append)

lemma count_block:
  assumes "n + c < 2 ^ 64"
  shows "of_nat n + (of_nat c :: u64) = of_nat (n + c)" and "\<not> of_nat n + (of_nat c :: u64) < of_nat c"
proof -
  have "unat (of_nat (n + c) :: u64) = n + c" "unat (of_nat c :: u64) = c"
    by (rule unat_of_nat_small; use assms in simp)+
  then show "\<not> of_nat n + (of_nat c :: u64) < of_nat c" by (simp add: word_less_nat_alt flip: of_nat_add)
qed simp

lemma increment_counter:
  assumes "st_t st = [of_nat n, 0]" and "n + c < 2 ^ 64"
  shows "blake2b_increment_counter st (of_nat c) = st\<lparr>st_t := [of_nat (n + c), 0]\<rparr>"
  unfolding blake2b_increment_counter_def Let_def assms(1) nth_Cons_0 using count_block [OF assms(2)] by simp

lemma absorb_block:
  assumes "at_block msg k st" and "128 * Suc k \<le> length msg" and "length msg < 2 ^ 64"
    and block: "block = take 128 (drop (128 * k) msg)"
  shows "blake2b_compress (blake2b_increment_counter st (of_nat BLAKE2B_BLOCK_BYTES)) block
      = st\<lparr>st_h := chain msg (Suc k), st_t := [of_nat (128 * Suc k), 0]\<rparr>"
proof -
  have inc: "blake2b_increment_counter st (of_nat BLAKE2B_BLOCK_BYTES) = st\<lparr>st_t := [of_nat (128 * Suc k), 0]\<rparr>"
    using assms by (subst increment_counter [of _ "128 * k"]) (simp_all add: at_block_def BLAKE2B_BLOCK_BYTES_def add.commute)
  have "blake2b_compress (st\<lparr>st_t := [of_nat (128 * Suc k), 0]\<rparr>) block
      = st\<lparr>st_t := [of_nat (128 * Suc k), 0]\<rparr>\<lparr>st_h := rfc_F (chain msg k) block (128 * Suc k) False\<rparr>"
    using assms by (subst blake2b_compress_rfc [where n = "128 * Suc k" and final = False]) (simp_all add: at_block_def)
  then show ?thesis unfolding inc chain_Suc rfc_block_full [OF assms(2)] block by (simp add: mult.commute)
qed

lemma absorb_blocks:
  assumes "at_block msg k st" and "inp = drop (128 * k) msg" and "length msg < 2 ^ 64"
    and "blake2b_blocks st inp = (st', inp')"
  shows "\<exists>k'. at_block msg k' st' \<and> inp' = drop (128 * k') msg \<and> length inp' \<le> 128 \<and> (inp \<noteq> [] \<longrightarrow> inp' \<noteq> [])
    \<and> st_buf st' = st_buf st \<and> st_buf_len st' = st_buf_len st"
  using assms
proof (induction st inp arbitrary: k rule: blake2b_blocks.induct)
  case (1 st inp)
  show ?case
  proof (cases "length inp > BLAKE2B_BLOCK_BYTES")
    case False
    then show ?thesis using 1(2-) by (intro exI [of _ k]) (auto simp: blake2b_blocks.simps BLAKE2B_BLOCK_BYTES_def)
  next
    case True
    then have le: "128 * Suc k < length msg" using 1(3) by (simp add: BLAKE2B_BLOCK_BYTES_def)
    let ?st = "blake2b_compress (blake2b_increment_counter st (of_nat BLAKE2B_BLOCK_BYTES)) (take BLAKE2B_BLOCK_BYTES inp)"
    have st: "?st = st\<lparr>st_h := chain msg (Suc k), st_t := [of_nat (128 * Suc k), 0]\<rparr>"
      using le by (intro absorb_block [OF 1(2) _ 1(4)]) (simp_all add: 1(3) BLAKE2B_BLOCK_BYTES_def)
    have "at_block msg (Suc k) ?st" using le 1(2) unfolding st by (simp add: at_block_def)
    moreover have "drop BLAKE2B_BLOCK_BYTES inp = drop (128 * Suc k) msg" by (simp add: 1(3) BLAKE2B_BLOCK_BYTES_def add.commute)
    moreover have "blake2b_blocks ?st (drop BLAKE2B_BLOCK_BYTES inp) = (st', inp')"
      using 1(5) True by (simp add: blake2b_blocks.simps [of st])
    ultimately obtain k' where "at_block msg k' st'" "inp' = drop (128 * k') msg" "length inp' \<le> 128"
      "drop BLAKE2B_BLOCK_BYTES inp \<noteq> [] \<longrightarrow> inp' \<noteq> []" "st_buf st' = st_buf ?st" "st_buf_len st' = st_buf_len ?st"
      using 1(1) [OF True, of "Suc k"] 1(4) by blast
    then show ?thesis using True unfolding st by (intro exI [of _ k']) simp
  qed
qed

lemma copy_at_full: "length buf = 128 \<Longrightarrow> off + length src = 128 \<Longrightarrow> copy_at buf off src = take off buf @ src"
  by (simp add: copy_at_def)

lemma copy_at_facts:
  assumes "off + length src \<le> length buf"
  shows "length (copy_at buf off src) = length buf" "take (off + length src) (copy_at buf off src) = take off buf @ src"
  using assms by (simp_all add: copy_at_def)

text \<open>Absorbing more bytes absorbs the longer message.\<close>

lemma update_absorbed:
  assumes "absorbed msg st" and len: "length (msg @ xs) < 2 ^ 64"
  shows "absorbed (msg @ xs) (blake2b_update st xs)"
proof (cases "xs = []")
  case True
  then show ?thesis using assms by (simp add: blake2b_update_def)
next
  case False
  from assms(1) obtain k where buf: "length (st_buf st) = 128" "st_buf_len st \<le> 128"
    and k: "at_block msg k st" "length msg = 128 * k + st_buf_len st" "take (st_buf_len st) (st_buf st) = drop (128 * k) msg"
    by (auto simp: absorbed_def)
  let ?left = "st_buf_len st" and ?fill = "128 - st_buf_len st"
  show ?thesis
  proof (cases "length xs > ?fill")
    case small: False
    then have "blake2b_update st xs = st\<lparr>st_buf := copy_at (st_buf st) ?left xs, st_buf_len := ?left + length xs\<rparr>"
      using False by (simp add: blake2b_update_def BLAKE2B_BLOCK_BYTES_def Let_def)
    moreover have "at_block (msg @ xs) k (st\<lparr>st_buf := copy_at (st_buf st) ?left xs, st_buf_len := ?left + length xs\<rparr>)"
      using at_block_append [OF k(1), of xs] by (simp add: at_block_def)
    ultimately show ?thesis using small False buf k copy_at_facts [of ?left xs "st_buf st"]
      unfolding absorbed_def by (intro conjI exI [of _ k]) simp_all
  next
    case large: True
    let ?m = "msg @ xs"
    define st1 where "st1 = st\<lparr>st_buf_len := 0, st_buf := copy_at (st_buf st) ?left (take ?fill xs)\<rparr>"
    have b1: "st_buf st1 = take 128 (drop (128 * k) ?m)"
      using large buf k by (simp add: st1_def copy_at_full)
    have le: "128 * Suc k < length ?m" using large k(2) buf(2) by simp
    have a1: "at_block ?m k st1" using at_block_append [OF k(1), of xs] by (simp add: at_block_def st1_def)
    define st2 where "st2 = st1\<lparr>st_h := chain ?m (Suc k), st_t := [of_nat (128 * Suc k), 0]\<rparr>"
    have c: "blake2b_compress (blake2b_increment_counter st1 (of_nat BLAKE2B_BLOCK_BYTES)) (st_buf st1) = st2"
      unfolding st2_def using le by (intro absorb_block [OF a1 _ len b1]) simp
    have a2: "at_block ?m (Suc k) st2" using le a1 by (simp add: at_block_def st2_def)
    have d: "drop ?fill xs = drop (128 * Suc k) ?m" using k(2) buf(2) by simp
    obtain st3 rest where run: "blake2b_blocks st2 (drop ?fill xs) = (st3, rest)" by fastforce
    have "drop ?fill xs \<noteq> []" using large by simp
    with absorb_blocks [OF a2 d len run] obtain k' where k': "at_block ?m k' st3" "rest = drop (128 * k') ?m"
      "length rest \<le> 128" "rest \<noteq> []" "st_buf st3 = st_buf st2" "st_buf_len st3 = st_buf_len st2" by blast
    have e: "st_buf_len st3 = 0" "length (st_buf st3) = 128" using k' b1 le by (simp_all add: st2_def) (simp add: st1_def)
    have "blake2b_update st xs = st3\<lparr>st_buf := copy_at (st_buf st3) 0 rest, st_buf_len := length rest\<rparr>"
      using False large c run e by (simp add: blake2b_update_def BLAKE2B_BLOCK_BYTES_def Let_def st1_def blake2b_increment_counter_def)
    moreover have "length ?m = 128 * k' + length rest" using k'(1) unfolding k'(2) at_block_def length_drop by simp
    ultimately show ?thesis using k'(1,3,4) e copy_at_facts [of 0 rest "st_buf st3"]
      unfolding absorbed_def k'(2) [symmetric] by (intro conjI exI [of _ k']) (simp_all add: at_block_def k'(2) [symmetric] del: drop_append)
  qed
qed

section \<open>The hash\<close>

lemma init_absorbed: "absorbed [] blake2b_init"
proof -
  have "st_h blake2b_init = rfc_h0" unfolding rfc_h0_def by code_simp
  then show ?thesis
    by (simp add: absorbed_def at_block_def chain_def blake2b_init_def Let_def BLAKE2B_BLOCK_BYTES_def)
qed

lemma stored_words: "length h = 8 \<Longrightarrow> map (\<lambda>i. store64_le (h ! i)) [0..<8] = map store64_le h"
  by (simp add: list_eq_iff_nth_eq)

lemma final_rfc:
  assumes "absorbed msg st" and len: "length msg < 2 ^ 64"
  shows "blake2b_final st = rfc_blake2b msg"
proof -
  from assms obtain k where buf: "length (st_buf st) = 128" "st_buf_len st \<le> 128" "msg \<noteq> [] \<longrightarrow> 0 < st_buf_len st"
    and k: "at_block msg k st" "length msg = 128 * k + st_buf_len st" "take (st_buf_len st) (st_buf st) = drop (128 * k) msg"
    by (auto simp: absorbed_def)
  let ?n = "st_buf_len st"
  have "at_block msg k st" by (rule k(1))
  then have h: "st_h st = chain msg k" and t: "st_t st = [of_nat (128 * k), 0]" and f: "st_f st = [0, 0]"
    by (simp_all add: at_block_def)
  have dd: "max 1 ((length msg + 127) div 128) - 1 = k"
  proof (cases "msg = []")
    case True
    then show ?thesis using k(2) by simp
  next
    case False
    then have "(128 * k + ?n + 127) div 128 = Suc k" using buf by (intro div_nat_eqI) simp_all
    then show ?thesis using k(2) by simp
  qed
  have pad: "copy_at (st_buf st) ?n (replicate (128 - ?n) 0) = rfc_block msg k"
  proof (rule nth_equalityI)
    show "length (copy_at (st_buf st) ?n (replicate (128 - ?n) 0)) = length (rfc_block msg k)"
      using buf by (simp add: copy_at_full rfc_block_def)
    fix j
    assume "j < length (copy_at (st_buf st) ?n (replicate (128 - ?n) 0))"
    then have j: "j < 128" using buf by (simp add: copy_at_full)
    show "copy_at (st_buf st) ?n (replicate (128 - ?n) 0) ! j = rfc_block msg k ! j"
    proof (cases "j < ?n")
      case True
      then have "take ?n (st_buf st) ! j = msg ! (128 * k + j)" unfolding k(3) using k(2) by simp
      then show ?thesis using True buf j k(2) by (simp add: copy_at_full rfc_block_def nth_append)
    next
      case False
      then show ?thesis using buf j k(2) by (simp add: copy_at_full rfc_block_def nth_append)
    qed
  qed
  define st1 where "st1 = st\<lparr>st_t := [of_nat (length msg), 0], st_f := [- 1, 0], st_buf := rfc_block msg k\<rparr>"
  have inc: "blake2b_increment_counter st (of_nat ?n) = st\<lparr>st_t := [of_nat (length msg), 0]\<rparr>"
    using increment_counter [OF t, of ?n] len k(2) by simp
  have "blake2b_compress st1 (rfc_block msg k) = st1\<lparr>st_h := rfc_F (st_h st1) (rfc_block msg k) (length msg) True\<rparr>"
    using len by (intro blake2b_compress_rfc) (simp_all add: st1_def h rfc_block_def)
  then have "blake2b_final st
      = concat (map (\<lambda>i. store64_le (rfc_F (chain msg k) (rfc_block msg k) (length msg) True ! i)) [0..<8])"
    using inc pad f by (simp add: blake2b_final_def Let_def BLAKE2B_BLOCK_BYTES_def st1_def h)
  also have "\<dots> = rfc_blake2b msg"
    unfolding rfc_blake2b_def Let_def dd rfc_h0_def [symmetric] chain_def [symmetric]
      stored_words [OF length_rfc_F] by (simp add: store64_le_def [abs_def])
  finally show ?thesis .
qed

text \<open>C24: \<^verbatim>\<open>blake2b\<close> computes the hash of RFC 7693 (no key, 64 bytes of output) of every message a \<^verbatim>\<open>size_t\<close> can
  measure.\<close>

theorem blake2b_correct: "length msg < 2 ^ 64 \<Longrightarrow> blake2b msg = rfc_blake2b msg"
  unfolding blake2b_def using final_rfc [OF update_absorbed [OF init_absorbed, of msg]] by simp

theorem blake2b_correct_witness: "blake2b [0x61, 0x62, 0x63] = rfc_blake2b [0x61, 0x62, 0x63]"
  by (rule blake2b_correct) simp

text \<open>C25: The state after any sequence of updates depends only on the bytes absorbed: hashing a message in pieces gives the
  digest of their concatenation. The buffer keeps at most one block, never empty once a byte has come in, and the counter the
  bytes compressed.\<close>

theorem blake2b_streaming:
  assumes "length (concat parts) < 2 ^ 64"
  shows "absorbed (concat parts) (foldl blake2b_update blake2b_init parts)
    \<and> blake2b_final (foldl blake2b_update blake2b_init parts) = blake2b (concat parts)"
proof -
  have "length (concat ps) < 2 ^ 64 \<Longrightarrow> absorbed (concat ps) (foldl blake2b_update blake2b_init ps)" for ps
  proof (induction ps rule: rev_induct)
    case (snoc p ps)
    then show ?case using update_absorbed [of "concat ps" _ p] by simp
  qed (simp add: init_absorbed)
  from this [OF assms] show ?thesis
    using final_rfc [OF _ assms] final_rfc [OF update_absorbed [OF init_absorbed, of "concat parts"]] assms
    by (simp add: blake2b_def)
qed

theorem blake2b_streaming_witness:
  "blake2b_final (blake2b_update (blake2b_update blake2b_init [0x61]) [0x62, 0x63]) = blake2b [0x61, 0x62, 0x63]"
  using blake2b_streaming [of "[[0x61], [0x62, 0x63]]"] by simp

lemma length_blake2b: "length (blake2b msg) = BLAKE2B_OUT_BYTES"
  by (simp add: blake2b_def blake2b_final_def Let_def length_concat store64_le_def comp_def BLAKE2B_OUT_BYTES_def sum_list_triv)

end
