(* ===== verification/Volume.thy ===== *)
theory Volume
  imports Libc "HOL-Library.Signed_Division"
begin

text \<open>
  Volumes and partitions, \<^verbatim>\<open>common/lib/part.s2.c\<close>: the cached reads of a volume, the GUID partition table, the
  master boot record with its chain of logical partitions, and the searches of the volume index. The structure is the
  one of a BIOS build. \<^verbatim>\<open>disk_read_sectors\<close>, a call of the firmware, is the argument \<open>disk\<close>: the bytes it
  stores, or \<^const>\<open>None\<close> when it does not return \<^verbatim>\<open>DISK_SUCCESS\<close>; the search of a file-system label is the
  argument \<open>fs_get_label\<close>. A read into a buffer returns the bytes; a function that reads returns the volume too, whose
  cache the read changes.
\<close>

section \<open>Volumes\<close>

datatype cache_state = CACHE_NOT_READY | CACHE_READY

record volume =
  drive :: int
  fastest_xfer_size :: u64
  vol_index :: int
  is_optical :: bool
  pxe :: bool
  vol_partition :: int
  sector_size :: int
  backing_dev :: u64
  max_partition :: int
  cache_status :: cache_state
  cache :: "u8 list option"
  cached_block :: u64
  first_sect :: u64
  sect_count :: u64
  guid_valid :: bool
  vol_guid :: "u8 list"
  part_guid_valid :: bool
  part_guid :: "u8 list"
  fslabel_valid :: bool
  fslabel :: string

type_synonym disk = "volume \<Rightarrow> u64 \<Rightarrow> u64 \<Rightarrow> u8 list option"

text \<open>A structure cleared to zero.\<close>

definition zero_volume :: volume where
  "zero_volume =
     \<lparr>drive = 0, fastest_xfer_size = 0, vol_index = 0, is_optical = False, pxe = False, vol_partition = 0,
      sector_size = 0, backing_dev = 0, max_partition = 0, cache_status = CACHE_NOT_READY, cache = None,
      cached_block = 0, first_sect = 0, sect_count = 0, guid_valid = False, vol_guid = replicate 16 0,
      part_guid_valid = False, part_guid = replicate 16 0, fslabel_valid = False, fslabel = []\<rparr>"

section \<open>Cached reads\<close>

definition cache_block :: "disk \<Rightarrow> volume \<Rightarrow> u64 \<Rightarrow> volume \<times> bool" where
  "cache_block disk v block =
     (if cache_status v = CACHE_READY \<and> block = cached_block v then (v, True)
      else
        let v = v\<lparr>cache_status := CACHE_NOT_READY\<rparr>;
            v = (if cache v = None
                 then v\<lparr>cache := Some (replicate (unat (fastest_xfer_size v * of_int (sector_size v))) 0)\<rparr>
                 else v);
            sects = of_int (sector_size v sdiv 512) :: u64
        in if first_sect v mod sects \<noteq> 0 then (v, False)
           else
             let first = first_sect v div sects in
             case builtin_mul_overflow block (fastest_xfer_size v) of
               None \<Rightarrow> (v, False)
             | Some block_offset \<Rightarrow>
                 (case builtin_add_overflow first block_offset of
                    None \<Rightarrow> (v, False)
                  | Some read_sector \<Rightarrow>
                      let volume_sectors = sect_count v div sects;
                          end_sector = (case builtin_add_overflow first volume_sectors of None \<Rightarrow> - 1 | Some e \<Rightarrow> e)
                      in if sect_count v \<noteq> - 1 \<and> read_sector \<ge> end_sector then (v, False)
                         else
                           let xfer_size = (if sect_count v \<noteq> - 1 \<and> fastest_xfer_size v > end_sector - read_sector
                                            then end_sector - read_sector else fastest_xfer_size v)
                           in case disk v read_sector xfer_size of
                                None \<Rightarrow> (v, False)
                              | Some bytes \<Rightarrow>
                                  (v\<lparr>cache := Some (bytes @ drop (length bytes) (the (cache v))),
                                     cache_status := CACHE_READY, cached_block := block\<rparr>, True)))"

lemma chunk_facts:
  fixes progress cnt block_size x :: u64
  assumes "progress < cnt" and "block_size \<noteq> 0"
  defines "chunk \<equiv> (if cnt - progress > block_size - x mod block_size then block_size - x mod block_size else cnt - progress)"
  shows "0 < unat chunk" and "unat (progress + chunk) = unat progress + unat chunk"
    and "unat (cnt - (progress + chunk)) < unat (cnt - progress)" and "unat progress + unat chunk \<le> unat cnt"
    and "unat chunk = min (unat cnt - unat progress) (unat block_size - unat x mod unat block_size)"
proof -
  have lt: "unat progress < unat cnt" using assms(1) by (simp add: word_less_nat_alt)
  have b: "0 < unat block_size" using assms(2) unat_eq_zero [of block_size] by simp
  then have "unat x mod unat block_size < unat block_size" by simp
  then have o: "unat (block_size - x mod block_size) = unat block_size - unat x mod unat block_size"
    by (subst unat_sub) (simp_all add: word_le_nat_alt unat_mod)
  have r: "unat (cnt - progress) = unat cnt - unat progress" using lt by (subst unat_sub) (simp_all add: word_le_nat_alt)
  show c: "unat chunk = min (unat cnt - unat progress) (unat block_size - unat x mod unat block_size)"
    unfolding chunk_def by (simp add: word_less_nat_alt o r)
  then show pos: "0 < unat chunk" using lt \<open>unat x mod unat block_size < unat block_size\<close> by simp
  show le: "unat progress + unat chunk \<le> unat cnt" using c lt by simp
  show sum: "unat (progress + chunk) = unat progress + unat chunk"
    using le u64_bound [of cnt] by (subst unat_add_nowrap) simp_all
  have "unat (cnt - (progress + chunk)) = unat cnt - (unat progress + unat chunk)"
    using le by (subst unat_sub) (simp_all add: word_le_nat_alt sum)
  then show "unat (cnt - (progress + chunk)) < unat (cnt - progress)" using r pos le lt by simp
qed

text \<open>The loop of \<^verbatim>\<open>volume_read\<close>. With a block size of zero, where C divides by zero, it gives up.\<close>

function volume_read_loop :: "disk \<Rightarrow> volume \<Rightarrow> u64 \<Rightarrow> u64 \<Rightarrow> u64 \<Rightarrow> u64 \<Rightarrow> u8 list \<Rightarrow> volume \<times> u8 list option" where
  "volume_read_loop disk v block_size loc cnt progress buffer =
     (if \<not> progress < cnt then (v, Some buffer)
      else if block_size = 0 then (v, None)
      else
        case cache_block disk v ((loc + progress) div block_size) of
          (v, ok) \<Rightarrow>
            if \<not> ok then (v, None)
            else
              let chunk = cnt - progress;
                  offset = (loc + progress) mod block_size;
                  chunk = (if chunk > block_size - offset then block_size - offset else chunk)
              in volume_read_loop disk v block_size loc cnt (progress + chunk)
                   (buffer @ take (unat chunk) (drop (unat offset) (the (cache v)))))"
  by pat_completeness auto
termination
  by (relation "measure (\<lambda>(disk, v, block_size, loc, cnt, progress, buffer). unat (cnt - progress))")
    (clarsimp split del: if_split simp del: unat_gt_0 | rule chunk_facts(3))+

declare volume_read_loop.simps [simp del]

definition volume_read :: "disk \<Rightarrow> volume \<Rightarrow> u64 \<Rightarrow> u64 \<Rightarrow> (volume \<times> u8 list option) res" where
  "volume_read disk v loc cnt =
     (if pxe v then Inl (Panic False ''Attempted volume_read() on pxe'')
      else
        let outside = (if sect_count v \<noteq> - 1 then
                         case builtin_mul_overflow (sect_count v) 512 of
                           None \<Rightarrow> True
                         | Some part_size \<Rightarrow> loc \<ge> part_size \<or> cnt > part_size - loc
                       else False)
        in if outside then Inr (v, None)
           else Inr (volume_read_loop disk v (fastest_xfer_size v * of_int (sector_size v)) loc cnt 0 []))"

section \<open>Structures on disk\<close>

text \<open>A field of a packed structure, little-endian.\<close>

definition le_field :: "nat \<Rightarrow> nat \<Rightarrow> u8 list \<Rightarrow> 'a::len word" where
  "le_field off n bytes = foldr (\<lambda>b v. push_bit 8 v OR ucast b) (take n (drop off bytes)) 0"

definition bytes_field :: "nat \<Rightarrow> nat \<Rightarrow> u8 list \<Rightarrow> u8 list" where
  "bytes_field off n bytes = take n (drop off bytes)"

record gpt_table_header =
  gh_signature :: "u8 list"
  gh_revision :: u32
  gh_header_size :: u32
  gh_crc32 :: u32
  gh_reserved0 :: u32
  gh_my_lba :: u64
  gh_alternate_lba :: u64
  gh_first_usable_lba :: u64
  gh_last_usable_lba :: u64
  gh_disk_guid :: "u8 list"
  gh_partition_entry_lba :: u64
  gh_number_of_partition_entries :: u32
  gh_size_of_partition_entry :: u32
  gh_partition_entry_array_crc32 :: u32

definition gpt_table_header_of :: "u8 list \<Rightarrow> gpt_table_header" where
  "gpt_table_header_of b =
     \<lparr>gh_signature = bytes_field 0 8 b, gh_revision = le_field 8 4 b, gh_header_size = le_field 12 4 b,
      gh_crc32 = le_field 16 4 b, gh_reserved0 = le_field 20 4 b, gh_my_lba = le_field 24 8 b,
      gh_alternate_lba = le_field 32 8 b, gh_first_usable_lba = le_field 40 8 b, gh_last_usable_lba = le_field 48 8 b,
      gh_disk_guid = bytes_field 56 16 b, gh_partition_entry_lba = le_field 72 8 b,
      gh_number_of_partition_entries = le_field 80 4 b, gh_size_of_partition_entry = le_field 84 4 b,
      gh_partition_entry_array_crc32 = le_field 88 4 b\<rparr>"

record gpt_entry =
  ge_partition_type_guid :: "u8 list"
  ge_unique_partition_guid :: "u8 list"
  ge_starting_lba :: u64
  ge_ending_lba :: u64
  ge_attributes :: u64
  ge_partition_name :: "u8 list"

definition gpt_entry_of :: "u8 list \<Rightarrow> gpt_entry" where
  "gpt_entry_of b =
     \<lparr>ge_partition_type_guid = bytes_field 0 16 b, ge_unique_partition_guid = bytes_field 16 16 b,
      ge_starting_lba = le_field 32 8 b, ge_ending_lba = le_field 40 8 b, ge_attributes = le_field 48 8 b,
      ge_partition_name = bytes_field 56 72 b\<rparr>"

record mbr_entry =
  me_status :: u8
  me_chs_first_sect :: "u8 list"
  me_part_type :: u8
  me_chs_last_sect :: "u8 list"
  me_first_sect :: u32
  me_sect_count :: u32

definition mbr_entry_of :: "u8 list \<Rightarrow> mbr_entry" where
  "mbr_entry_of b =
     \<lparr>me_status = le_field 0 1 b, me_chs_first_sect = bytes_field 1 3 b, me_part_type = le_field 4 1 b,
      me_chs_last_sect = bytes_field 5 3 b, me_first_sect = le_field 8 4 b, me_sect_count = le_field 12 4 b\<rparr>"

text \<open>The characters of a string literal in memory.\<close>

definition text_bytes :: "string \<Rightarrow> u8 list" where
  "text_bytes s = map (\<lambda>c. of_nat (of_char c)) s"

section \<open>GUID partition table\<close>

definition lb_guesses :: "u64 list" where
  "lb_guesses = [512, 4096]"

text \<open>The search for the header behind the first block. A signature is compared as \<^verbatim>\<open>strncmp\<close> does, the eight
  characters of the literal being no terminators.\<close>

fun gpt_find_header :: "disk \<Rightarrow> volume \<Rightarrow> u64 list \<Rightarrow> (volume \<times> (gpt_table_header \<times> u64) option) res" where
  "gpt_find_header disk v [] = Inr (v, None)"
| "gpt_find_header disk v (lb # lbs) =
     bind_res (volume_read disk v lb 92) (\<lambda>(v, r).
       case r of
         None \<Rightarrow> gpt_find_header disk v lbs
       | Some bytes \<Rightarrow>
           if gh_signature (gpt_table_header_of bytes) \<noteq> text_bytes ''EFI PART'' then gpt_find_header disk v lbs
           else Inr (v, Some (gpt_table_header_of bytes, lb)))"

definition gpt_get_guid :: "disk \<Rightarrow> volume \<Rightarrow> (volume \<times> u8 list option) res" where
  "gpt_get_guid disk v =
     bind_res (gpt_find_header disk v lb_guesses) (\<lambda>(v, r).
       case r of
         None \<Rightarrow> Inr (v, None)
       | Some (header, lb_size) \<Rightarrow>
           if gh_revision header \<noteq> 0x00010000 then Inr (v, None) else Inr (v, Some (gh_disk_guid header)))"

datatype part_result = Part volume | NO_PARTITION | INVALID_TABLE | END_OF_TABLE

text \<open>\<^verbatim>\<open>fs_get_guid\<close> of \<^verbatim>\<open>fs/file.s2.c\<close> knows no file system with a GUID.\<close>

definition fs_get_guid :: "volume \<Rightarrow> u8 list option" where
  "fs_get_guid part = None"

text \<open>The identity of the file system in a partition that has just been found.\<close>

definition identify :: "(volume \<Rightarrow> volume \<times> string option) \<Rightarrow> volume \<Rightarrow> volume" where
  "identify fs_get_label ret =
     (let ret = (case fs_get_guid ret of
                   None \<Rightarrow> ret\<lparr>guid_valid := False\<rparr>
                 | Some g \<Rightarrow> ret\<lparr>guid_valid := True, vol_guid := g\<rparr>)
      in case fs_get_label ret of
           (ret, None) \<Rightarrow> ret\<lparr>fslabel_valid := False\<rparr>
         | (ret, Some l) \<Rightarrow> ret\<lparr>fslabel_valid := True, fslabel := l\<rparr>)"

text \<open>The checks of an entry and the geometry they give, in 512-byte sectors.\<close>

definition gpt_entry_geometry :: "gpt_entry \<Rightarrow> u64 \<Rightarrow> (u64 \<times> u64) option" where
  "gpt_entry_geometry entry lb_size =
     (if memcmp (ge_unique_partition_guid entry) (replicate 16 0) 16 = 0 then None
      else if ge_ending_lba entry < ge_starting_lba entry then None
      else
        let sect_multiplier = lb_size div 512 in
        case builtin_mul_overflow (ge_starting_lba entry) sect_multiplier of
          None \<Rightarrow> None
        | Some first_sect_result \<Rightarrow>
            let partition_size = ge_ending_lba entry - ge_starting_lba entry in
            if partition_size = - 1 then None
            else
              case builtin_mul_overflow (partition_size + 1) sect_multiplier of
                None \<Rightarrow> None
              | Some sect_count_result \<Rightarrow> Some (first_sect_result, sect_count_result))"

definition gpt_get_part ::
    "disk \<Rightarrow> (volume \<Rightarrow> volume \<times> string option) \<Rightarrow> u64 \<Rightarrow> volume \<Rightarrow> volume \<Rightarrow> int \<Rightarrow> (volume \<times> part_result) res" where
  "gpt_get_part disk fs_get_label volume_ptr ret v part_no =
     bind_res (gpt_find_header disk v lb_guesses) (\<lambda>(v, r).
       case r of
         None \<Rightarrow> Inr (v, INVALID_TABLE)
       | Some (header, lb_size) \<Rightarrow>
           if gh_revision header \<noteq> 0x00010000 then Inr (v, INVALID_TABLE)
           else if (of_int part_no :: u32) \<ge> gh_number_of_partition_entries header then Inr (v, END_OF_TABLE)
           else if gh_size_of_partition_entry header < 128 then Inr (v, INVALID_TABLE)
           else
             (case builtin_mul_overflow (gh_partition_entry_lba header) lb_size of
               None \<Rightarrow> Inr (v, INVALID_TABLE)
             | Some entry_offset \<Rightarrow>
                 (case builtin_add_overflow entry_offset (of_int part_no * ucast (gh_size_of_partition_entry header)) of
                    None \<Rightarrow> Inr (v, INVALID_TABLE)
                  | Some entry_offset \<Rightarrow>
                      bind_res (volume_read disk v entry_offset 128) (\<lambda>(v, r).
                        case r of
                          None \<Rightarrow> Inr (v, END_OF_TABLE)
                        | Some bytes \<Rightarrow>
                            (case gpt_entry_geometry (gpt_entry_of bytes) lb_size of
                               None \<Rightarrow> Inr (v, NO_PARTITION)
                             | Some (first, cnt) \<Rightarrow>
                                 let ret = ret\<lparr>drive := drive v, fastest_xfer_size := fastest_xfer_size v,
                                       vol_index := vol_index v, is_optical := is_optical v, vol_partition := part_no + 1,
                                       sector_size := sector_size v, first_sect := first, sect_count := cnt,
                                       backing_dev := volume_ptr\<rparr>;
                                     ret = identify fs_get_label ret
                                 in Inr (v, Part (ret\<lparr>part_guid_valid := True,
                                      part_guid := ge_unique_partition_guid (gpt_entry_of bytes)\<rparr>)))))))"

section \<open>Master boot record\<close>

text \<open>The tests of \<^verbatim>\<open>is_valid_mbr\<close>, each a read followed by a comparison; the first that fails ends them.\<close>

fun mbr_tests :: "disk \<Rightarrow> volume \<Rightarrow> (u64 \<times> u64 \<times> (u8 list \<Rightarrow> bool)) list \<Rightarrow> (volume \<times> bool) res" where
  "mbr_tests disk v [] = Inr (v, True)"
| "mbr_tests disk v ((off, n, ok) # tests) =
     bind_res (volume_read disk v off n) (\<lambda>(v, r).
       case r of
         None \<Rightarrow> Inr (v, False)
       | Some bytes \<Rightarrow> if ok bytes then mbr_tests disk v tests else Inr (v, False))"

definition is_valid_mbr :: "disk \<Rightarrow> volume \<Rightarrow> (volume \<times> bool) res" where
  "is_valid_mbr disk v =
     (let status_ok = (\<lambda>b. b ! 0 = 0x00 \<or> b ! 0 = 0x80);
          differs = (\<lambda>s b. memcmp b (text_bytes s) (length s) \<noteq> 0)
      in mbr_tests disk v
        [(446, 1, status_ok), (462, 1, status_ok), (478, 1, status_ok), (494, 1, status_ok),
         (3, 4, differs ''NTFS''), (54, 3, differs ''FAT''), (82, 3, differs ''FAT''), (3, 5, differs ''FAT32''),
         (1080, 2, \<lambda>b. (le_field 0 2 b :: u16) \<noteq> 0xef53)])"

definition mbr_get_id :: "disk \<Rightarrow> volume \<Rightarrow> (volume \<times> u32) res" where
  "mbr_get_id disk v =
     bind_res (is_valid_mbr disk v) (\<lambda>(v, ok).
       if \<not> ok then Inr (v, 0)
       else bind_res (volume_read disk v 0x1b8 4) (\<lambda>(v, r).
         case r of None \<Rightarrow> Inr (v, 0) | Some bytes \<Rightarrow> Inr (v, le_field 0 4 bytes)))"

definition MAX_LOGICAL_PARTITIONS :: int where
  "MAX_LOGICAL_PARTITIONS = 256"

text \<open>The walk along the chain of extended boot records, \<open>n\<close> links from the \<open>i\<close>th on; \<^const>\<open>None\<close> is the end of the
  table.\<close>

fun ebr_walk :: "disk \<Rightarrow> volume \<Rightarrow> nat \<Rightarrow> nat \<Rightarrow> u64 \<Rightarrow> (volume \<times> u64 option) res" where
  "ebr_walk disk v 0 i ebr_sector = Inr (v, Some ebr_sector)"
| "ebr_walk disk v (Suc n) i ebr_sector =
     bind_res (volume_read disk v (ebr_sector * 512 + 0x1ce) 16) (\<lambda>(v, r).
       case r of
         None \<Rightarrow> Inr (v, None)
       | Some bytes \<Rightarrow>
           let entry = mbr_entry_of bytes in
           if me_part_type entry \<noteq> 0x0f \<and> me_part_type entry \<noteq> 0x05 then Inr (v, None)
           else
             let prev_ebr_sector = ebr_sector; ebr_sector = ucast (me_first_sect entry) in
             if ebr_sector = 0 \<or> (i > 0 \<and> ebr_sector \<le> prev_ebr_sector) then Inr (v, None)
             else if ebr_sector \<ge> sect_count v then Inr (v, None)
             else ebr_walk disk v n (Suc i) ebr_sector)"

text \<open>The result's fields come from \<open>extended_part\<close>, a local structure, which is dropped at the end.\<close>

definition mbr_get_logical_part ::
    "disk \<Rightarrow> (volume \<Rightarrow> volume \<times> string option) \<Rightarrow> volume \<Rightarrow> volume \<Rightarrow> int \<Rightarrow> part_result res" where
  "mbr_get_logical_part disk fs_get_label ret extended_part part_no =
     (if part_no \<ge> MAX_LOGICAL_PARTITIONS then Inr END_OF_TABLE
      else
        bind_res (ebr_walk disk extended_part (nat part_no) 0 0) (\<lambda>(ext, r).
          case r of
            None \<Rightarrow> Inr END_OF_TABLE
          | Some ebr_sector \<Rightarrow>
              bind_res (volume_read disk ext (ebr_sector * 512 + 0x1be) 16) (\<lambda>(ext, r).
                case r of
                  None \<Rightarrow> Inr END_OF_TABLE
                | Some bytes \<Rightarrow>
                    let entry = mbr_entry_of bytes in
                    if me_part_type entry = 0 then Inr NO_PARTITION
                    else if me_sect_count entry = 0 then Inr NO_PARTITION
                    else
                      case builtin_add_overflow (first_sect ext) ebr_sector of
                        None \<Rightarrow> Inr NO_PARTITION
                      | Some first_sect_64 \<Rightarrow>
                          (case builtin_add_overflow first_sect_64 (ucast (me_first_sect entry)) of
                             None \<Rightarrow> Inr NO_PARTITION
                           | Some first_sect_64 \<Rightarrow>
                               (case builtin_add_overflow first_sect_64 (ucast (me_sect_count entry)) of
                                  None \<Rightarrow> Inr NO_PARTITION
                                | Some partition_end \<Rightarrow>
                                    let ret = ret\<lparr>drive := drive ext, fastest_xfer_size := fastest_xfer_size ext,
                                          vol_index := vol_index ext, is_optical := is_optical ext,
                                          vol_partition := part_no + 4 + 1, sector_size := sector_size ext,
                                          first_sect := first_sect_64, sect_count := ucast (me_sect_count entry),
                                          backing_dev := backing_dev ext\<rparr>;
                                        ret = identify fs_get_label ret
                                    in Inr (Part (ret\<lparr>part_guid_valid := False\<rparr>)))))))"

text \<open>The search for the extended partition, from entry \<open>i\<close> on.\<close>

function mbr_extended :: "disk \<Rightarrow> volume \<Rightarrow> u64 \<Rightarrow> nat \<Rightarrow> (volume \<times> volume option) res" where
  "mbr_extended disk v volume_ptr i =
     (if i \<ge> 4 then Inr (v, None)
      else
        bind_res (volume_read disk v (0x1be + 16 * of_nat i) 16) (\<lambda>(v, r).
          case r of
            None \<Rightarrow> mbr_extended disk v volume_ptr (Suc i)
          | Some bytes \<Rightarrow>
              let entry = mbr_entry_of bytes in
              if me_part_type entry \<noteq> 0x0f \<and> me_part_type entry \<noteq> 0x05 then mbr_extended disk v volume_ptr (Suc i)
              else if me_sect_count entry = 0 then mbr_extended disk v volume_ptr (Suc i)
              else Inr (v, Some (zero_volume\<lparr>drive := drive v, fastest_xfer_size := fastest_xfer_size v,
                     vol_index := vol_index v, is_optical := is_optical v, vol_partition := int i + 1,
                     sector_size := sector_size v, first_sect := ucast (me_first_sect entry),
                     sect_count := ucast (me_sect_count entry), backing_dev := volume_ptr\<rparr>))))"
  by pat_completeness auto
termination
  by (relation "measure (\<lambda>(disk, v, volume_ptr, i). 4 - i)") auto

declare mbr_extended.simps [simp del]

definition mbr_get_part ::
    "disk \<Rightarrow> (volume \<Rightarrow> volume \<times> string option) \<Rightarrow> u64 \<Rightarrow> volume \<Rightarrow> volume \<Rightarrow> int \<Rightarrow> (volume \<times> part_result) res" where
  "mbr_get_part disk fs_get_label volume_ptr ret v part_no =
     bind_res (is_valid_mbr disk v) (\<lambda>(v, ok).
       if \<not> ok then Inr (v, INVALID_TABLE)
       else if part_no > 3 then
         bind_res (mbr_extended disk v volume_ptr 0) (\<lambda>(v, r).
           case r of
             None \<Rightarrow> Inr (v, END_OF_TABLE)
           | Some extended_part \<Rightarrow>
               bind_res (mbr_get_logical_part disk fs_get_label ret extended_part (part_no - 4)) (\<lambda>p. Inr (v, p)))
       else
         bind_res (volume_read disk v (0x1be + 16 * of_int part_no) 16) (\<lambda>(v, r).
           case r of
             None \<Rightarrow> Inr (v, END_OF_TABLE)
           | Some bytes \<Rightarrow>
               let entry = mbr_entry_of bytes in
               if me_part_type entry = 0 then Inr (v, NO_PARTITION)
               else if me_sect_count entry = 0 then Inr (v, NO_PARTITION)
               else
                 let ret = ret\<lparr>drive := drive v, fastest_xfer_size := fastest_xfer_size v, vol_index := vol_index v,
                       is_optical := is_optical v, vol_partition := part_no + 1, sector_size := sector_size v,
                       first_sect := ucast (me_first_sect entry), sect_count := ucast (me_sect_count entry),
                       backing_dev := volume_ptr\<rparr>;
                     ret = identify fs_get_label ret
                 in Inr (v, Part (ret\<lparr>part_guid_valid := False\<rparr>))))"

definition part_get ::
    "disk \<Rightarrow> (volume \<Rightarrow> volume \<times> string option) \<Rightarrow> u64 \<Rightarrow> volume \<Rightarrow> volume \<Rightarrow> int \<Rightarrow> (volume \<times> part_result) res" where
  "part_get disk fs_get_label volume_ptr part v part_no =
     (if part_no < 0 then Inr (v, NO_PARTITION)
      else
        bind_res (gpt_get_part disk fs_get_label volume_ptr part v part_no) (\<lambda>(v, ret).
          if ret \<noteq> INVALID_TABLE then Inr (v, ret)
          else
            bind_res (mbr_get_part disk fs_get_label volume_ptr part v part_no) (\<lambda>(v, ret).
              if ret \<noteq> INVALID_TABLE then Inr (v, ret) else Inr (v, INVALID_TABLE))))"

section \<open>The volume index\<close>

fun volume_get_by_guid :: "volume list \<Rightarrow> u8 list \<Rightarrow> volume option" where
  "volume_get_by_guid [] guid = None"
| "volume_get_by_guid (v # volume_index) guid =
     (if guid_valid v \<and> memcmp (vol_guid v) guid 16 = 0 then Some v
      else if part_guid_valid v \<and> memcmp (part_guid v) guid 16 = 0 then Some v
      else volume_get_by_guid volume_index guid)"

fun volume_get_by_fslabel :: "volume list \<Rightarrow> string \<Rightarrow> volume option" where
  "volume_get_by_fslabel [] label = None"
| "volume_get_by_fslabel (v # volume_index) label =
     (if fslabel_valid v \<and> strcmp (fslabel v) label = 0 then Some v else volume_get_by_fslabel volume_index label)"

fun volume_get_by_coord :: "volume list \<Rightarrow> bool \<Rightarrow> int \<Rightarrow> int \<Rightarrow> volume option" where
  "volume_get_by_coord [] optical drv part = None"
| "volume_get_by_coord (v # volume_index) optical drv part =
     (if vol_index v = drv \<and> is_optical v = optical \<and> vol_partition v = part then Some v
      else volume_get_by_coord volume_index optical drv part)"

fun volume_get_by_bios_drive :: "volume list \<Rightarrow> int \<Rightarrow> volume option" where
  "volume_get_by_bios_drive [] drv = None"
| "volume_get_by_bios_drive (v # volume_index) drv =
     (if drive v = drv then Some v else volume_get_by_bios_drive volume_index drv)"

end
