(* ===== verification/Volume_Read.thy ===== *)
theory Volume_Read
  imports Volume
begin

text \<open>
  Correctness of the cached reads of a volume: over a disk that stores an image, every read returns the bytes of the
  image, whatever is in the cache.
\<close>

section \<open>Volumes over an image\<close>

text \<open>The size of a sector in units of 512 bytes, the first byte of the volume on the disk and the size of its cache.\<close>

definition sect_units :: "volume \<Rightarrow> nat" where
  "sect_units v = nat (sector_size v) div 512"

definition vol_base :: "volume \<Rightarrow> nat" where
  "vol_base v = unat (first_sect v) * 512"

definition cache_bytes :: "volume \<Rightarrow> nat" where
  "cache_bytes v = unat (fastest_xfer_size v) * (512 * sect_units v)"

text \<open>A size of all ones is unknown.\<close>

definition in_volume :: "volume \<Rightarrow> nat \<Rightarrow> bool" where
  "in_volume v p \<longleftrightarrow> sect_count v = - 1 \<or> p < unat (sect_count v) * 512"

text \<open>A volume whose sectors are whole multiples of 512 bytes, that starts and ends at a sector and within 64 bits.\<close>

definition geometry :: "volume \<Rightarrow> bool" where
  "geometry v \<longleftrightarrow>
     \<not> pxe v \<and> 0 < sect_units v \<and> sector_size v = 512 * int (sect_units v) \<and> 0 < unat (fastest_xfer_size v)
     \<and> cache_bytes v < 2 ^ 63 \<and> sect_units v dvd unat (first_sect v) \<and> vol_base v < 2 ^ 64
     \<and> (sect_count v \<noteq> - 1 \<longrightarrow> sect_units v dvd unat (sect_count v) \<and> vol_base v + unat (sect_count v) * 512 < 2 ^ 64)"

text \<open>The cache, when it is ready, holds the bytes of its block that lie in the volume.\<close>

definition cache_ok :: "(nat \<Rightarrow> u8) \<Rightarrow> volume \<Rightarrow> bool" where
  "cache_ok img v \<longleftrightarrow>
     (\<forall>c. cache v = Some c \<longrightarrow> length c = cache_bytes v)
     \<and> (cache_status v = CACHE_READY \<longrightarrow>
          (\<exists>c. cache v = Some c \<and>
             (\<forall>j < cache_bytes v. in_volume v (unat (cached_block v) * cache_bytes v + j) \<longrightarrow>
                c ! j = img (vol_base v + unat (cached_block v) * cache_bytes v + j))))"

definition same_but_cache :: "volume \<Rightarrow> volume \<Rightarrow> bool" where
  "same_but_cache v v' \<longleftrightarrow>
     v' = v\<lparr>cache := cache v', cache_status := cache_status v', cached_block := cached_block v'\<rparr>"

text \<open>What the firmware promises: a successful read of sectors returns their bytes.\<close>

definition reads_image :: "(nat \<Rightarrow> u8) \<Rightarrow> disk \<Rightarrow> volume \<Rightarrow> bool" where
  "reads_image img disk v \<longleftrightarrow>
     (\<forall>v' block n bytes. drive v' = drive v \<longrightarrow> sector_size v' = sector_size v \<longrightarrow> disk v' block n = Some bytes \<longrightarrow>
        bytes = map (\<lambda>i. img (unat block * (512 * sect_units v) + i)) [0..<unat n * (512 * sect_units v)])"

text \<open>A disk without faults: the sectors of the volume can be read.\<close>

definition reliable :: "disk \<Rightarrow> volume \<Rightarrow> bool" where
  "reliable disk v \<longleftrightarrow>
     (\<forall>v' block n. drive v' = drive v \<longrightarrow> sector_size v' = sector_size v \<longrightarrow>
        (sect_count v \<noteq> - 1 \<longrightarrow>
           (unat block + unat n) * (512 * sect_units v) \<le> vol_base v + unat (sect_count v) * 512) \<longrightarrow>
        disk v' block n \<noteq> None)"

definition volume_ok :: "(nat \<Rightarrow> u8) \<Rightarrow> disk \<Rightarrow> volume \<Rightarrow> bool" where
  "volume_ok img disk v \<longleftrightarrow> geometry v \<and> cache_ok img v \<and> reads_image img disk v"

lemma same_but_cache_refl [simp]: "same_but_cache v v"
  by (simp add: same_but_cache_def)

lemma same_but_cache_trans: "same_but_cache a b \<Longrightarrow> same_but_cache b c \<Longrightarrow> same_but_cache a c"
  unfolding same_but_cache_def by (cases a; cases b; cases c) simp

lemma same_but_cache_sym: "same_but_cache a b \<Longrightarrow> same_but_cache b a"
  unfolding same_but_cache_def by (cases a; cases b) simp

lemma same_but_cache_update [simp]:
  "same_but_cache v (v\<lparr>cache := c, cache_status := s, cached_block := b\<rparr>)"
  "same_but_cache v (v\<lparr>cache_status := s\<rparr>)"
  "same_but_cache v (v\<lparr>cache_status := s, cache := c\<rparr>)"
  by (simp_all add: same_but_cache_def)

lemma same_but_cache_fields:
  assumes "same_but_cache v v'"
  shows "drive v' = drive v" "fastest_xfer_size v' = fastest_xfer_size v" "sector_size v' = sector_size v"
    "first_sect v' = first_sect v" "sect_count v' = sect_count v" "pxe v' = pxe v" "sect_units v' = sect_units v"
    "vol_base v' = vol_base v" "cache_bytes v' = cache_bytes v" "in_volume v' = in_volume v"
    "vol_index v' = vol_index v" "is_optical v' = is_optical v" "backing_dev v' = backing_dev v"
  by (subst assms [unfolded same_but_cache_def]; simp add: sect_units_def vol_base_def cache_bytes_def in_volume_def fun_eq_iff)+

lemma geometry_same: "same_but_cache v v' \<Longrightarrow> geometry v' = geometry v"
  by (simp add: geometry_def same_but_cache_fields)

lemma reads_image_same: "same_but_cache v v' \<Longrightarrow> reads_image img disk v' = reads_image img disk v"
  by (simp add: reads_image_def same_but_cache_fields)

lemma reliable_same: "same_but_cache v v' \<Longrightarrow> reliable disk v' = reliable disk v"
  by (simp add: reliable_def same_but_cache_fields)

section \<open>Filling the cache\<close>

lemma geometry_words:
  assumes "geometry v"
  defines "k \<equiv> sect_units v"
  shows "unat (of_int (sector_size v sdiv 512) :: u64) = k"
    and "unat (fastest_xfer_size v * of_int (sector_size v)) = cache_bytes v"
    and "first_sect v mod of_int (sector_size v sdiv 512) = 0"
    and "unat (first_sect v div of_int (sector_size v sdiv 512)) * (512 * k) = vol_base v"
proof -
  have k: "0 < k" "sector_size v = 512 * int k" and fx: "0 < unat (fastest_xfer_size v)"
    and b: "unat (fastest_xfer_size v) * (512 * k) < 2 ^ 63" and d: "k dvd unat (first_sect v)"
    using assms(1) by (simp_all add: geometry_def k_def cache_bytes_def)
  have "512 * k \<le> unat (fastest_xfer_size v) * (512 * k)" using fx by simp
  then have small: "512 * k < 2 ^ 63" using b by linarith
  have s: "of_int (sector_size v sdiv 512) = (of_nat k :: u64)" "of_int (sector_size v) = (of_nat (512 * k) :: u64)"
    using k by (simp_all add: signed_divide_int_def)
  show u: "unat (of_int (sector_size v sdiv 512) :: u64) = k" unfolding s using small by (intro unat_of_nat_small) simp
  have "unat (of_nat (512 * k) :: u64) = 512 * k" using small by (intro unat_of_nat_small) simp
  then show "unat (fastest_xfer_size v * of_int (sector_size v)) = cache_bytes v"
    unfolding s cache_bytes_def k_def [symmetric] using b by (subst unat_mult_nowrap) (simp_all only: len_num1, simp_all)
  show "first_sect v mod of_int (sector_size v sdiv 512) = 0"
    using d by (simp add: word_unat_eq_iff unat_mod u)
  show "unat (first_sect v div of_int (sector_size v sdiv 512)) * (512 * k) = vol_base v"
    using d by (simp add: unat_div u vol_base_def)
qed

text \<open>The transfer that fills the cache with a block, and the bytes it brings.\<close>

definition xfer :: "volume \<Rightarrow> u64 \<Rightarrow> u64 \<Rightarrow> u64 \<Rightarrow> bool" where
  "xfer v block read_sector n \<longleftrightarrow>
     unat read_sector * (512 * sect_units v) = vol_base v + unat block * cache_bytes v
     \<and> unat n \<le> unat (fastest_xfer_size v)
     \<and> (\<forall>j < cache_bytes v. in_volume v (unat block * cache_bytes v + j) \<longrightarrow> j < unat n * (512 * sect_units v))
     \<and> (sect_count v \<noteq> - 1 \<longrightarrow>
          (unat read_sector + unat n) * (512 * sect_units v) \<le> vol_base v + unat (sect_count v) * 512)"

lemma filled_cache:
  assumes x: "xfer v block read_sector n" and r: "reads_image img disk v" and d: "disk v' read_sector n = Some bytes"
    and v': "drive v' = drive v" "sector_size v' = sector_size v" and c: "length c = cache_bytes v"
  defines "c' \<equiv> bytes @ drop (length bytes) c"
  shows "length c' = cache_bytes v"
    and "j < cache_bytes v \<Longrightarrow> in_volume v (unat block * cache_bytes v + j) \<Longrightarrow>
      c' ! j = img (vol_base v + unat block * cache_bytes v + j)"
proof -
  let ?s = "512 * sect_units v"
  have b: "bytes = map (\<lambda>i. img (unat read_sector * ?s + i)) [0..<unat n * ?s]"
    using r d v' unfolding reads_image_def by blast
  have "unat n * ?s \<le> cache_bytes v" using x unfolding xfer_def cache_bytes_def by (simp add: mult_right_mono)
  then show "length c' = cache_bytes v" using c by (simp add: c'_def b)
  assume "j < cache_bytes v" "in_volume v (unat block * cache_bytes v + j)"
  then have "j < unat n * ?s" using x by (simp add: xfer_def)
  then have "c' ! j = img (unat read_sector * ?s + j)" by (simp add: c'_def b nth_append)
  then show "c' ! j = img (vol_base v + unat block * cache_bytes v + j)" using x by (simp add: xfer_def)
qed

lemma xfer_whole:
  assumes g: "geometry v" and "sect_count v = - 1" and rs: "unat rs = unat (first_sect v div of_int (sector_size v sdiv 512)) + unat block * unat (fastest_xfer_size v)"
  shows "xfer v block rs (fastest_xfer_size v)"
  using assms(2) geometry_words(4) [OF g] unfolding xfer_def rs
  by (simp add: cache_bytes_def add_mult_distrib)

lemma xfer_clamped:
  assumes g: "geometry v" and sc: "sect_count v \<noteq> - 1"
    and rs: "unat rs = unat (first_sect v div of_int (sector_size v sdiv 512)) + unat block * unat (fastest_xfer_size v)"
    and es: "unat es = unat (first_sect v div of_int (sector_size v sdiv 512)) + unat (sect_count v div of_int (sector_size v sdiv 512))"
    and "rs < es"
  shows "xfer v block rs (if fastest_xfer_size v > es - rs then es - rs else fastest_xfer_size v)"
proof -
  let ?k = "sect_units v" and ?fx = "unat (fastest_xfer_size v)"
  let ?s = "512 * ?k"
  define f c where "f = unat (first_sect v div of_int (sector_size v sdiv 512))"
    and "c = unat (sect_count v div of_int (sector_size v sdiv 512))"
  have c: "c * ?s = unat (sect_count v) * 512"
    using g sc geometry_words(1) [OF g] by (simp add: c_def geometry_def unat_div)
  have f: "f * ?s = vol_base v" using geometry_words(4) [OF g] by (simp add: f_def)
  have lt: "unat block * ?fx < c" using assms(5) rs es by (simp add: word_less_nat_alt f_def c_def)
  have sub: "unat (es - rs) = c - unat block * ?fx"
    using assms(5) rs es lt by (simp add: unat_sub f_def c_def word_less_nat_alt word_le_nat_alt)
  let ?n = "min ?fx (c - unat block * ?fx)"
  have n: "unat (if fastest_xfer_size v > es - rs then es - rs else fastest_xfer_size v) = ?n"
    by (simp add: word_less_nat_alt sub)
  have 1: "unat rs * ?s = vol_base v + unat block * cache_bytes v"
    using f unfolding rs f_def [symmetric] cache_bytes_def by (simp add: add_mult_distrib)
  have 2: "j < ?n * ?s" if "j < cache_bytes v" "in_volume v (unat block * cache_bytes v + j)" for j
  proof -
    have "unat block * ?fx * ?s + j < c * ?s" using that(2) sc unfolding in_volume_def c cache_bytes_def by simp
    then have "j < (c - unat block * ?fx) * ?s" unfolding diff_mult_distrib by linarith
    then show ?thesis using that(1) by (simp add: cache_bytes_def min_def)
  qed
  have "(unat rs + ?n) * ?s \<le> (f + c) * ?s" using lt unfolding rs f_def [symmetric] by (intro mult_right_mono) simp_all
  then have 3: "(unat rs + ?n) * ?s \<le> vol_base v + unat (sect_count v) * 512" using f c by (simp add: add_mult_distrib)
  show ?thesis unfolding xfer_def n using 1 2 3 by simp
qed

text \<open>The volume with a cache allocated and marked as not ready.\<close>

definition cleared :: "volume \<Rightarrow> volume" where
  "cleared v = v\<lparr>cache_status := CACHE_NOT_READY,
     cache := Some (case cache v of None \<Rightarrow> replicate (unat (fastest_xfer_size v * of_int (sector_size v))) 0 | Some c \<Rightarrow> c)\<rparr>"

lemma cleared_same [simp]: "same_but_cache v (cleared v)"
  by (simp add: cleared_def)

lemma length_cleared: "geometry v \<Longrightarrow> cache_ok img v \<Longrightarrow> length (the (cache (cleared v))) = cache_bytes v"
  by (auto simp: cleared_def cache_ok_def geometry_words split: option.split)

lemma cache_block_cases:
  assumes g: "geometry v"
  obtains (hit) "cache_status v = CACHE_READY" "cached_block v = block" "cache_block disk v block = (v, True)"
  | (failed) "cache_block disk v block = (cleared v, False)"
      "reliable disk v \<Longrightarrow> vol_base v + unat block * cache_bytes v < 2 ^ 64 \<Longrightarrow>
         \<not> in_volume v (unat block * cache_bytes v)"
  | (filled) rs n bytes where "xfer v block rs n" "disk (cleared v) rs n = Some bytes"
      "cache_block disk v block = ((cleared v)\<lparr>cache := Some (bytes @ drop (length bytes) (the (cache (cleared v)))),
         cache_status := CACHE_READY, cached_block := block\<rparr>, True)"
proof (cases "cache_status v = CACHE_READY \<and> cached_block v = block")
  case True
  then show thesis by (intro hit) (auto simp: cache_block_def)
next
  case False
  let ?sects = "of_int (sector_size v sdiv 512) :: u64"
  let ?f = "first_sect v div ?sects" and ?fx = "fastest_xfer_size v"
  let ?c = "sect_count v div ?sects"
  let ?s = "512 * sect_units v"
  have s0: "0 < ?s" using g by (simp add: geometry_def)
  have f: "unat ?f * ?s = vol_base v" by (rule geometry_words(4) [OF g])
  define es where "es = (case builtin_add_overflow ?f ?c of None \<Rightarrow> - 1 | Some e \<Rightarrow> e)"
  have c: "unat ?c * ?s = unat (sect_count v) * 512" if "sect_count v \<noteq> - 1"
    using g that geometry_words(1) [OF g] by (simp add: geometry_def unat_div)
  have es: "unat es = unat ?f + unat ?c" if "sect_count v \<noteq> - 1"
  proof -
    have "(unat ?f + unat ?c) * ?s < 2 ^ 64" using g that f c [OF that] unfolding geometry_def add_mult_distrib by simp
    then have "unat ?f + unat ?c < 2 ^ 64" using s0 by (cases "?s") auto
    then show ?thesis by (simp add: es_def builtin_add_overflow_def unat_add_nowrap)
  qed
  have v1: "(if cache (v\<lparr>cache_status := CACHE_NOT_READY\<rparr>) = None
     then v\<lparr>cache_status := CACHE_NOT_READY, cache := Some (replicate
       (unat (fastest_xfer_size (v\<lparr>cache_status := CACHE_NOT_READY\<rparr>) * of_int (sector_size (v\<lparr>cache_status := CACHE_NOT_READY\<rparr>)))) 0)\<rparr>
     else v\<lparr>cache_status := CACHE_NOT_READY\<rparr>) = cleared v"
    by (cases v; cases "cache v") (simp_all add: cleared_def)
  have run: "cache_block disk v block =
    (case builtin_mul_overflow block ?fx of
       None \<Rightarrow> (cleared v, False)
     | Some block_offset \<Rightarrow>
         (case builtin_add_overflow ?f block_offset of
            None \<Rightarrow> (cleared v, False)
          | Some rs \<Rightarrow>
              if sect_count v \<noteq> - 1 \<and> rs \<ge> es then (cleared v, False)
              else
                case disk (cleared v) rs (if sect_count v \<noteq> - 1 \<and> ?fx > es - rs then es - rs else ?fx) of
                  None \<Rightarrow> (cleared v, False)
                | Some bytes \<Rightarrow>
                    ((cleared v)\<lparr>cache := Some (bytes @ drop (length bytes) (the (cache (cleared v)))),
                       cache_status := CACHE_READY, cached_block := block\<rparr>, True)))"
    unfolding cache_block_def Let_def v1 same_but_cache_fields [OF cleared_same] es_def
      geometry_words(3) [OF g] using False by auto
  have ov: "unat block * unat ?fx < 2 ^ 64" "unat ?f + unat block * unat ?fx < 2 ^ 64"
    if "vol_base v + unat block * cache_bytes v < 2 ^ 64"
  proof -
    have "(unat ?f + unat block * unat ?fx) * ?s < 2 ^ 64" using that f unfolding cache_bytes_def add_mult_distrib by simp
    then show "unat ?f + unat block * unat ?fx < 2 ^ 64" using s0 by (cases "?s") auto
    then show "unat block * unat ?fx < 2 ^ 64" by simp
  qed
  show thesis
  proof (cases "builtin_mul_overflow block ?fx")
    case None
    then have "\<not> unat block * unat ?fx < 2 ^ 64" by (auto simp: builtin_mul_overflow_def split: if_splits)
    then show thesis using None ov by (intro failed) (auto simp: run)
  next
    case (Some off)
    then have off: "unat off = unat block * unat ?fx" unfolding builtin_mul_overflow_eq_Some ..
    show thesis
    proof (cases "builtin_add_overflow ?f off")
      case None
      then have "\<not> unat ?f + unat off < 2 ^ 64" by (auto simp: builtin_add_overflow_def split: if_splits)
      then show thesis using Some None ov off by (intro failed) (auto simp: run)
    next
      case rs: (Some rs)
      then have urs: "unat rs = unat ?f + unat block * unat ?fx" unfolding builtin_add_overflow_eq_Some off ..
      show thesis
      proof (cases "sect_count v \<noteq> - 1 \<and> rs \<ge> es")
        case True
        then have "unat ?c \<le> unat block * unat ?fx" using es urs by (simp add: word_le_nat_alt)
        then have "unat ?c * ?s \<le> unat block * unat ?fx * ?s" by (rule mult_right_mono) simp
        then have "\<not> in_volume v (unat block * cache_bytes v)"
          using True c by (simp add: in_volume_def cache_bytes_def)
        then show thesis using Some rs True by (intro failed) (simp_all add: run)
      next
        case in_range: False
        let ?n = "if sect_count v \<noteq> - 1 \<and> ?fx > es - rs then es - rs else ?fx"
        have x: "xfer v block rs ?n"
          using xfer_whole [OF g _ urs] xfer_clamped [OF g _ urs es] in_range by (cases "sect_count v = - 1") auto
        show thesis
        proof (cases "disk (cleared v) rs ?n")
          case None
          have "\<not> reliable disk v"
            using None x same_but_cache_fields(1,3) [OF cleared_same, of v] unfolding reliable_def xfer_def by blast
          then show thesis using Some rs in_range None by (intro failed) (auto simp: run)
        next
          case bytes: (Some bytes)
          show thesis by (rule filled [OF x bytes]) (use Some rs in_range bytes in \<open>auto simp: run\<close>)
        qed
      qed
    qed
  qed
qed

lemma cache_block_ok:
  assumes ok: "volume_ok img disk v" and run: "cache_block disk v block = (v', b)"
  shows "volume_ok img disk v'" and "same_but_cache v v'"
    and "b \<Longrightarrow> cache_status v' = CACHE_READY \<and> cached_block v' = block"
    and "reliable disk v \<Longrightarrow> vol_base v + unat block * cache_bytes v < 2 ^ 64 \<Longrightarrow> in_volume v (unat block * cache_bytes v) \<Longrightarrow> b"
proof -
  have g: "geometry v" and c: "cache_ok img v" and r: "reads_image img disk v" using ok by (simp_all add: volume_ok_def)
  have "volume_ok img disk v' \<and> same_but_cache v v' \<and> (b \<longrightarrow> cache_status v' = CACHE_READY \<and> cached_block v' = block)
    \<and> (b \<or> (reliable disk v \<longrightarrow> vol_base v + unat block * cache_bytes v < 2 ^ 64 \<longrightarrow> \<not> in_volume v (unat block * cache_bytes v)))"
  proof (cases rule: cache_block_cases [OF g, of block disk, case_names hit failed filled])
    case hit
    then show ?thesis using run ok by simp
  next
    case failed
    have "cache_ok img (cleared v)"
      using length_cleared [OF g c] same_but_cache_fields(9) [OF cleared_same, of v]
      unfolding cache_ok_def by (simp add: cleared_def)
    then have "volume_ok img disk (cleared v)"
      using g r by (simp add: volume_ok_def geometry_same [OF cleared_same] reads_image_same [OF cleared_same])
    then show ?thesis using run failed by auto
  next
    case (filled rs n bytes)
    let ?v = "(cleared v)\<lparr>cache := Some (bytes @ drop (length bytes) (the (cache (cleared v)))),
         cache_status := CACHE_READY, cached_block := block\<rparr>"
    have v': "v' = ?v" "b" using run filled(3) by simp_all
    have same: "same_but_cache v ?v" by (rule same_but_cache_trans [OF cleared_same]) simp
    note f = filled_cache [OF filled(1) r filled(2) _ _ length_cleared [OF g c]] same_but_cache_fields [OF cleared_same, of v]
    have "cache_ok img ?v"
      unfolding cache_ok_def same_but_cache_fields [OF same] using f(1,2) f(3,5) by simp
    then have "volume_ok img disk ?v"
      using g r by (simp add: volume_ok_def geometry_same [OF same] reads_image_same [OF same])
    then show ?thesis using v' same by simp
  qed
  then show "volume_ok img disk v'" and "same_but_cache v v'"
    and "b \<Longrightarrow> cache_status v' = CACHE_READY \<and> cached_block v' = block"
    and "reliable disk v \<Longrightarrow> vol_base v + unat block * cache_bytes v < 2 ^ 64 \<Longrightarrow> in_volume v (unat block * cache_bytes v) \<Longrightarrow> b"
    by auto
qed

section \<open>Reading\<close>

definition image_bytes :: "(nat \<Rightarrow> u8) \<Rightarrow> nat \<Rightarrow> nat \<Rightarrow> u8 list" where
  "image_bytes img a n = map (\<lambda>i. img (a + i)) [0..<n]"

lemma length_image_bytes [simp]: "length (image_bytes img a n) = n"
  by (simp add: image_bytes_def)

lemma image_bytes_append: "image_bytes img a m @ image_bytes img (a + m) n = image_bytes img a (m + n)"
  by (rule nth_equalityI) (auto simp: image_bytes_def nth_append)

text \<open>A range of bytes that can be asked for.\<close>

definition readable :: "volume \<Rightarrow> nat \<Rightarrow> nat \<Rightarrow> bool" where
  "readable v a n \<longleftrightarrow> vol_base v + a + n < 2 ^ 64 \<and> (sect_count v \<noteq> - 1 \<longrightarrow> a + n \<le> unat (sect_count v) * 512)"

lemma cached_bytes:
  assumes ok: "volume_ok img disk v" and st: "cache_status v = CACHE_READY"
    and x: "x = unat (cached_block v) * cache_bytes v + off" and n: "off + n \<le> cache_bytes v"
    and vol: "\<And>i. i < n \<Longrightarrow> in_volume v (x + i)"
  shows "take n (drop off (the (cache v))) = image_bytes img (vol_base v + x) n"
proof -
  from ok st obtain c where c: "cache v = Some c" "length c = cache_bytes v"
    "\<And>j. j < cache_bytes v \<Longrightarrow> in_volume v (unat (cached_block v) * cache_bytes v + j) \<Longrightarrow>
       c ! j = img (vol_base v + unat (cached_block v) * cache_bytes v + j)"
    by (auto simp: volume_ok_def cache_ok_def)
  show ?thesis
  proof (rule nth_equalityI)
    fix i
    assume "i < length (take n (drop off (the (cache v))))"
    then have i: "i < n" by simp
    then have "c ! (off + i) = img (vol_base v + unat (cached_block v) * cache_bytes v + (off + i))"
      using n vol [OF i] by (intro c(3)) (simp_all add: x add.assoc)
    then show "take n (drop off (the (cache v))) ! i = image_bytes img (vol_base v + x) n ! i"
      using i n c by (simp add: image_bytes_def x add.assoc)
  qed (use n c in simp)
qed

lemma volume_read_loop_ok:
  assumes "volume_ok img disk v" and "progress \<le> cnt" and "unat block_size = cache_bytes v"
    and "readable v (unat loc) (unat cnt)" and "buffer = image_bytes img (vol_base v + unat loc) (unat progress)"
    and "volume_read_loop disk v block_size loc cnt progress buffer = (v', r)"
  shows "volume_ok img disk v' \<and> same_but_cache v v'
    \<and> (r = None \<or> r = Some (image_bytes img (vol_base v + unat loc) (unat cnt))) \<and> (reliable disk v \<longrightarrow> r \<noteq> None)"
  using assms
proof (induction disk v block_size loc cnt progress buffer rule: volume_read_loop.induct)
  case (1 disk v block_size loc cnt progress buffer)
  note prems = 1(2-)
  have bs0: "0 < cache_bytes v" using prems(1) by (simp add: volume_ok_def geometry_def cache_bytes_def)
  then have bs: "block_size \<noteq> 0" using prems(3) by auto
  show ?case
  proof (cases "progress < cnt")
    case False
    then have "progress = cnt" using prems(2) by simp
    then show ?thesis using prems by (auto simp: volume_read_loop.simps)
  next
    case True
    let ?x = "loc + progress"
    have pc: "unat progress < unat cnt" using True by (simp add: word_less_nat_alt)
    have x: "unat ?x = unat loc + unat progress"
      using prems(4) pc by (subst unat_add_nowrap) (simp_all add: readable_def)
    have blk: "unat (?x div block_size) * cache_bytes v + unat ?x mod cache_bytes v = unat ?x"
      by (simp add: unat_div prems(3))
    obtain v1 ok where run: "cache_block disk v (?x div block_size) = (v1, ok)" by fastforce
    note c = cache_block_ok [OF prems(1) run]
    note same = same_but_cache_fields [OF c(2)]
    have inv: "in_volume v (unat ?x + i)" if "unat ?x + i < unat loc + unat cnt" for i
      using that prems(4) by (auto simp: in_volume_def readable_def)
    show ?thesis
    proof (cases ok)
      case False
      have "unat (?x div block_size) * cache_bytes v \<le> unat ?x" using blk by linarith
      then have "in_volume v (unat (?x div block_size) * cache_bytes v)" "vol_base v + unat (?x div block_size) * cache_bytes v < 2 ^ 64"
        using inv [of 0] x pc prems(4) by (auto simp: in_volume_def readable_def)
      then have "\<not> reliable disk v" using c(4) False by blast
      then show ?thesis using prems(6) True bs run False c(1,2) by (simp add: volume_read_loop.simps [of disk v])
    next
      case True
      note ch = chunk_facts [OF \<open>progress < cnt\<close> bs, of ?x]
      let ?o = "?x mod block_size"
      let ?chunk = "if cnt - progress > block_size - ?o then block_size - ?o else cnt - progress"
      let ?buf = "buffer @ take (unat ?chunk) (drop (unat ?o) (the (cache v1)))"
      have o: "unat ?o = unat ?x mod cache_bytes v" by (simp add: unat_mod prems(3))
      have "unat ?chunk \<le> cache_bytes v - unat ?o" using ch(5) prems(3) o by simp
      moreover have "unat ?o < cache_bytes v" unfolding o using bs0 by simp
      ultimately have n: "unat ?o + unat ?chunk \<le> cache_bytes v1" using same(9) by linarith
      have xx: "unat ?x = unat (cached_block v1) * cache_bytes v1 + unat ?o" using blk c(3) [OF True] o same(9) by simp
      have "take (unat ?chunk) (drop (unat ?o) (the (cache v1))) = image_bytes img (vol_base v1 + unat ?x) (unat ?chunk)"
        using c(3) [OF True] inv ch(4) x by (intro cached_bytes [OF c(1) _ xx n]) (simp_all add: same(10))
      then have buf: "?buf = image_bytes img (vol_base v1 + unat loc) (unat (progress + ?chunk))"
        unfolding prems(5) ch(2) x same(8) by (simp add: image_bytes_append add.assoc [symmetric])
      have nxt: "volume_read_loop disk v1 block_size loc cnt (progress + ?chunk) ?buf = (v', r)"
        using prems(6) \<open>progress < cnt\<close> bs run True by (simp add: volume_read_loop.simps [of disk v] Let_def)
      have "progress + ?chunk \<le> cnt" using ch(2,4) by (simp add: word_le_nat_alt)
      from 1(1) [OF _ bs run [symmetric] _ refl refl refl c(1) this _ _ buf nxt]
      have "volume_ok img disk v' \<and> same_but_cache v1 v'
          \<and> (r = None \<or> r = Some (image_bytes img (vol_base v1 + unat loc) (unat cnt))) \<and> (reliable disk v1 \<longrightarrow> r \<noteq> None)"
        using \<open>progress < cnt\<close> True prems(3,4) same by (simp add: readable_def)
      then show ?thesis using same_but_cache_trans [OF c(2)] reliable_same [OF c(2)] same(8) by auto
    qed
  qed
qed

text \<open>A read that the volume's size refuses.\<close>

definition out_of_bounds :: "volume \<Rightarrow> nat \<Rightarrow> nat \<Rightarrow> bool" where
  "out_of_bounds v a n \<longleftrightarrow> sect_count v \<noteq> - 1 \<and> (unat (sect_count v) * 512 \<le> a \<or> unat (sect_count v) * 512 < a + n)"

lemma volume_read_bounds:
  assumes "geometry v"
  shows "volume_read disk v loc cnt = Inr
    (if out_of_bounds v (unat loc) (unat cnt) then (v, None)
     else volume_read_loop disk v (fastest_xfer_size v * of_int (sector_size v)) loc cnt 0 [])"
proof (cases "sect_count v = - 1")
  case True
  then show ?thesis using assms by (simp add: volume_read_def geometry_def out_of_bounds_def)
next
  case False
  then have s: "unat (sect_count v) * 512 < 2 ^ 64" using assms by (simp add: geometry_def)
  then have m: "builtin_mul_overflow (sect_count v) 512 = Some (sect_count v * 512)"
    and u: "unat (sect_count v * 512) = unat (sect_count v) * 512"
    by (simp_all add: builtin_mul_overflow_def unat_mult_nowrap)
  have "cnt > sect_count v * 512 - loc \<longleftrightarrow> unat (sect_count v) * 512 < unat loc + unat cnt" if "\<not> loc \<ge> sect_count v * 512"
    using that by (auto simp: word_less_nat_alt word_le_nat_alt unat_sub u)
  then have "loc \<ge> sect_count v * 512 \<or> cnt > sect_count v * 512 - loc \<longleftrightarrow> out_of_bounds v (unat loc) (unat cnt)"
    using False unfolding out_of_bounds_def by (auto simp: word_le_nat_alt u)
  then show ?thesis using assms False m by (simp add: volume_read_def geometry_def Let_def)
qed

lemma volume_read_image:
  assumes ok: "volume_ok img disk v" and b: "vol_base v + unat loc + unat cnt < 2 ^ 64"
  obtains v' r where "volume_read disk v loc cnt = Inr (v', r)" "volume_ok img disk v'" "same_but_cache v v'"
    "r = None \<or> r = Some (image_bytes img (vol_base v + unat loc) (unat cnt)) \<and> \<not> out_of_bounds v (unat loc) (unat cnt)"
    "reliable disk v \<longrightarrow> (r = None \<longleftrightarrow> out_of_bounds v (unat loc) (unat cnt))"
proof (cases "out_of_bounds v (unat loc) (unat cnt)")
  case True
  then show thesis using ok by (intro that [of v None]) (simp_all add: volume_read_bounds volume_ok_def)
next
  case False
  have g: "geometry v" using ok by (simp add: volume_ok_def)
  obtain v' r where run: "volume_read_loop disk v (fastest_xfer_size v * of_int (sector_size v)) loc cnt 0 [] = (v', r)"
    by fastforce
  have "readable v (unat loc) (unat cnt)" using False b by (auto simp: readable_def out_of_bounds_def)
  from volume_read_loop_ok [OF ok _ geometry_words(2) [OF g] this _ run] show thesis
    using False g run by (intro that [of v' r]) (auto simp: volume_read_bounds image_bytes_def)
qed

text \<open>C6: Over a disk that stores an image, a read returns the bytes of the image at that place of the volume, whatever the
  cache holds, and leaves the cache consistent; a read beyond the end of the volume is refused. On a disk without faults no other
  read fails.\<close>

theorem volume_read_correct:
  assumes "volume_ok img disk v" and "vol_base v + unat loc + unat cnt < 2 ^ 64"
  shows "\<exists>v' r. volume_read disk v loc cnt = Inr (v', r) \<and> volume_ok img disk v' \<and> same_but_cache v v'
    \<and> (r = None \<or> r = Some (image_bytes img (vol_base v + unat loc) (unat cnt)) \<and> \<not> out_of_bounds v (unat loc) (unat cnt))
    \<and> (reliable disk v \<longrightarrow> (r = None \<longleftrightarrow> out_of_bounds v (unat loc) (unat cnt)))"
  by (rule volume_read_image [OF assms]) blast

text \<open>A disk of four sectors of 512 bytes that stores an image, as an instance.\<close>

definition sample_image :: "nat \<Rightarrow> u8" where
  "sample_image a = of_nat a"

definition sample_disk :: disk where
  "sample_disk v block n =
     Some (map (\<lambda>i. sample_image (unat block * (512 * sect_units v) + i)) [0..<unat n * (512 * sect_units v)])"

definition sample_volume :: volume where
  "sample_volume = zero_volume\<lparr>sector_size := 512, fastest_xfer_size := 1, sect_count := 4\<rparr>"

lemma sample_volume_ok: "volume_ok sample_image sample_disk sample_volume" "reliable sample_disk sample_volume"
  by (simp_all add: volume_ok_def geometry_def cache_ok_def reads_image_def reliable_def sample_disk_def sample_volume_def
      zero_volume_def sect_units_def cache_bytes_def vol_base_def)

theorem volume_read_correct_witness:
  "\<exists>v'. volume_read sample_disk sample_volume 510 4 = Inr (v', Some [254, 255, 0, 1])"
proof -
  have "image_bytes sample_image 510 4 = [254, 255, 0, 1]"
    by code_simp
  then show ?thesis
    using volume_read_correct [OF sample_volume_ok(1), of 510 4] sample_volume_ok(2)
    by (simp add: sample_volume_def zero_volume_def vol_base_def out_of_bounds_def) blast
qed

section \<open>A volume that ends inside a sector\<close>

text \<open>When the size of a volume is not a multiple of its sector size, the last partial sector passes the bounds check of
  \<^verbatim>\<open>volume_read\<close>, but \<^verbatim>\<open>cache_block\<close> rounds the size down to whole sectors and does not read it: the bytes come
  from whatever the cache held. Here a volume of five 512-byte units on a disk with sectors of 2048 bytes, a fresh cache, and a
  disk of ones: the read succeeds with a zero.\<close>

lemma volume_read_partial_sector:
  "\<exists>v'. volume_read (\<lambda>v block n. Some (replicate (unat n * 2048) 1))
     (zero_volume\<lparr>sector_size := 2048, fastest_xfer_size := 2, sect_count := 5\<rparr>) 2048 1 = Inr (v', Some [0])"
  by (simp add: volume_read_def builtin_mul_overflow_def volume_read_loop.simps cache_block_def Let_def zero_volume_def
      builtin_add_overflow_def signed_divide_int_def)

end
