(* ===== verification/Partitions.thy ===== *)
theory Partitions
  imports Volume_Read
begin

text \<open>
  The partition tables over an image: what \<^verbatim>\<open>part_get\<close> finds in a GUID partition table, and the chain of
  logical partitions it follows in a master boot record.
\<close>

section \<open>Reads of a healthy disk\<close>

text \<open>A volume of known size on a disk without faults reads as a function of its image.\<close>

definition healthy :: "(nat \<Rightarrow> u8) \<Rightarrow> disk \<Rightarrow> volume \<Rightarrow> bool" where
  "healthy img disk v \<longleftrightarrow> volume_ok img disk v \<and> reliable disk v \<and> sect_count v \<noteq> - 1"

definition image_read :: "(nat \<Rightarrow> u8) \<Rightarrow> volume \<Rightarrow> u64 \<Rightarrow> u64 \<Rightarrow> u8 list option" where
  "image_read img v loc n =
     (if out_of_bounds v (unat loc) (unat n) then None else Some (image_bytes img (vol_base v + unat loc) (unat n)))"

lemma image_read_same: "same_but_cache v v' \<Longrightarrow> image_read img v' = image_read img v"
  by (simp add: image_read_def out_of_bounds_def same_but_cache_fields fun_eq_iff)

lemma healthy_read:
  assumes "healthy img disk v"
  obtains v' where "volume_read disk v loc n = Inr (v', image_read img v loc n)" "healthy img disk v'" "same_but_cache v v'"
proof (cases "out_of_bounds v (unat loc) (unat n)")
  case True
  then show thesis using assms
    by (intro that [of v]) (simp_all add: volume_read_bounds healthy_def volume_ok_def image_read_def)
next
  case False
  have ok: "volume_ok img disk v" using assms by (simp add: healthy_def)
  have "vol_base v + unat loc + unat n < 2 ^ 64"
    using False assms by (auto simp: healthy_def volume_ok_def geometry_def out_of_bounds_def)
  with ok obtain v' r where "volume_read disk v loc n = Inr (v', r)" "volume_ok img disk v'" "same_but_cache v v'"
    "r = None \<or> r = Some (image_bytes img (vol_base v + unat loc) (unat n)) \<and> \<not> out_of_bounds v (unat loc) (unat n)"
    "reliable disk v \<longrightarrow> (r = None \<longleftrightarrow> out_of_bounds v (unat loc) (unat n))"
    by (rule volume_read_image)
  then show thesis using assms False reliable_same [of v v'] same_but_cache_fields(5) [of v v']
    by (intro that [of v']) (auto simp: healthy_def image_read_def)
qed

section \<open>GUID partition table\<close>

definition gpt_header_at :: "(nat \<Rightarrow> u8) \<Rightarrow> volume \<Rightarrow> u64 \<Rightarrow> gpt_table_header option" where
  "gpt_header_at img v lb =
     (case image_read img v lb 92 of
        None \<Rightarrow> None
      | Some bytes \<Rightarrow> if gh_signature (gpt_table_header_of bytes) = text_bytes ''EFI PART'' then Some (gpt_table_header_of bytes) else None)"

text \<open>The table of a volume and its block size: the one behind a block of 512 bytes comes first.\<close>

definition gpt_table :: "(nat \<Rightarrow> u8) \<Rightarrow> volume \<Rightarrow> (gpt_table_header \<times> u64) option" where
  "gpt_table img v =
     (case gpt_header_at img v 512 of
        Some h \<Rightarrow> Some (h, 512)
      | None \<Rightarrow> (case gpt_header_at img v 4096 of Some h \<Rightarrow> Some (h, 4096) | None \<Rightarrow> None))"

lemma gpt_header_at_same: "same_but_cache v v' \<Longrightarrow> gpt_header_at img v' lb = gpt_header_at img v lb"
  by (simp add: gpt_header_at_def image_read_same)

lemma find_header_step:
  assumes "healthy img disk v"
  obtains v' where "healthy img disk v'" "same_but_cache v v'"
    "gpt_find_header disk v (lb # lbs) =
      (case gpt_header_at img v lb of Some h \<Rightarrow> Inr (v', Some (h, lb)) | None \<Rightarrow> gpt_find_header disk v' lbs)"
proof -
  from healthy_read [OF assms, of lb 92] obtain v' where "volume_read disk v lb 92 = Inr (v', image_read img v lb 92)"
    "healthy img disk v'" "same_but_cache v v'" .
  then show thesis by (intro that [of v']) (auto simp: gpt_header_at_def split: option.splits)
qed

lemma find_header:
  assumes "healthy img disk v"
  obtains v' where "gpt_find_header disk v lb_guesses = Inr (v', gpt_table img v)" "healthy img disk v'" "same_but_cache v v'"
proof -
  from find_header_step [OF assms, of 512 "[4096]"] obtain v1 where v1: "healthy img disk v1" "same_but_cache v v1"
    "gpt_find_header disk v [512, 4096] =
      (case gpt_header_at img v 512 of Some h \<Rightarrow> Inr (v1, Some (h, 512)) | None \<Rightarrow> gpt_find_header disk v1 [4096])" .
  from find_header_step [OF v1(1), of 4096 "[]"] obtain v2 where v2: "healthy img disk v2" "same_but_cache v1 v2"
    "gpt_find_header disk v1 [4096] =
      (case gpt_header_at img v1 4096 of Some h \<Rightarrow> Inr (v2, Some (h, 4096)) | None \<Rightarrow> gpt_find_header disk v2 [])" .
  show thesis
  proof (cases "gpt_header_at img v 512")
    case (Some h)
    then show thesis using v1 by (intro that [of v1]) (simp_all add: lb_guesses_def gpt_table_def)
  next
    case None
    then show thesis using v1 v2 same_but_cache_trans [OF v1(2) v2(2)]
      by (intro that [of v2]) (auto simp: lb_guesses_def gpt_table_def gpt_header_at_same [OF v1(2)] split: option.split)
  qed
qed

text \<open>What a table says of partition \<open>p\<close>, over the natural numbers and the bytes of the image.\<close>

datatype gpt_answer = Refused part_result | Found nat nat "u8 list"

definition gpt_extent :: "gpt_entry \<Rightarrow> nat \<Rightarrow> gpt_answer" where
  "gpt_extent e m =
     (let s = unat (ge_starting_lba e); t = unat (ge_ending_lba e) in
      if ge_unique_partition_guid e \<noteq> replicate 16 0 \<and> s \<le> t \<and> s * m < 2 ^ 64 \<and> (t - s + 1) * m < 2 ^ 64
      then Found (s * m) ((t - s + 1) * m) (ge_unique_partition_guid e) else Refused NO_PARTITION)"

definition gpt_partition :: "(nat \<Rightarrow> u8) \<Rightarrow> volume \<Rightarrow> nat \<Rightarrow> gpt_answer" where
  "gpt_partition img v p =
     (case gpt_table img v of
        None \<Rightarrow> Refused INVALID_TABLE
      | Some (h, lb) \<Rightarrow>
          let off = unat (gh_partition_entry_lba h) * unat lb + p * unat (gh_size_of_partition_entry h) in
          if gh_revision h \<noteq> 0x00010000 then Refused INVALID_TABLE
          else if unat (gh_number_of_partition_entries h) \<le> p then Refused END_OF_TABLE
          else if unat (gh_size_of_partition_entry h) < 128 \<or> 2 ^ 64 \<le> off then Refused INVALID_TABLE
          else if out_of_bounds v off 128 then Refused END_OF_TABLE
          else gpt_extent (gpt_entry_of (image_bytes img (vol_base v + off) 128)) (unat lb div 512))"

text \<open>The geometry the code computes in 64 bits is the exact one, and it is refused when it does not fit.\<close>

lemma memcmp_zero_iff: "length xs = n \<Longrightarrow> length ys = n \<Longrightarrow> memcmp xs ys n = 0 \<longleftrightarrow> xs = ys"
proof (induction xs arbitrary: ys n)
  case (Cons a xs)
  then show ?case by (cases ys; cases n) auto
qed simp

lemma gpt_entry_geometry_exact:
  assumes g: "length (ge_unique_partition_guid e) = 16" and m: "0 < unat (lb div 512)"
  shows "gpt_extent e (unat (lb div 512)) =
    (case gpt_entry_geometry e lb of None \<Rightarrow> Refused NO_PARTITION
     | Some (first, cnt) \<Rightarrow> Found (unat first) (unat cnt) (ge_unique_partition_guid e))"
proof (cases "ge_unique_partition_guid e = replicate 16 0 \<or> ge_ending_lba e < ge_starting_lba e")
  case True
  then show ?thesis using memcmp_zero_iff [OF g, of "replicate 16 0"]
    by (auto simp: gpt_extent_def gpt_entry_geometry_def word_less_nat_alt)
next
  case False
  let ?s = "unat (ge_starting_lba e)" and ?t = "unat (ge_ending_lba e)" and ?m = "unat (lb div 512)"
  let ?d = "ge_ending_lba e - ge_starting_lba e"
  have le: "ge_starting_lba e \<le> ge_ending_lba e" using False by (simp add: not_less)
  then have st: "?s \<le> ?t" by (simp add: word_le_nat_alt)
  have d: "unat ?d = ?t - ?s" using le by (rule unat_sub)
  have max: "?d = - 1 \<longleftrightarrow> ?t - ?s + 1 = 2 ^ 64" using d unat_all_ones by (auto simp: word_unat_eq_iff)
  show ?thesis
  proof (cases "?d = - 1")
    case True
    then have "2 ^ 64 \<le> (?t - ?s + 1) * ?m" using max m by simp
    then show ?thesis using True False memcmp_zero_iff [OF g, of "replicate 16 0"]
      by (auto simp: gpt_extent_def gpt_entry_geometry_def Let_def split: option.split)
  next
    case neq: False
    then have "?t - ?s + 1 < 2 ^ 64" using max u64_bound [of "ge_ending_lba e"] by linarith
    then have add: "unat (?d + 1) = ?t - ?s + 1" using d by (subst unat_add_nowrap) simp_all
    show ?thesis using False neq st add memcmp_zero_iff [OF g, of "replicate 16 0"]
      by (auto simp: gpt_extent_def gpt_entry_geometry_def builtin_mul_overflow_def Let_def unat_mult_nowrap)
  qed
qed

lemma gpt_table_size: "gpt_table img v = Some (h, lb) \<Longrightarrow> lb = 512 \<or> lb = 4096"
  by (auto simp: gpt_table_def split: option.splits)

lemma entry_offset:
  fixes lba lb :: u64 and sz :: u32
  assumes p: "p < 2 ^ 31"
  defines "off \<equiv> unat lba * unat lb + p * unat sz"
  shows "(case builtin_mul_overflow lba lb of None \<Rightarrow> x
      | Some a \<Rightarrow> (case builtin_add_overflow a (of_int (int p) * ucast sz) of None \<Rightarrow> x | Some b \<Rightarrow> f b)) =
    (if off < 2 ^ 64 then f (of_nat off) else x)"
proof -
  have s: "unat (ucast sz :: u64) = unat sz" by (rule unat_ucast_up) simp
  have pp: "unat (of_nat p :: u64) = p" using p by (simp add: unat_of_nat_small)
  have "p * unat sz \<le> 2 ^ 31 * 2 ^ 32" using p unsigned_less [of sz, where ?'a = nat] by (intro mult_le_mono) simp_all
  then have "p * unat sz < 2 ^ 64" by simp
  then have q: "unat (of_nat p * ucast sz :: u64) = p * unat sz" using pp s by (subst unat_mult_nowrap) simp_all
  have "of_nat off = lba * lb + of_nat p * ucast sz" by (simp add: off_def of_nat_unat)
  then show ?thesis using q by (auto simp: builtin_mul_overflow_def builtin_add_overflow_def unat_mult_nowrap off_def)
qed

text \<open>What the code asks of \<^verbatim>\<open>fs_get_label\<close>: a search of a label reads the volume, so it changes the cache only.\<close>

definition label_reader :: "(volume \<Rightarrow> volume \<times> string option) \<Rightarrow> bool" where
  "label_reader fs_get_label \<longleftrightarrow> (\<forall>v. same_but_cache v (fst (fs_get_label v)))"

lemma identify_fields:
  assumes "label_reader fs_get_label"
  shows "first_sect (identify fs_get_label r) = first_sect r" "sect_count (identify fs_get_label r) = sect_count r"
    "vol_partition (identify fs_get_label r) = vol_partition r" "drive (identify fs_get_label r) = drive r"
    "sector_size (identify fs_get_label r) = sector_size r" "backing_dev (identify fs_get_label r) = backing_dev r"
    "vol_index (identify fs_get_label r) = vol_index r" "is_optical (identify fs_get_label r) = is_optical r"
    "fastest_xfer_size (identify fs_get_label r) = fastest_xfer_size r"
proof -
  obtain r' l where f: "fs_get_label (r\<lparr>guid_valid := False\<rparr>) = (r', l)" by fastforce
  then have s: "same_but_cache (r\<lparr>guid_valid := False\<rparr>) r'" using assms unfolding label_reader_def by (metis fst_conv)
  then have p: "vol_partition r' = vol_partition r" by (subst s [unfolded same_but_cache_def]) simp
  note s = same_but_cache_fields [OF s]
  show "first_sect (identify fs_get_label r) = first_sect r" "sect_count (identify fs_get_label r) = sect_count r"
    "vol_partition (identify fs_get_label r) = vol_partition r" "drive (identify fs_get_label r) = drive r"
    "sector_size (identify fs_get_label r) = sector_size r" "backing_dev (identify fs_get_label r) = backing_dev r"
    "vol_index (identify fs_get_label r) = vol_index r" "is_optical (identify fs_get_label r) = is_optical r"
    "fastest_xfer_size (identify fs_get_label r) = fastest_xfer_size r"
    unfolding identify_def Let_def fs_get_guid_def using s p f by (auto split: option.split)
qed

text \<open>The answer of the code for an answer of the table.\<close>

definition gpt_found :: "volume \<Rightarrow> u64 \<Rightarrow> nat \<Rightarrow> gpt_answer \<Rightarrow> part_result \<Rightarrow> bool" where
  "gpt_found v ptr p ans r \<longleftrightarrow>
     (case ans of
        Refused why \<Rightarrow> r = why
      | Found first cnt guid \<Rightarrow>
          (\<exists>q. r = Part q \<and> unat (first_sect q) = first \<and> unat (sect_count q) = cnt
             \<and> vol_partition q = int p + 1 \<and> part_guid_valid q \<and> part_guid q = guid
             \<and> drive q = drive v \<and> sector_size q = sector_size v \<and> vol_index q = vol_index v
             \<and> is_optical q = is_optical v \<and> fastest_xfer_size q = fastest_xfer_size v \<and> backing_dev q = ptr))"

lemma gpt_get_part_image:
  assumes h: "healthy img disk v" and l: "label_reader fs_get_label" and p: "p < 2 ^ 31"
  obtains v' r where "gpt_get_part disk fs_get_label ptr ret v (int p) = Inr (v', r)" "same_but_cache v v'"
    "gpt_found v ptr p (gpt_partition img v p) r"
proof -
  from find_header [OF h] obtain v1 where v1: "gpt_find_header disk v lb_guesses = Inr (v1, gpt_table img v)"
    "healthy img disk v1" "same_but_cache v v1" .
  show thesis
  proof (cases "gpt_table img v")
    case None
    then show thesis using v1 by (intro that) (simp_all add: gpt_get_part_def gpt_partition_def gpt_found_def)
  next
    case (Some t)
    then obtain hd lb where t: "gpt_table img v = Some (hd, lb)" by (cases t) auto
    have lb: "unat (lb div 512) = unat lb div 512" "0 < unat lb div 512" using gpt_table_size [OF t] by (auto simp: unat_div)
    define off where "off = unat (gh_partition_entry_lba hd) * unat lb + p * unat (gh_size_of_partition_entry hd)"
    let ?e = "gpt_entry_of (image_bytes img (vol_base v + off) 128)"
    from healthy_read [OF v1(2), of "of_nat off" 128] obtain v2 where
      v2: "volume_read disk v1 (of_nat off) 128 = Inr (v2, image_read img v1 (of_nat off) 128)" "same_but_cache v1 v2" .
    have s2: "same_but_cache v v2" by (rule same_but_cache_trans [OF v1(3) v2(2)])
    have "unat (of_nat p :: u32) = p" using p by (simp add: unat_of_nat_small)
    then have n: "(of_nat p :: u32) \<ge> gh_number_of_partition_entries hd \<longleftrightarrow> unat (gh_number_of_partition_entries hd) \<le> p"
      "gh_size_of_partition_entry hd < 128 \<longleftrightarrow> unat (gh_size_of_partition_entry hd) < 128"
      by (simp_all add: word_le_nat_alt word_less_nat_alt)
    have g: "gpt_extent ?e (unat lb div 512) = (case gpt_entry_geometry ?e lb of None \<Rightarrow> Refused NO_PARTITION
        | Some (first, cnt) \<Rightarrow> Found (unat first) (unat cnt) (ge_unique_partition_guid ?e))"
      using gpt_entry_geometry_exact [of ?e lb] lb by (simp add: gpt_entry_of_def bytes_field_def image_bytes_def)
    let ?bad = "gh_revision hd \<noteq> 0x00010000 \<or> unat (gh_number_of_partition_entries hd) \<le> p
      \<or> unat (gh_size_of_partition_entry hd) < 128 \<or> 2 ^ 64 \<le> off"
    note eval = gpt_get_part_def v1(1) t n entry_offset [OF p, folded off_def] gpt_partition_def gpt_found_def off_def [symmetric] Let_def
    show thesis
    proof (cases ?bad)
      case True
      then show thesis using v1(3)
        by (intro that [of v1 "case gpt_partition img v p of Refused why \<Rightarrow> why | Found _ _ _ \<Rightarrow> NO_PARTITION"]) (auto simp: eval)
    next
      case ok: False
      have u: "unat (of_nat off :: u64) = off" using ok by (intro unat_of_nat_small) simp
      have rd: "image_read img v1 (of_nat off) 128 =
          (if out_of_bounds v off 128 then None else Some (image_bytes img (vol_base v + off) 128))"
        unfolding image_read_same [OF v1(3)] image_read_def u by simp
      show thesis
      proof (cases "out_of_bounds v off 128 \<or> gpt_entry_geometry ?e lb = None")
        case True
        then show thesis using ok s2 v2(1) rd g
          by (intro that [of v2 "if out_of_bounds v off 128 then END_OF_TABLE else NO_PARTITION"]) (auto simp: eval)
      next
        case False
        then obtain first cnt where "gpt_entry_geometry ?e lb = Some (first, cnt)" by auto
        then show thesis using ok False s2 v2(1) rd g identify_fields [OF l] same_but_cache_fields [OF s2]
          by (intro that [of v2]) (auto simp: eval)
      qed
    qed
  qed
qed

text \<open>C7: On a healthy disk \<^verbatim>\<open>part_get\<close> answers what the GUID partition table says, for every table and every number:
  a partition whose sectors are those of the blocks from the starting to the ending address of the entry, in exact
  arithmetic, when the entry is in use, is not reversed and its sectors fit in 64 bits; a refusal otherwise. Only a
  volume without a valid table is looked up in the master boot record.\<close>

theorem gpt_partition_found:
  assumes h: "healthy img disk v" and l: "label_reader fs_get_label" and p: "p < 2 ^ 31"
  shows "\<exists>v' r. gpt_get_part disk fs_get_label ptr ret v (int p) = Inr (v', r) \<and> same_but_cache v v'
    \<and> gpt_found v ptr p (gpt_partition img v p) r
    \<and> part_get disk fs_get_label ptr ret v (int p) =
        (if r = INVALID_TABLE then mbr_get_part disk fs_get_label ptr ret v' (int p) else Inr (v', r))"
proof -
  from gpt_get_part_image [OF assms] obtain v' r where g: "gpt_get_part disk fs_get_label ptr ret v (int p) = Inr (v', r)"
    "same_but_cache v v'" "gpt_found v ptr p (gpt_partition img v p) r" .
  have "bind_res x (\<lambda>(v, ret). if ret \<noteq> INVALID_TABLE then Inr (v, ret) else Inr (v, INVALID_TABLE)) = x"
    for x :: "(volume \<times> part_result) res" by (cases x) auto
  then show ?thesis using g by (intro exI [of _ v'] exI [of _ r]) (simp add: part_get_def)
qed

text \<open>A disk of eight sectors with a table of one entry, blocks 3 to 6.\<close>

definition gpt_header_bytes :: "u8 list" where
  "gpt_header_bytes =
     text_bytes ''EFI PART'' @ [0, 0, 1, 0] @ replicate 60 0 @ [2, 0, 0, 0, 0, 0, 0, 0] @ [1, 0, 0, 0] @ [128, 0, 0, 0] @ [0, 0, 0, 0]"

definition gpt_entry_bytes :: "u8 list" where
  "gpt_entry_bytes = replicate 16 0 @ (7 # replicate 15 0) @ [3, 0, 0, 0, 0, 0, 0, 0] @ [6, 0, 0, 0, 0, 0, 0, 0] @ replicate 80 0"

definition gpt_image :: "nat \<Rightarrow> u8" where
  "gpt_image a =
     (if 512 \<le> a \<and> a < 604 then gpt_header_bytes ! (a - 512)
      else if 1024 \<le> a \<and> a < 1152 then gpt_entry_bytes ! (a - 1024) else 0)"

definition image_disk :: "(nat \<Rightarrow> u8) \<Rightarrow> disk" where
  "image_disk img v block n =
     Some (map (\<lambda>i. img (unat block * (512 * sect_units v) + i)) [0..<unat n * (512 * sect_units v)])"

definition eight_sectors :: volume where
  "eight_sectors = zero_volume\<lparr>sector_size := 512, fastest_xfer_size := 4, sect_count := 8\<rparr>"

lemma healthy_eight_sectors: "healthy img (image_disk img) eight_sectors"
  by (simp add: healthy_def volume_ok_def geometry_def cache_ok_def reads_image_def reliable_def image_disk_def
      eight_sectors_def zero_volume_def sect_units_def cache_bytes_def vol_base_def)

lemma image_bytesI: "length xs = n \<Longrightarrow> (\<And>i. i < n \<Longrightarrow> img (a + i) = xs ! i) \<Longrightarrow> image_bytes img a n = xs"
  by (rule nth_equalityI) (simp_all add: image_bytes_def)

lemma gpt_image_bytes: "image_bytes gpt_image 512 92 = gpt_header_bytes" "image_bytes gpt_image 1024 128 = gpt_entry_bytes"
  by (rule image_bytesI, simp add: gpt_header_bytes_def gpt_entry_bytes_def text_bytes_def, simp add: gpt_image_def)+

lemma gpt_image_header:
  "gh_signature (gpt_table_header_of gpt_header_bytes) = text_bytes ''EFI PART''"
  "gh_revision (gpt_table_header_of gpt_header_bytes) = 0x00010000"
  "gh_number_of_partition_entries (gpt_table_header_of gpt_header_bytes) = 1"
  "gh_size_of_partition_entry (gpt_table_header_of gpt_header_bytes) = 128"
  "gh_partition_entry_lba (gpt_table_header_of gpt_header_bytes) = 2"
  by (simp_all add: gpt_table_header_of_def gpt_header_bytes_def le_field_def bytes_field_def text_bytes_def)

lemma gpt_image_partition:
  "gpt_partition gpt_image eight_sectors 0 = Found 3 4 (7 # replicate 15 0)"
  "gpt_partition gpt_image eight_sectors 1 = Refused END_OF_TABLE"
proof -
  have t: "gpt_table gpt_image eight_sectors = Some (gpt_table_header_of gpt_header_bytes, 512)"
    by (simp add: gpt_table_def gpt_header_at_def image_read_def out_of_bounds_def eight_sectors_def vol_base_def zero_volume_def
        gpt_image_bytes gpt_image_header)
  have s: "Suc 15 = 16" by simp
  have "7 # replicate 15 (0 :: u8) \<noteq> replicate (Suc 15) 0" by (simp only: replicate_Suc) simp
  then have "7 # replicate 15 (0 :: u8) \<noteq> replicate 16 0" unfolding s .
  then show "gpt_partition gpt_image eight_sectors 0 = Found 3 4 (7 # replicate 15 0)"
    unfolding gpt_partition_def t
    by (simp add: gpt_image_header gpt_image_bytes out_of_bounds_def eight_sectors_def vol_base_def
        zero_volume_def gpt_extent_def gpt_entry_of_def gpt_entry_bytes_def le_field_def bytes_field_def)
  show "gpt_partition gpt_image eight_sectors 1 = Refused END_OF_TABLE"
    by (simp add: gpt_partition_def t gpt_image_header)
qed

theorem gpt_partition_found_witness:
  "\<exists>v' q. part_get (image_disk gpt_image) (\<lambda>v. (v, None)) 42 zero_volume eight_sectors 0 = Inr (v', Part q)
    \<and> unat (first_sect q) = 3 \<and> unat (sect_count q) = 4 \<and> vol_partition q = 1"
  using gpt_partition_found [OF healthy_eight_sectors, of "\<lambda>v. (v, None)" 0 gpt_image 42 zero_volume]
  by (auto simp: gpt_image_partition label_reader_def gpt_found_def)

section \<open>Logical partitions\<close>

text \<open>The chain of extended boot records: \<open>ebr_chain img v n s\<close> when the \<open>n\<close>th link is at sector \<open>s\<close> of the
  extended partition. Each link after the first lies behind the one before, and all of them inside the partition.\<close>

inductive ebr_chain :: "(nat \<Rightarrow> u8) \<Rightarrow> volume \<Rightarrow> nat \<Rightarrow> u64 \<Rightarrow> bool" for img v where
  ebr_first: "ebr_chain img v 0 0"
| ebr_link: "ebr_chain img v n s \<Longrightarrow> image_read img v (s * 512 + 0x1ce) 16 = Some bytes \<Longrightarrow>
    me_part_type (mbr_entry_of bytes) \<in> {0x0f, 0x05} \<Longrightarrow> s' = ucast (me_first_sect (mbr_entry_of bytes)) \<Longrightarrow>
    s' \<noteq> 0 \<Longrightarrow> 0 < n \<longrightarrow> s < s' \<Longrightarrow> s' < sect_count v \<Longrightarrow> ebr_chain img v (Suc n) s'"

inductive_cases ebr_chain_SucE: "ebr_chain img v (Suc n) s'"
inductive_simps ebr_chain_0: "ebr_chain img v 0 s"

lemma ebr_chain_same: "ebr_chain img v n s \<Longrightarrow> same_but_cache v v' \<Longrightarrow> ebr_chain img v' n s"
proof (induction rule: ebr_chain.induct)
  case (ebr_link n s bytes s')
  show ?case
    by (rule ebr_chain.ebr_link [OF ebr_link.IH [OF ebr_link.prems]])
      (use ebr_link image_read_same [OF ebr_link.prems] same_but_cache_fields(5) [OF ebr_link.prems] in simp_all)
qed (rule ebr_first)

lemma ebr_chain_unique: "ebr_chain img v n s \<Longrightarrow> ebr_chain img v n t \<Longrightarrow> s = t"
proof (induction n arbitrary: s t)
  case (Suc n)
  from Suc.prems(1) obtain a b where a: "ebr_chain img v n a" "image_read img v (a * 512 + 0x1ce) 16 = Some b"
    "s = ucast (me_first_sect (mbr_entry_of b))" by (auto elim: ebr_chain_SucE)
  from Suc.prems(2) obtain c d where c: "ebr_chain img v n c" "image_read img v (c * 512 + 0x1ce) 16 = Some d"
    "t = ucast (me_first_sect (mbr_entry_of d))" by (auto elim: ebr_chain_SucE)
  have "a = c" using Suc.IH a(1) c(1) by blast
  then show ?case using a c by simp
qed (simp add: ebr_chain_0)

text \<open>A chain cannot turn back: its \<open>n\<close>th link lies at sector \<open>n\<close> or later, so a circular chain ends.\<close>

lemma ebr_chain_advances: "ebr_chain img v n s \<Longrightarrow> n \<le> unat s \<and> (0 < n \<longrightarrow> s < sect_count v)"
proof (induction rule: ebr_chain.induct)
  case (ebr_link n s bytes s')
  have "0 < unat s'" using ebr_link.hyps(5) unat_eq_zero [of s'] by simp
  then show ?case using ebr_link by (cases n) (auto simp: word_less_nat_alt)
qed simp

lemma ebr_chain_next:
  assumes "ebr_chain img v i s"
  shows "ebr_chain img v (Suc i) t \<longleftrightarrow> (\<exists>bytes. image_read img v (s * 512 + 0x1ce) 16 = Some bytes
      \<and> me_part_type (mbr_entry_of bytes) \<in> {0x0f, 0x05} \<and> t = ucast (me_first_sect (mbr_entry_of bytes))
      \<and> t \<noteq> 0 \<and> (0 < i \<longrightarrow> s < t) \<and> t < sect_count v)" (is "_ \<longleftrightarrow> ?R")
proof
  assume "ebr_chain img v (Suc i) t"
  then show ?R
  proof (cases rule: ebr_chain.cases)
    case (ebr_link u bytes)
    then have "u = s" using assms ebr_chain_unique by blast
    then show ?R using ebr_link by blast
  qed
next
  assume ?R
  then show "ebr_chain img v (Suc i) t" using ebr_link [OF assms] by blast
qed

lemma ebr_chain_prefix: "ebr_chain img v (i + Suc n) u \<Longrightarrow> \<exists>w. ebr_chain img v (Suc i) w"
proof (induction n arbitrary: u)
  case (Suc n)
  from Suc.prems show ?case unfolding add_Suc_right by (rule ebr_chain_SucE) (use Suc.IH in \<open>simp add: add_Suc_right\<close>)
qed auto

lemma ebr_walk_chain:
  assumes "healthy img disk v" and "ebr_chain img v i s"
  shows "\<exists>v' r. ebr_walk disk v n i s = Inr (v', r) \<and> healthy img disk v' \<and> same_but_cache v v'
    \<and> (\<forall>t. r = Some t \<longleftrightarrow> ebr_chain img v (i + n) t)"
  using assms
proof (induction n arbitrary: v i s)
  case 0
  have "Some s = Some t \<longleftrightarrow> ebr_chain img v i t" for t using 0(2) ebr_chain_unique by blast
  then show ?case using 0 by auto
next
  case (Suc n)
  from healthy_read [OF Suc.prems(1), of "s * 512 + 0x1ce" 16] obtain v1 where
    v1: "volume_read disk v (s * 512 + 0x1ce) 16 = Inr (v1, image_read img v (s * 512 + 0x1ce) 16)"
    "healthy img disk v1" "same_but_cache v v1" .
  note chain = ebr_chain_next [OF Suc.prems(2)]
  show ?case
  proof (cases "\<exists>t. ebr_chain img v (Suc i) t")
    case True
    then obtain t bytes where t: "ebr_chain img v (Suc i) t" "image_read img v (s * 512 + 0x1ce) 16 = Some bytes"
      "me_part_type (mbr_entry_of bytes) \<in> {0x0f, 0x05}" "t = ucast (me_first_sect (mbr_entry_of bytes))" "t \<noteq> 0"
      "0 < i \<longrightarrow> s < t" "t < sect_count v" unfolding chain by blast
    from Suc.IH [OF v1(2) ebr_chain_same [OF t(1) v1(3)]] obtain v' r where
      r: "ebr_walk disk v1 n (Suc i) t = Inr (v', r)" "healthy img disk v'" "same_but_cache v1 v'"
      "\<forall>u. r = Some u \<longleftrightarrow> ebr_chain img v1 (Suc i + n) u" by blast
    have eqv: "ebr_chain img v1 k u \<longleftrightarrow> ebr_chain img v k u" for k u
      using ebr_chain_same [OF _ v1(3)] ebr_chain_same [OF _ same_but_cache_sym [OF v1(3)]] by blast
    have "ebr_walk disk v (Suc n) i s = Inr (v', r)"
      using t(3-7) r(1) unfolding ebr_walk.simps v1(1) t(2) same_but_cache_fields(5) [OF v1(3)]
      by (simp add: Let_def not_le same_but_cache_fields(5) [OF v1(3)] flip: t(4)) auto
    moreover have "same_but_cache v v'" by (rule same_but_cache_trans [OF v1(3) r(3)])
    ultimately show ?thesis using r(2,4) unfolding eqv by auto
  next
    case False
    have "ebr_walk disk v (Suc n) i s = Inr (v1, None)"
    proof (cases "image_read img v (s * 512 + 0x1ce) 16")
      case None
      then show ?thesis by (simp add: v1(1))
    next
      case (Some bytes)
      then have "me_part_type (mbr_entry_of bytes) \<notin> {0x0f, 0x05} \<or> ucast (me_first_sect (mbr_entry_of bytes)) = (0 :: u64)
        \<or> (0 < i \<and> \<not> s < ucast (me_first_sect (mbr_entry_of bytes))) \<or> \<not> ucast (me_first_sect (mbr_entry_of bytes)) < sect_count v"
        using False unfolding chain by blast
      then show ?thesis using Some by (auto simp: v1(1) Let_def not_less same_but_cache_fields(5) [OF v1(3)])
    qed
    moreover have "\<not> ebr_chain img v (i + Suc n) u" for u
      using ebr_chain_prefix [of img v i n u] False by blast
    ultimately show ?thesis using v1 by auto
  qed
qed

text \<open>The \<open>p\<close>th logical partition: the entry in the \<open>p\<close>th boot record of the chain, in use and within 64 bits.\<close>

definition ebr_entry :: "(nat \<Rightarrow> u8) \<Rightarrow> volume \<Rightarrow> nat \<Rightarrow> u64 \<Rightarrow> mbr_entry \<Rightarrow> bool" where
  "ebr_entry img ext p s e \<longleftrightarrow>
     ebr_chain img ext p s \<and> (\<exists>bytes. image_read img ext (s * 512 + 0x1be) 16 = Some bytes \<and> e = mbr_entry_of bytes)"

definition logical_entry :: "(nat \<Rightarrow> u8) \<Rightarrow> volume \<Rightarrow> nat \<Rightarrow> u64 \<Rightarrow> mbr_entry \<Rightarrow> bool" where
  "logical_entry img ext p s e \<longleftrightarrow>
     ebr_entry img ext p s e \<and> me_part_type e \<noteq> 0 \<and> me_sect_count e \<noteq> 0
     \<and> unat (first_sect ext) + unat s + unat (me_first_sect e) + unat (me_sect_count e) < 2 ^ 64"

lemma logical_sums:
  fixes a b :: u64 and c d :: u32
  assumes "unat a + unat b + unat c + unat d < 2 ^ 64"
  shows "builtin_add_overflow a b = Some (a + b)" "builtin_add_overflow (a + b) (ucast c) = Some (a + b + ucast c)"
    "builtin_add_overflow (a + b + ucast c) (ucast d) = Some (a + b + ucast c + ucast d)"
    "unat (a + b + ucast c) = unat a + unat b + unat c"
proof -
  have u: "unat (ucast c :: u64) = unat c" "unat (ucast d :: u64) = unat d" by (rule unat_ucast_up; simp)+
  have 1: "unat (a + b) = unat a + unat b" using assms by (subst unat_add_nowrap) simp_all
  show 2: "unat (a + b + ucast c) = unat a + unat b + unat c"
    using assms 1 u by (subst unat_add_nowrap) simp_all
  show "builtin_add_overflow a b = Some (a + b)" "builtin_add_overflow (a + b) (ucast c) = Some (a + b + ucast c)"
    "builtin_add_overflow (a + b + ucast c) (ucast d) = Some (a + b + ucast c + ucast d)"
    using assms 1 2 u by (simp_all add: builtin_add_overflow_def)
qed

lemma logical_sums_overflow:
  fixes a b :: u64 and c d :: u32
  assumes "\<not> unat a + unat b + unat c + unat d < 2 ^ 64"
  shows "(case builtin_add_overflow a b of None \<Rightarrow> x | Some t \<Rightarrow>
     (case builtin_add_overflow t (ucast c) of None \<Rightarrow> x | Some t \<Rightarrow>
       (case builtin_add_overflow t (ucast d) of None \<Rightarrow> x | Some e \<Rightarrow> f t e))) = x"
proof -
  have u: "unat (ucast c :: u64) = unat c" "unat (ucast d :: u64) = unat d" by (rule unat_ucast_up; simp)+
  show ?thesis using assms u u64_bound [of "a + b + ucast c + ucast d"]
    by (auto simp: builtin_add_overflow_eq_Some split: option.split)
qed

text \<open>The search for a logical partition below the limit of 256.\<close>

lemma logical_partition_below:
  assumes h: "healthy img disk ext" and l: "label_reader fs_get_label" and p: "p < 256"
  shows "\<exists>r. mbr_get_logical_part disk fs_get_label ret ext (int p) = Inr r
    \<and> (\<forall>s e. logical_entry img ext p s e \<longrightarrow> p \<le> unat s \<and>
         (\<exists>q. r = Part q \<and> unat (first_sect q) = unat (first_sect ext) + unat s + unat (me_first_sect e)
            \<and> unat (sect_count q) = unat (me_sect_count e) \<and> vol_partition q = int p + 5 \<and> drive q = drive ext))
    \<and> (\<forall>s e. ebr_entry img ext p s e \<and> \<not> logical_entry img ext p s e \<longrightarrow> r = NO_PARTITION)
    \<and> ((\<nexists>s e. ebr_entry img ext p s e) \<longrightarrow> r = END_OF_TABLE)"
proof -
  note entry = logical_entry_def ebr_entry_def
  from ebr_walk_chain [OF h ebr_first, of p] obtain v1 w where
    w: "ebr_walk disk ext p 0 0 = Inr (v1, w)" "healthy img disk v1" "same_but_cache ext v1"
    "\<forall>t. w = Some t \<longleftrightarrow> ebr_chain img ext p t" by auto
  show ?thesis
  proof (cases w)
    case None
    then have "\<not> ebr_chain img ext p t" for t using w(4) by simp
    then show ?thesis using p w(1) None by (simp add: mbr_get_logical_part_def MAX_LOGICAL_PARTITIONS_def entry)
  next
    case (Some s)
    then have s: "ebr_chain img ext p s" "\<And>t. ebr_chain img ext p t \<Longrightarrow> t = s" using ebr_chain_unique w(4) by blast+
    note f1 = same_but_cache_fields [OF w(3)]
    from healthy_read [OF w(2), of "s * 512 + 0x1be" 16] obtain v2 where
      v2: "volume_read disk v1 (s * 512 + 0x1be) 16 = Inr (v2, image_read img ext (s * 512 + 0x1be) 16)" "same_but_cache v1 v2"
      unfolding image_read_same [OF w(3)] by blast
    note f2 = same_but_cache_fields [OF same_but_cache_trans [OF w(3) v2(2)]]
    show ?thesis
    proof (cases "image_read img ext (s * 512 + 0x1be) 16")
      case None
      then have "mbr_get_logical_part disk fs_get_label ret ext (int p) = Inr END_OF_TABLE"
        using p w(1) Some v2(1) by (simp add: mbr_get_logical_part_def MAX_LOGICAL_PARTITIONS_def)
      moreover have "\<not> ebr_entry img ext p s' e" for s' e
        using s(2) [of s'] None by (auto simp: entry)
      ultimately show ?thesis unfolding logical_entry_def by blast
    next
      case bytes: (Some bytes)
      let ?e = "mbr_entry_of bytes"
      have "ebr_entry img ext p s' e \<longleftrightarrow> s' = s \<and> e = ?e" for s' e
        using s(1) s(2) [of s'] bytes by (auto simp: ebr_entry_def)
      then have only: "ebr_entry img ext p = (\<lambda>s' e. s' = s \<and> e = ?e)" by (intro ext)
      show ?thesis
      proof (cases "logical_entry img ext p s ?e")
        case True
        then have c: "me_part_type ?e \<noteq> 0" "me_sect_count ?e \<noteq> 0"
          "unat (first_sect ext) + unat s + unat (me_first_sect ?e) + unat (me_sect_count ?e) < 2 ^ 64"
          by (simp_all add: entry)
        have u: "unat (ucast (me_sect_count ?e) :: u64) = unat (me_sect_count ?e)" by (rule unat_ucast_up) simp
        let ?q = "(identify fs_get_label (ret\<lparr>drive := drive v2, fastest_xfer_size := fastest_xfer_size v2,
             vol_index := vol_index v2, is_optical := is_optical v2, vol_partition := int p + 4 + 1, sector_size := sector_size v2,
             first_sect := first_sect ext + s + ucast (me_first_sect ?e), sect_count := ucast (me_sect_count ?e),
             backing_dev := backing_dev v2\<rparr>))\<lparr>part_guid_valid := False\<rparr>"
        have "mbr_get_logical_part disk fs_get_label ret ext (int p) = Inr (Part ?q)"
          using p w(1) Some v2(1) bytes c(1,2) logical_sums [OF c(3)] f2
          by (simp add: mbr_get_logical_part_def MAX_LOGICAL_PARTITIONS_def Let_def)
        moreover have "unat (first_sect ?q) = unat (first_sect ext) + unat s + unat (me_first_sect ?e)
            \<and> unat (sect_count ?q) = unat (me_sect_count ?e) \<and> vol_partition ?q = int p + 5 \<and> drive ?q = drive ext"
          using identify_fields [OF l] logical_sums(4) [OF c(3)] u f2 by simp
        ultimately show ?thesis using ebr_chain_advances [OF s(1)] True by (auto simp: only logical_entry_def)
      next
        case False
        have "mbr_get_logical_part disk fs_get_label ret ext (int p) = Inr NO_PARTITION"
        proof (cases "me_part_type ?e = 0 \<or> me_sect_count ?e = 0")
          case True
          then show ?thesis using p w(1) Some v2(1) bytes by (auto simp: mbr_get_logical_part_def MAX_LOGICAL_PARTITIONS_def Let_def)
        next
          case c: False
          then have "\<not> unat (first_sect v2) + unat s + unat (me_first_sect ?e) + unat (me_sect_count ?e) < 2 ^ 64"
            using False s(1) bytes f2 by (auto simp: entry)
          from logical_sums_overflow [OF this] show ?thesis
            using p w(1) Some v2(1) bytes c by (simp add: mbr_get_logical_part_def MAX_LOGICAL_PARTITIONS_def Let_def)
        qed
        then show ?thesis using False by (auto simp: only logical_entry_def)
      qed
    qed
  qed
qed

text \<open>C8: On a healthy extended partition \<^verbatim>\<open>mbr_get_logical_part\<close> returns the \<open>p\<close>th logical partition exactly when the
  chain of boot records reaches one: at the offset of its boot record plus its own, never beyond 64 bits. An entry that
  is unused or does not fit is no partition. The chain always advances, so the \<open>p\<close>th boot record lies at sector \<open>p\<close> or
  later; a chain that is circular or ends early, and every number from 256 on, are the end of the table.\<close>

theorem logical_partition_correct:
  assumes h: "healthy img disk ext" and l: "label_reader fs_get_label"
  shows "\<exists>r. mbr_get_logical_part disk fs_get_label ret ext (int p) = Inr r
    \<and> (\<forall>s e. p < 256 \<and> logical_entry img ext p s e \<longrightarrow> p \<le> unat s \<and>
         (\<exists>q. r = Part q \<and> unat (first_sect q) = unat (first_sect ext) + unat s + unat (me_first_sect e)
            \<and> unat (sect_count q) = unat (me_sect_count e) \<and> vol_partition q = int p + 5 \<and> drive q = drive ext))
    \<and> (\<forall>s e. p < 256 \<and> ebr_entry img ext p s e \<and> \<not> logical_entry img ext p s e \<longrightarrow> r = NO_PARTITION)
    \<and> (256 \<le> p \<or> (\<nexists>s e. ebr_entry img ext p s e) \<longrightarrow> r = END_OF_TABLE)"
proof (cases "p < 256")
  case True
  then have "p < 256 \<longleftrightarrow> True" "256 \<le> p \<longleftrightarrow> False" by simp_all
  then show ?thesis using logical_partition_below [OF h l True, of ret] by (simp only: simp_thms)
next
  case False
  then show ?thesis by (simp add: mbr_get_logical_part_def MAX_LOGICAL_PARTITIONS_def)
qed

text \<open>An extended partition with a chain of two boot records, the second at sector 2 with an entry of three sectors.\<close>

definition ebr_link_bytes :: "u8 list" where
  "ebr_link_bytes = [0, 0, 0, 0] @ [5, 0, 0, 0] @ [2, 0, 0, 0] @ [4, 0, 0, 0]"

definition ebr_entry_bytes :: "u8 list" where
  "ebr_entry_bytes = [0, 0, 0, 0] @ [0x83, 0, 0, 0] @ [1, 0, 0, 0] @ [3, 0, 0, 0]"

definition ebr_image :: "nat \<Rightarrow> u8" where
  "ebr_image a =
     (if 462 \<le> a \<and> a < 478 then ebr_link_bytes ! (a - 462)
      else if 1470 \<le> a \<and> a < 1486 then ebr_entry_bytes ! (a - 1470) else 0)"

lemma ebr_image_bytes: "image_bytes ebr_image 462 16 = ebr_link_bytes" "image_bytes ebr_image 1470 16 = ebr_entry_bytes"
  by (rule image_bytesI, simp add: ebr_link_bytes_def ebr_entry_bytes_def, simp add: ebr_image_def)+

lemma ebr_image_entries:
  "me_part_type (mbr_entry_of ebr_link_bytes) = 5" "me_first_sect (mbr_entry_of ebr_link_bytes) = 2"
  "me_part_type (mbr_entry_of ebr_entry_bytes) = 0x83" "me_first_sect (mbr_entry_of ebr_entry_bytes) = 1"
  "me_sect_count (mbr_entry_of ebr_entry_bytes) = 3"
  by (simp_all add: mbr_entry_of_def ebr_link_bytes_def ebr_entry_bytes_def le_field_def bytes_field_def)

lemma ebr_image_logical: "logical_entry ebr_image eight_sectors 1 2 (mbr_entry_of ebr_entry_bytes)"
proof -
  have r: "image_read ebr_image eight_sectors 462 16 = Some ebr_link_bytes"
    "image_read ebr_image eight_sectors 1470 16 = Some ebr_entry_bytes"
    by (simp_all add: image_read_def out_of_bounds_def eight_sectors_def vol_base_def zero_volume_def ebr_image_bytes)
  have "ebr_chain ebr_image eight_sectors (Suc 0) 2"
    by (rule ebr_link [OF ebr_first, of _ _ ebr_link_bytes]) (simp_all add: r ebr_image_entries, simp add: eight_sectors_def)
  then show ?thesis using r by (simp add: logical_entry_def ebr_entry_def ebr_image_entries) (simp add: eight_sectors_def zero_volume_def)
qed

theorem logical_partition_correct_witness:
  "\<exists>q. mbr_get_logical_part (image_disk ebr_image) (\<lambda>v. (v, None)) zero_volume eight_sectors 1 = Inr (Part q)
    \<and> unat (first_sect q) = 3 \<and> unat (sect_count q) = 3 \<and> vol_partition q = 6"
proof -
  have l: "label_reader (\<lambda>v. (v, None))" by (simp add: label_reader_def)
  have z: "vol_partition eight_sectors = 0" "first_sect eight_sectors = 0" by (simp_all add: eight_sectors_def zero_volume_def)
  have one_lt: "(1::nat) < 256" by simp
  from logical_partition_correct [OF healthy_eight_sectors [of ebr_image] l, of zero_volume 1] obtain r where
    r: "mbr_get_logical_part (image_disk ebr_image) (\<lambda>v. (v, None)) zero_volume eight_sectors (int 1) = Inr r"
    and q: "\<forall>s e. (1::nat) < 256 \<and> logical_entry ebr_image eight_sectors 1 s e \<longrightarrow> 1 \<le> unat s \<and> (\<exists>q. r = Part q
       \<and> unat (first_sect q) = unat (first_sect eight_sectors) + unat s + unat (me_first_sect e)
       \<and> unat (sect_count q) = unat (me_sect_count e) \<and> vol_partition q = int 1 + 5 \<and> drive q = drive eight_sectors)"
    by (elim exE conjE) (rule that)
  from q [rule_format, OF conjI [OF one_lt ebr_image_logical]] obtain q where
    "r = Part q" "unat (first_sect q) = unat (first_sect eight_sectors) + unat (2::u64) + unat (1::u32)"
    "unat (sect_count q) = unat (3::u32)" "vol_partition q = int 1 + 5"
    unfolding ebr_image_entries by blast
  then show ?thesis using r z by simp
qed

section \<open>Entries of unknown size\<close>

text \<open>The size of a volume is unknown when it is all ones, and reads are then not checked against it. An entry of
  \<open>2 ^ 64 - 1\<close> blocks passes the overflow checks of \<^verbatim>\<open>gpt_get_part\<close> with that very size.\<close>

lemma gpt_entry_unknown_size:
  assumes "memcmp (ge_unique_partition_guid e) (replicate 16 0) 16 \<noteq> 0" and "ge_starting_lba e = 0"
    and "ge_ending_lba e = 0xfffffffffffffffe"
  shows "gpt_entry_geometry e 512 = Some (0, - 1)"
  using assms by (simp add: gpt_entry_geometry_def builtin_mul_overflow_def)

end
