(* ===== verification/Elsewhere.thy ===== *)
theory Elsewhere
  imports Allocator
begin

text \<open>
  Placement of what is moved just before a kernel starts, \<^verbatim>\<open>common/lib/elsewhere.c\<close>: a range lies at one address now and is
  copied to its target later. \<^verbatim>\<open>elsewhere_append\<close> looks for a target that collides with nothing, asking the memory map of
  \<^verbatim>\<open>pmm.s2.c\<close>.
\<close>

section \<open>Model\<close>

record elsewhere_range =
  er_elsewhere :: u64
  er_target :: u64
  er_length :: u64

definition elsewhere_overlap_check :: "u64 \<Rightarrow> u64 \<Rightarrow> u64 \<Rightarrow> u64 \<Rightarrow> bool" where
  "elsewhere_overlap_check base1 top1 base2 top2 \<longleftrightarrow> base1 < top2 \<and> base2 < top1"

text \<open>The first address behind all targets.\<close>

fun ranges_top :: "u64 \<Rightarrow> elsewhere_range list \<Rightarrow> u64" where
  "ranges_top top0 [] = top0"
| "ranges_top top0 (r # rs) =
     (let r_top = er_target r + er_length r in ranges_top (if top0 < r_top then r_top else top0) rs)"

text \<open>One pass over the ranges: the target is good, the search goes on at another target, or it fails.\<close>

datatype attempt = Placed | Retry u64 | Refused

fun elsewhere_pass :: "bool \<Rightarrow> u64 \<Rightarrow> u64 \<Rightarrow> elsewhere_range list \<Rightarrow> pmm \<Rightarrow> (attempt \<times> pmm) res" where
  "elsewhere_pass flexible_target target t_length [] st = Inr (Placed, st)"
| "elsewhere_pass flexible_target target t_length (r # rs) st =
     (let t_top = target + t_length in
      if t_top > 0x100000000 then Inr (Refused, st)
      else if elsewhere_overlap_check (er_target r) (er_target r + er_length r) target t_top then
        Inr (if \<not> flexible_target then Refused else Retry (ALIGN_UP (er_target r + er_length r) 4096), st)
      else if elsewhere_overlap_check (er_elsewhere r) (er_elsewhere r + er_length r) target t_top then
        Inr (if \<not> flexible_target then Refused else Retry (target + 0x1000), st)
      else
        bind_res (memmap_alloc_range st target t_length MEMMAP_BOOTLOADER_RECLAIMABLE MEMMAP_USABLE False True False)
          (\<lambda>(ok, st).
             if ok then elsewhere_pass flexible_target target t_length rs st
             else
               bind_res (memmap_alloc_range st target t_length MEMMAP_BOOTLOADER_RECLAIMABLE
                   MEMMAP_BOOTLOADER_RECLAIMABLE False True False)
                 (\<lambda>(ok, st).
                    if ok then elsewhere_pass flexible_target target t_length rs st
                    else Inr (if \<not> flexible_target then Refused else Retry (target + 0x1000), st))))"

text \<open>The jumps back to \<^verbatim>\<open>retry\<close>, as many as are left; the result is the target found.\<close>

fun elsewhere_retry :: "nat \<Rightarrow> bool \<Rightarrow> u64 \<Rightarrow> u64 \<Rightarrow> elsewhere_range list \<Rightarrow> pmm \<Rightarrow> (u64 option \<times> pmm) res" where
  "elsewhere_retry 0 flexible_target target t_length ranges st = Inr (None, st)"
| "elsewhere_retry (Suc max_retries) flexible_target target t_length ranges st =
     bind_res (elsewhere_pass flexible_target target t_length ranges st)
       (\<lambda>(a, st).
          case a of
            Placed \<Rightarrow> Inr (Some target, st)
          | Refused \<Rightarrow> Inr (None, st)
          | Retry target \<Rightarrow> elsewhere_retry max_retries flexible_target target t_length ranges st)"

text \<open>The ranges and the target are changed only on success, apart from a target of all ones; nothing reads the target after
  a failure. The parameter \<^verbatim>\<open>flexible_target\<close> is overwritten.\<close>

definition elsewhere_append ::
    "bool \<Rightarrow> elsewhere_range list \<Rightarrow> u64 \<Rightarrow> u64 \<Rightarrow> u64 \<Rightarrow> pmm \<Rightarrow> ((u64 \<times> elsewhere_range list) option \<times> pmm) res" where
  "elsewhere_append flexible_target ranges elsewhere target t_length st =
     (let flexible_target = True;
          target = (if target = - 1 then ALIGN_UP (ranges_top 0 ranges) 4096 else target)
      in bind_res (elsewhere_retry 0x10000 flexible_target target t_length ranges st)
           (\<lambda>(t, st).
              case t of
                None \<Rightarrow> Inr (None, st)
              | Some target \<Rightarrow>
                  Inr (Some (target, ranges @ [\<lparr>er_elsewhere = elsewhere, er_target = target, er_length = t_length\<rparr>]), st)))"

section \<open>Placed ranges\<close>

text \<open>The addresses of a range at its present place and at its target.\<close>

definition span :: "u64 \<Rightarrow> u64 \<Rightarrow> nat set" where
  "span base len = {unat base ..< unat base + unat len}"

definition source_span :: "elsewhere_range \<Rightarrow> nat set" where
  "source_span r = span (er_elsewhere r) (er_length r)"

definition target_span :: "elsewhere_range \<Rightarrow> nat set" where
  "target_span r = span (er_target r) (er_length r)"

definition range_ok :: "elsewhere_range \<Rightarrow> bool" where
  "range_ok r \<longleftrightarrow> unat (er_target r) + unat (er_length r) \<le> 2 ^ 32 \<and> unat (er_elsewhere r) + unat (er_length r) < 2 ^ 64"

text \<open>Memory that may be overwritten before the kernel starts.\<close>

definition available :: "pmm \<Rightarrow> nat set \<Rightarrow> bool" where
  "available st A \<longleftrightarrow> (\<forall>a. unat a \<in> A \<longrightarrow>
     MEMMAP_USABLE \<in># types_at (memmap st) a \<or> MEMMAP_BOOTLOADER_RECLAIMABLE \<in># types_at (memmap st) a)"

lemma overlap_check_spans:
  assumes "unat b1 + unat l1 < 2 ^ 64" and "unat b2 + unat l2 < 2 ^ 64"
  shows "elsewhere_overlap_check b1 (b1 + l1) b2 (b2 + l2) \<longleftrightarrow>
     unat b1 < unat b2 + unat l2 \<and> unat b2 < unat b1 + unat l1"
  using assms by (simp add: elsewhere_overlap_check_def word_less_nat_alt unat_add_nowrap)

lemma no_overlap_disjoint:
  assumes "unat b1 + unat l1 < 2 ^ 64" and "unat b2 + unat l2 < 2 ^ 64"
    and "\<not> elsewhere_overlap_check b1 (b1 + l1) b2 (b2 + l2)"
  shows "span b1 l1 \<inter> span b2 l2 = {}"
  using assms overlap_check_spans [OF assms(1,2)] by (auto simp: span_def)

text \<open>In a simulation without a panic the map is only asked.\<close>

lemma memmap_simulation:
  "memmap_alloc_range st base len ty overlay False True False =
     Inr (len = 0 \<or> (\<exists>top0. builtin_add_overflow base len = Some top0
            \<and> list_ex (range_in_entry base top0 overlay) (memmap st)), st)"
  by (simp add: memmap_alloc_range_def memmap_alloc_range_in_def Let_def bind_res_def split: option.split)

lemma range_in_entry_types:
  assumes "list_ex (range_in_entry base (base + len) overlay) m" and "overlay \<noteq> 0"
    and "unat base + unat len < 2 ^ 64" and "unat a \<in> span base len"
  shows "overlay \<in># types_at m a"
proof -
  from assms(1) obtain e where e: "e \<in> set m" "range_in_entry base (base + len) overlay e"
    by (auto simp: list_ex_iff)
  from assms(3,4) have "base \<le> a" "a < base + len"
    by (simp_all add: span_def word_le_nat_alt word_less_nat_alt unat_add_nowrap)
  with e(2) assms(2) have "in_entry a e" "me_type e = overlay"
    by (auto simp: range_in_entry_def in_entry_def builtin_add_overflow_order split: if_splits)
  with e(1) show ?thesis by (force simp: types_of_def)
qed

text \<open>What a pass that places the range has found out.\<close>

lemma elsewhere_pass_state:
  "\<exists>a. elsewhere_pass f target t_length rs st = Inr (a, st)"
  by (induction rs) (simp_all add: Let_def memmap_simulation bind_res_def)

lemma elsewhere_pass_placed:
  assumes "elsewhere_pass f target t_length rs st = Inr (Placed, st')" and "\<forall>r \<in> set rs. range_ok r" and "rs \<noteq> []"
  shows "unat target + unat t_length \<le> 2 ^ 32 \<and> available st (span target t_length)
    \<and> (\<forall>r \<in> set rs. span target t_length \<inter> (target_span r \<union> source_span r) = {})"
  using assms
proof (induction rs)
  case (Cons r rs)
  let ?ok = "\<lambda>overlay. t_length = 0 \<or> (\<exists>top0. builtin_add_overflow target t_length = Some top0
            \<and> list_ex (range_in_entry target top0 overlay) (memmap st))"
  have c: "\<not> target + t_length > 0x100000000"
    "\<not> elsewhere_overlap_check (er_target r) (er_target r + er_length r) target (target + t_length)"
    "\<not> elsewhere_overlap_check (er_elsewhere r) (er_elsewhere r + er_length r) target (target + t_length)"
    "?ok MEMMAP_USABLE \<or> ?ok MEMMAP_BOOTLOADER_RECLAIMABLE"
    "elsewhere_pass f target t_length rs st = Inr (Placed, st')"
    using Cons.prems(1) by (simp_all add: Let_def memmap_simulation bind_res_def split: if_splits) blast?
  have nowrap: "unat target + unat t_length < 2 ^ 64"
  proof (cases "t_length = 0")
    case True
    then show ?thesis using u64_bound [of target] by simp
  next
    case False
    with c(4) obtain t where "builtin_add_overflow target t_length = Some t" by blast
    then have "unat t = unat target + unat t_length"
      unfolding builtin_add_overflow_eq_Some by (rule conjunct2)
    then show ?thesis using u64_bound [of t] by linarith
  qed
  have lim: "unat target + unat t_length \<le> 2 ^ 32"
  proof -
    have "unat (target + t_length) = unat target + unat t_length" by (rule unat_add_nowrap) (use nowrap in simp)
    then show ?thesis using c(1) by (simp add: word_less_nat_alt)
  qed
  have "available st (span target t_length)"
    using c(4) nowrap by (auto simp: available_def builtin_add_overflow_def memmap_type_defs span_def
        dest: range_in_entry_types split: if_splits)
  moreover have "span target t_length \<inter> (target_span r \<union> source_span r) = {}"
    using no_overlap_disjoint [OF _ nowrap c(2)] no_overlap_disjoint [OF _ nowrap c(3)] Cons.prems(2)
    by (auto simp: range_ok_def target_span_def source_span_def)
  moreover have "\<forall>r \<in> set rs. span target t_length \<inter> (target_span r \<union> source_span r) = {}"
    using Cons.IH [OF c(5)] Cons.prems(2) by (cases "rs = []") auto
  ultimately show ?case using lim by auto
qed simp

lemma elsewhere_retry_found:
  assumes "\<forall>r \<in> set rs. range_ok r" and "rs \<noteq> []"
  shows "\<exists>t. elsewhere_retry n f target t_length rs st = Inr (t, st)
    \<and> (\<forall>p. t = Some p \<longrightarrow> unat p + unat t_length \<le> 2 ^ 32 \<and> available st (span p t_length)
         \<and> (\<forall>r \<in> set rs. span p t_length \<inter> (target_span r \<union> source_span r) = {}))"
proof (induction n arbitrary: target)
  case (Suc n)
  obtain a where a: "elsewhere_pass f target t_length rs st = Inr (a, st)" using elsewhere_pass_state by blast
  show ?case
  proof (cases a)
    case Placed
    then show ?thesis using elsewhere_pass_placed [OF _ assms] a by (simp add: bind_res_def)
  next
    case (Retry t)
    then show ?thesis using Suc.IH [of t] a by (simp add: bind_res_def)
  qed (use a in \<open>simp add: bind_res_def\<close>)
qed simp

section \<open>Sequences of appends\<close>

text \<open>No target meets another target, nor the present place of a range that was there before it.\<close>

fun separated :: "elsewhere_range list \<Rightarrow> bool" where
  "separated [] \<longleftrightarrow> True"
| "separated (r # rs) \<longleftrightarrow> (\<forall>q \<in> set rs. target_span q \<inter> (target_span r \<union> source_span r) = {}) \<and> separated rs"

lemma separated_snoc:
  "separated (rs @ [q]) \<longleftrightarrow> separated rs \<and> (\<forall>r \<in> set rs. target_span q \<inter> (target_span r \<union> source_span r) = {})"
  by (induction rs) auto

text \<open>The appends of a boot, one after the other, the allocator being called in between.\<close>

inductive appended :: "elsewhere_range list \<Rightarrow> elsewhere_range list \<Rightarrow> bool" where
  appended_none: "appended rs rs"
| appended_step: "appended rs rs1 \<Longrightarrow> elsewhere_append f rs1 src target len st = Inr (Some (t, rs2), st')
    \<Longrightarrow> unat src + unat len < 2 ^ 64 \<Longrightarrow> appended rs rs2"

lemma elsewhere_append_cases:
  assumes "\<forall>r \<in> set rs. range_ok r" and "rs \<noteq> []"
  shows "\<exists>x. elsewhere_append f rs src target len st = Inr (x, st)
    \<and> (\<forall>t rs'. x = Some (t, rs') \<longrightarrow> rs' = rs @ [\<lparr>er_elsewhere = src, er_target = t, er_length = len\<rparr>]
         \<and> unat t + unat len \<le> 2 ^ 32 \<and> available st (span t len)
         \<and> (\<forall>r \<in> set rs. span t len \<inter> (target_span r \<union> source_span r) = {}))"
proof -
  define tgt where "tgt = (if target = - 1 then ALIGN_UP (ranges_top 0 rs) 4096 else target)"
  obtain t where t: "elsewhere_retry 0x10000 True tgt len rs st = Inr (t, st)"
    "\<forall>p. t = Some p \<longrightarrow> unat p + unat len \<le> 2 ^ 32 \<and> available st (span p len)
         \<and> (\<forall>r \<in> set rs. span p len \<inter> (target_span r \<union> source_span r) = {})"
    using elsewhere_retry_found [OF assms] by blast
  have "elsewhere_append f rs src target len st = Inr (case t of None \<Rightarrow> None
      | Some p \<Rightarrow> Some (p, rs @ [\<lparr>er_elsewhere = src, er_target = p, er_length = len\<rparr>]), st)"
    unfolding elsewhere_append_def Let_def tgt_def [symmetric] t(1) by (simp add: bind_res_def split: option.split)
  then show ?thesis using t(2) by (auto split: option.splits)
qed

lemma appended_separated:
  assumes "appended rs rs'" and "rs \<noteq> []" and "\<forall>r \<in> set rs. range_ok r" and "separated rs"
  shows "(\<exists>new. rs' = rs @ new) \<and> (\<forall>r \<in> set rs'. range_ok r) \<and> separated rs'"
  using assms
proof (induction rule: appended.induct)
  case (appended_step rs rs1 f src target len st t rs2 st')
  then have IH: "\<exists>new. rs1 = rs @ new" "\<forall>r \<in> set rs1. range_ok r" "separated rs1" and ne: "rs1 \<noteq> []" by auto
  from elsewhere_append_cases [OF IH(2) ne, of f src target len st] appended_step.hyps(2)
  have "rs2 = rs1 @ [\<lparr>er_elsewhere = src, er_target = t, er_length = len\<rparr>]" "unat t + unat len \<le> 2 ^ 32"
    "\<forall>r \<in> set rs1. span t len \<inter> (target_span r \<union> source_span r) = {}" by auto
  then show ?case using IH appended_step.hyps(3) by (auto simp: separated_snoc range_ok_def target_span_def)
qed auto

section \<open>Properties\<close>

text \<open>C15: Behind at least one range, \<^verbatim>\<open>elsewhere_append\<close> never panics and leaves the memory map alone. A target it reports lies
  below 4 GiB in memory that is usable or belongs to the boot loader, meets no target and no present place of another range,
  and is recorded with the range.\<close>

theorem elsewhere_append_correct:
  assumes "\<forall>r \<in> set ranges. range_ok r" and "ranges \<noteq> []"
  shows "\<exists>x. elsewhere_append flexible ranges src target len st = Inr (x, st)
    \<and> (\<forall>t ranges'. x = Some (t, ranges') \<longrightarrow>
         ranges' = ranges @ [\<lparr>er_elsewhere = src, er_target = t, er_length = len\<rparr>]
         \<and> unat t + unat len \<le> 2 ^ 32 \<and> available st (span t len)
         \<and> (\<forall>r \<in> set ranges. span t len \<inter> (target_span r \<union> source_span r) = {}))"
  by (rule elsewhere_append_cases [OF assms])

text \<open>Evaluation of the model on a map with one megabyte below 16 MiB.\<close>

definition low_map :: pmm where
  "low_map = \<lparr>memmap = [\<lparr>me_base = 0x100000, me_length = 0x100000, me_type = 1\<rparr>],
     memmap_max_entries = 16, allocations_disallowed = False,
     pmm_sanitiser_keep_first_page = False, conv_base = 0x1000, ram = (\<lambda>a. 0)\<rparr>"

definition kernel_range :: elsewhere_range where
  "kernel_range = \<lparr>er_elsewhere = 0x180000, er_target = 0x100000, er_length = 0x2000\<rparr>"

lemma low_map_append:
  "elsewhere_append False [kernel_range] 0x190000 0x101000 0x1000 low_map =
     Inr (Some (0x102000, [kernel_range, \<lparr>er_elsewhere = 0x190000, er_target = 0x102000, er_length = 0x1000\<rparr>]), low_map)"
proof -
  have r: "elsewhere_pass True 0x101000 0x1000 [kernel_range] low_map = Inr (Retry 0x102000, low_map)"
    by (simp add: kernel_range_def elsewhere_overlap_check_def ALIGN_UP_def DIV_ROUNDUP_def)
  have p: "elsewhere_pass True 0x102000 0x1000 [kernel_range] low_map = Inr (Placed, low_map)"
    by (simp add: kernel_range_def elsewhere_overlap_check_def memmap_simulation bind_res_def low_map_def
        builtin_add_overflow_def range_in_entry_def memmap_type_defs)
  have q: "elsewhere_retry (Suc (Suc n)) True 0x101000 0x1000 [kernel_range] low_map = Inr (Some 0x102000, low_map)" for n
    by (simp only: elsewhere_retry.simps r p bind_res_def sum.case prod.case attempt.case)
  from q [of 65534]
  have "elsewhere_retry 0x10000 True 0x101000 0x1000 [kernel_range] low_map = Inr (Some 0x102000, low_map)" by simp
  then show ?thesis by (simp add: elsewhere_append_def bind_res_def)
qed

theorem elsewhere_append_correct_witness:
  "available low_map (span 0x102000 0x1000) \<and> span 0x102000 0x1000 \<inter> (target_span kernel_range \<union> source_span kernel_range) = {}"
  using elsewhere_append_correct [of "[kernel_range]" False "0x190000" "0x101000" "0x1000" low_map] low_map_append
  by (simp add: range_ok_def kernel_range_def)

text \<open>C16: Starting with ranges whose targets are apart, every sequence of appends keeps them apart: no target meets another
  target or the present place of a range that was there before it.\<close>

theorem elsewhere_targets_separated:
  assumes "appended rs rs'" and "rs \<noteq> []" and "\<forall>r \<in> set rs. range_ok r" and "separated rs"
  shows "(\<exists>new. rs' = rs @ new) \<and> (\<forall>r \<in> set rs'. range_ok r) \<and> separated rs'"
  by (rule appended_separated [OF assms])

theorem elsewhere_targets_separated_witness:
  "separated [kernel_range, \<lparr>er_elsewhere = 0x190000, er_target = 0x102000, er_length = 0x1000\<rparr>]"
proof -
  have "appended [kernel_range] [kernel_range, \<lparr>er_elsewhere = 0x190000, er_target = 0x102000, er_length = 0x1000\<rparr>]"
    by (rule appended_step [OF appended_none low_map_append]) simp
  from elsewhere_targets_separated [OF this] show ?thesis by (simp add: range_ok_def kernel_range_def)
qed

section \<open>What is not checked\<close>

text \<open>The present place of the new range is not compared with the targets of the earlier ones, and with no range before it a
  target is taken as it is.\<close>

lemma elsewhere_source_in_target:
  "\<exists>rs. elsewhere_append False [kernel_range] 0x101000 0x110000 0x1000 low_map = Inr (Some (0x110000, rs), low_map)"
proof -
  have p: "elsewhere_pass True 0x110000 0x1000 [kernel_range] low_map = Inr (Placed, low_map)"
    by (simp add: kernel_range_def elsewhere_overlap_check_def memmap_simulation bind_res_def low_map_def
        builtin_add_overflow_def range_in_entry_def memmap_type_defs)
  have q: "elsewhere_retry (Suc n) True 0x110000 0x1000 [kernel_range] low_map = Inr (Some 0x110000, low_map)" for n
    by (simp only: elsewhere_retry.simps p bind_res_def sum.case prod.case attempt.case)
  from q [of 65535] have "elsewhere_retry 0x10000 True 0x110000 0x1000 [kernel_range] low_map = Inr (Some 0x110000, low_map)"
    by simp
  then show ?thesis by (simp add: elsewhere_append_def bind_res_def)
qed

lemma elsewhere_first_unchecked:
  assumes "target \<noteq> - 1"
  shows "elsewhere_append f [] src target len st
    = Inr (Some (target, [\<lparr>er_elsewhere = src, er_target = target, er_length = len\<rparr>]), st)"
proof -
  have q: "elsewhere_retry (Suc n) True target len [] st = Inr (Some target, st)" for n
    by (simp add: bind_res_def)
  from q [of 65535] have "elsewhere_retry 0x10000 True target len [] st = Inr (Some target, st)" by simp
  then show ?thesis using assms by (simp add: elsewhere_append_def bind_res_def)
qed

end
