(* ===== verification/Vmm.thy ===== *)
theory Vmm
  imports Allocator
begin

text \<open>
  Page tables of \<^verbatim>\<open>common/mm/vmm.c\<close> as built for x86-64, in the memory of the physical allocator. A table is a page of
  512 entries; tables are allocated as they are needed, and an existing large page is split when a smaller one is mapped into
  it. The answers of \<^verbatim>\<open>cpuid\<close>, whether page attributes and pages of 1 GiB are supported, are the arguments \<open>pat\<close> and \<open>gib\<close>.
\<close>

unbundle bit_operations_syntax

section \<open>Entries\<close>

definition PT_SIZE :: u64 where
  "PT_SIZE = 0x1000"

definition VMM_FLAG_WRITE :: u64 where
  "VMM_FLAG_WRITE = push_bit 1 1"

definition VMM_FLAG_NOEXEC :: u64 where
  "VMM_FLAG_NOEXEC = push_bit 63 1"

definition VMM_FLAG_FB :: u64 where
  "VMM_FLAG_FB = push_bit 3 1 OR push_bit 12 1"

definition VMM_MAX_LEVEL :: nat where
  "VMM_MAX_LEVEL = 3"

definition PAGING_MODE_X86_64_5LVL :: int where
  "PAGING_MODE_X86_64_5LVL = 1"

definition paging_mode_va_bits :: "int \<Rightarrow> nat" where
  "paging_mode_va_bits mode = (if mode \<noteq> 0 then 57 else 48)"

definition paging_mode_higher_half :: "int \<Rightarrow> u64" where
  "paging_mode_higher_half paging_mode =
     (if paging_mode = PAGING_MODE_X86_64_5LVL then 0xff00000000000000 else 0xffff800000000000)"

definition PT_FLAG_VALID :: u64 where
  "PT_FLAG_VALID = push_bit 0 1"

definition PT_FLAG_WRITE :: u64 where
  "PT_FLAG_WRITE = push_bit 1 1"

definition PT_FLAG_USER :: u64 where
  "PT_FLAG_USER = push_bit 2 1"

definition PT_FLAG_LARGE :: u64 where
  "PT_FLAG_LARGE = push_bit 7 1"

definition PT_FLAG_NX :: u64 where
  "PT_FLAG_NX = push_bit 63 1"

definition PT_PADDR_MASK :: u64 where
  "PT_PADDR_MASK = 0x0000FFFFFFFFF000"

definition PT_TABLE_FLAGS :: u64 where
  "PT_TABLE_FLAGS = PT_FLAG_VALID OR PT_FLAG_WRITE OR PT_FLAG_USER"

definition PT_IS_TABLE :: "u64 \<Rightarrow> bool" where
  "PT_IS_TABLE x \<longleftrightarrow> x AND (PT_FLAG_VALID OR PT_FLAG_LARGE) = PT_FLAG_VALID"

definition PT_IS_LARGE :: "u64 \<Rightarrow> bool" where
  "PT_IS_LARGE x \<longleftrightarrow> x AND (PT_FLAG_VALID OR PT_FLAG_LARGE) = PT_FLAG_VALID OR PT_FLAG_LARGE"

definition PT_TO_VMM_FLAGS :: "u64 \<Rightarrow> u64" where
  "PT_TO_VMM_FLAGS x = x AND (PT_FLAG_WRITE OR PT_FLAG_NX OR VMM_FLAG_FB)"

definition pte_new :: "u64 \<Rightarrow> u64 \<Rightarrow> u64" where
  "pte_new addr flags = addr OR flags"

definition pte_addr :: "u64 \<Rightarrow> u64" where
  "pte_addr pte = pte AND PT_PADDR_MASK"

section \<open>Tables in memory\<close>

definition ram_read64 :: "memory \<Rightarrow> u64 \<Rightarrow> u64" where
  "ram_read64 mem a = foldr (\<lambda>i v. push_bit 8 v OR ucast (mem (a + of_nat i))) [0..<8] 0"

definition ram_write64 :: "memory \<Rightarrow> u64 \<Rightarrow> u64 \<Rightarrow> memory" where
  "ram_write64 mem a w = (\<lambda>x. if x - a < 8 then ucast (drop_bit (8 * unat (x - a)) w) else mem x)"

definition pte :: "memory \<Rightarrow> u64 \<Rightarrow> nat \<Rightarrow> u64" where
  "pte mem table i = ram_read64 mem (table + 8 * of_nat i)"

definition set_pte :: "u64 \<Rightarrow> nat \<Rightarrow> u64 \<Rightarrow> pmm \<Rightarrow> pmm" where
  "set_pte table i w st = st\<lparr>ram := ram_write64 (ram st) (table + 8 * of_nat i) w\<rparr>"

section \<open>Mapping pages\<close>

datatype page_size = Size4KiB | Size2MiB | Size1GiB

primrec page_size_value :: "page_size \<Rightarrow> nat" where
  "page_size_value Size4KiB = 0"
| "page_size_value Size2MiB = 1"
| "page_size_value Size1GiB = 2"

definition page_sizes :: "u64 list" where
  "page_sizes = [0x1000, 0x200000, 0x40000000, 0x8000000000, 0x1000000000000]"

record pagemap =
  levels :: int
  top_level :: u64

definition new_pagemap :: "int \<Rightarrow> pmm \<Rightarrow> (pagemap \<times> pmm) res" where
  "new_pagemap paging_mode st =
     bind_res (ext_mem_alloc st PT_SIZE) (\<lambda>(p, st).
       Inr (\<lparr>levels = (if paging_mode = PAGING_MODE_X86_64_5LVL then 5 else 4), top_level = p\<rparr>, st))"

text \<open>The indices \<^verbatim>\<open>pml1_entry\<close> to \<^verbatim>\<open>pml5_entry\<close>, by level from 0.\<close>

definition pml_entry :: "nat \<Rightarrow> u64 \<Rightarrow> nat" where
  "pml_entry level virt_addr =
     unat (drop_bit (12 + 9 * level) (virt_addr AND push_bit (12 + 9 * level) 0x1ff))"

type_synonym mapper = "pagemap \<Rightarrow> u64 \<Rightarrow> u64 \<Rightarrow> u64 \<Rightarrow> page_size \<Rightarrow> pmm \<Rightarrow> pmm res"

text \<open>The loops that map \<open>n\<close> pages of one size one after the other.\<close>

primrec map_run :: "mapper \<Rightarrow> pagemap \<Rightarrow> u64 \<Rightarrow> page_size \<Rightarrow> u64 \<Rightarrow> nat \<Rightarrow> u64 \<Rightarrow> u64 \<Rightarrow> pmm \<Rightarrow> pmm res" where
  "map_run map_page pagemap flags sz step 0 virt phys st = Inr st"
| "map_run map_page pagemap flags sz step (Suc n) virt phys st =
     bind_res (map_page pagemap virt phys flags sz st)
       (map_run map_page pagemap flags sz step n (virt + step) (phys + step))"

definition get_next_level ::
    "mapper \<Rightarrow> pagemap \<Rightarrow> u64 \<Rightarrow> u64 \<Rightarrow> page_size \<Rightarrow> nat \<Rightarrow> nat \<Rightarrow> pmm \<Rightarrow> (u64 \<times> pmm) res" where
  "get_next_level map_page pagemap current_level virt desired_sz level_idx entry st =
     (let e = pte (ram st) current_level entry in
      if PT_IS_TABLE e then Inr (pte_addr e, st)
      else if PT_IS_LARGE e then
        if level_idx \<ge> VMM_MAX_LEVEL \<or> level_idx = 0 then Inl (Panic False ''Unexpected level in get_next_level'')
        else if page_size_value desired_sz \<ge> VMM_MAX_LEVEL then
          Inl (Panic False ''Unexpected page size in get_next_level'')
        else
          let old_page_size = page_sizes ! level_idx;
              new_page_size = page_sizes ! page_size_value desired_sz;
              old_flags = PT_TO_VMM_FLAGS e;
              old_phys = pte_addr e;
              old_virt = virt AND NOT (old_page_size - 1)
          in if old_phys AND (old_page_size - 1) \<noteq> 0 then
               Inl (Panic False ''Unexpected page table entry address in get_next_level'')
             else
               bind_res (ext_mem_alloc st PT_SIZE) (\<lambda>(ret, st).
                 let st = set_pte current_level entry (pte_new ret PT_TABLE_FLAGS) st in
                 bind_res (map_run map_page pagemap old_flags desired_sz new_page_size
                     (unat (old_page_size div new_page_size)) old_virt old_phys st)
                   (\<lambda>st. Inr (ret, st)))
      else
        bind_res (ext_mem_alloc st PT_SIZE) (\<lambda>(ret, st).
          Inr (ret, set_pte current_level entry (pte_new ret PT_TABLE_FLAGS) st)))"

text \<open>The flags of an entry: always valid, and without page attributes where they are not supported.\<close>

definition entry_flags :: "bool \<Rightarrow> u64 \<Rightarrow> u64" where
  "entry_flags pat flags0 =
     (let flags = flags0 OR PT_FLAG_VALID
      in if flags AND VMM_FLAG_FB \<noteq> 0 \<and> \<not> pat then flags AND NOT VMM_FLAG_FB else flags)"

text \<open>The entry of a 4 KiB page has the attribute bit at another place.\<close>

definition pml1_flags :: "u64 \<Rightarrow> u64" where
  "pml1_flags flags =
     (if flags AND push_bit 12 1 \<noteq> 0 then flags AND NOT (push_bit 12 1) OR push_bit 7 1 else flags)"

text \<open>\<^verbatim>\<open>map_page\<close>, with the mapper it calls again for the pages of a larger one.\<close>

definition map_page_body :: "bool \<Rightarrow> bool \<Rightarrow> mapper \<Rightarrow> mapper" where
  "map_page_body pat gib map_page pagemap virt_addr phys_addr flags0 pg_size st =
     (let flags = entry_flags pat flags0 in
      bind_res (if levels pagemap = 5
                then get_next_level map_page pagemap (top_level pagemap) virt_addr pg_size 4 (pml_entry 4 virt_addr) st
                else Inr (top_level pagemap, st))
        (\<lambda>(pml4, st).
      bind_res (get_next_level map_page pagemap pml4 virt_addr pg_size 3 (pml_entry 3 virt_addr) st)
        (\<lambda>(pml3, st).
      if pg_size = Size1GiB then
        if gib then Inr (set_pte pml3 (pml_entry 2 virt_addr) (phys_addr OR flags OR PT_FLAG_LARGE) st)
        else map_run map_page pagemap flags Size2MiB 0x200000 512 virt_addr phys_addr st
      else
        bind_res (get_next_level map_page pagemap pml3 virt_addr pg_size 2 (pml_entry 2 virt_addr) st)
          (\<lambda>(pml2, st).
        if pg_size = Size2MiB then
          Inr (set_pte pml2 (pml_entry 1 virt_addr) (phys_addr OR flags OR PT_FLAG_LARGE) st)
        else
          bind_res (get_next_level map_page pagemap pml2 virt_addr pg_size 1 (pml_entry 1 virt_addr) st)
            (\<lambda>(pml1, st).
          Inr (set_pte pml1 (pml_entry 0 virt_addr) (phys_addr OR pml1_flags flags) st))))))"

primrec map_page_depth :: "bool \<Rightarrow> bool \<Rightarrow> nat \<Rightarrow> mapper" where
  "map_page_depth pat gib 0 = (\<lambda>_ _ _ _ _ _. Inl (Panic True ''map_page: recursion too deep''))"
| "map_page_depth pat gib (Suc n) = map_page_body pat gib (map_page_depth pat gib n)"

text \<open>A page of 1 GiB may be mapped by pages of 2 MiB, one of which may split an old page: three calls inside each other.\<close>

definition map_page :: "bool \<Rightarrow> bool \<Rightarrow> mapper" where
  "map_page pat gib = map_page_depth pat gib 3"

text \<open>The loop of \<^verbatim>\<open>map_pages\<close>, whose position is a number of small pages.\<close>

function map_pages_loop :: "bool \<Rightarrow> bool \<Rightarrow> pagemap \<Rightarrow> u64 \<Rightarrow> u64 \<Rightarrow> u64 \<Rightarrow> nat \<Rightarrow> nat \<Rightarrow> pmm \<Rightarrow> pmm res" where
  "map_pages_loop pat gib pagemap virt phys flags n k st =
     (if \<not> k < n then Inr st
      else
        let i = 0x1000 * of_nat k; left = 0x1000 * of_nat n - i in
        if (phys + i) AND (0x40000000 - 1) = 0 \<and> (virt + i) AND (0x40000000 - 1) = 0 \<and> left \<ge> 0x40000000 then
          bind_res (map_page pat gib pagemap (virt + i) (phys + i) flags Size1GiB st)
            (map_pages_loop pat gib pagemap virt phys flags n (k + 0x40000))
        else if (phys + i) AND (0x200000 - 1) = 0 \<and> (virt + i) AND (0x200000 - 1) = 0 \<and> left \<ge> 0x200000 then
          bind_res (map_page pat gib pagemap (virt + i) (phys + i) flags Size2MiB st)
            (map_pages_loop pat gib pagemap virt phys flags n (k + 0x200))
        else
          bind_res (map_page pat gib pagemap (virt + i) (phys + i) flags Size4KiB st)
            (map_pages_loop pat gib pagemap virt phys flags n (k + 1)))"
  by pat_completeness auto
termination
  by (relation "measure (\<lambda>(pat, gib, pagemap, virt, phys, flags, n, k, st). n - k)") auto

declare map_pages_loop.simps [simp del]

definition map_pages :: "bool \<Rightarrow> bool \<Rightarrow> pagemap \<Rightarrow> u64 \<Rightarrow> u64 \<Rightarrow> u64 \<Rightarrow> u64 \<Rightarrow> pmm \<Rightarrow> pmm res" where
  "map_pages pat gib pagemap virt phys flags cnt st =
     (if virt mod 0x1000 \<noteq> 0 \<or> phys mod 0x1000 \<noteq> 0 \<or> cnt mod 0x1000 \<noteq> 0 then
        Inl (Panic True ''vmm: Misaligned call to map_pages()'')
      else map_pages_loop pat gib pagemap virt phys flags (unat (cnt div 0x1000)) 0 st)"

section \<open>The walk of the processor\<close>

text \<open>What an address is translated to: the physical address, whether it may be written and executed, and the bits that
  select its memory type.\<close>

record translation =
  t_phys :: u64
  t_write :: bool
  t_noexec :: bool
  t_pwt :: bool
  t_pat :: bool

text \<open>The walk from a table of level \<open>l\<close> for the address \<open>v\<close>. It ends at an entry that is not present, at level 0 or at a
  large page; large pages exist in the levels 1 and 2. The rights are those of all the entries on the way together.\<close>

fun walk :: "memory \<Rightarrow> nat \<Rightarrow> u64 \<Rightarrow> u64 \<Rightarrow> bool \<Rightarrow> bool \<Rightarrow> translation option" where
  "walk mem l table v w nx =
     (let e = pte mem table (pml_entry l v); w = (w \<and> bit e 1); nx = (nx \<or> bit e 63) in
      if \<not> bit e 0 then None
      else if l = 0 then
        Some \<lparr>t_phys = (e AND 0x000FFFFFFFFFF000) OR (v AND 0xfff), t_write = w, t_noexec = nx, t_pwt = bit e 3, t_pat = bit e 7\<rparr>
      else if bit e 7 then
        if l > 2 then None
        else Some \<lparr>t_phys = (e AND 0x000FFFFFFFFFF000 AND NOT (mask (12 + 9 * l))) OR (v AND mask (12 + 9 * l)),
                   t_write = w, t_noexec = nx, t_pwt = bit e 3, t_pat = bit e 12\<rparr>
      else walk mem (l - 1) (e AND 0x000FFFFFFFFFF000) v w nx)"

declare walk.simps [simp del]

definition translate :: "pagemap \<Rightarrow> pmm \<Rightarrow> u64 \<Rightarrow> translation option" where
  "translate pm st v = walk (ram st) (nat (levels pm) - 1) (top_level pm) v True False"

end
