(* ===== verification/Vmm_Tables.thy ===== *)
theory Vmm_Tables
  imports Vmm
begin

text \<open>
  The page tables as a tree in memory: where a walk ends, which tables it visits, what makes the tables well-formed, and what
  the writing of one entry does to them. The lemmas on memory reduce byte contents to entries, and the rest is about entries.
\<close>

unbundle bit_operations_syntax

section \<open>Entries in memory\<close>

definition page_aligned :: "u64 \<Rightarrow> bool" where
  "page_aligned t \<longleftrightarrow> 4096 dvd unat t"

lemma bit_read_bytes:
  "bit (foldr (\<lambda>i v. push_bit 8 v OR (ucast (f i :: u8) :: u64)) [m..<m + k] 0) n
     \<longleftrightarrow> n < 8 * k \<and> n < 64 \<and> bit (f (m + n div 8)) (n mod 8)"
proof (induction k arbitrary: m n)
  case (Suc k)
  define F where "F = (\<lambda>m k. foldr (\<lambda>i v. push_bit 8 v OR (ucast (f i) :: u64)) [m..<m + k] 0)"
  have IH: "bit (F m k) n \<longleftrightarrow> n < 8 * k \<and> n < 64 \<and> bit (f (m + n div 8)) (n mod 8)" for m n
    unfolding F_def by (rule Suc.IH)
  have "[m..<m + Suc k] = m # [Suc m..<Suc m + k]" by (simp add: upt_conv_Cons)
  then have u: "F m (Suc k) = push_bit 8 (F (Suc m) k) OR ucast (f m)" unfolding F_def by (simp only: foldr.simps comp_def)
  have "bit (F m (Suc k)) n \<longleftrightarrow> n < 8 * Suc k \<and> n < 64 \<and> bit (f (m + n div 8)) (n mod 8)"
  proof (cases "n < 8")
    case True
    then show ?thesis unfolding u by (simp add: bit_simps)
  next
    case False
    then have n: "Suc (m + (n - 8) div 8) = m + n div 8" "(n - 8) mod 8 = n mod 8"
      by (simp_all add: div_if mod_if [of n 8])
    have "\<not> bit (f m) n" using False bit_imp_le_length [of "f m" n] by auto
    with False show ?thesis unfolding u by (auto simp: bit_simps IH n)
  qed
  then show ?case unfolding F_def .
qed simp

lemma bit_ram_read64: "bit (ram_read64 mem a) n \<longleftrightarrow> n < 64 \<and> bit (mem (a + of_nat (n div 8))) (n mod 8)"
  using bit_read_bytes [of "\<lambda>i. mem (a + of_nat i)" 0 8 n] by (simp add: ram_read64_def)

lemma ram_read_write:
  shows "ram_read64 (ram_write64 mem a w) a = w"
proof (rule bit_word_eqI)
  fix n assume "n < LENGTH(64)"
  then have d: "n div 8 < 8" by simp
  then have u: "unat (of_nat (n div 8) :: u64) = n div 8" by (simp add: unat_of_nat_small)
  with d have "(of_nat (n div 8) :: u64) < 8" by (simp add: word_less_nat_alt)
  then show "bit (ram_read64 (ram_write64 mem a w) a) n = bit w n"
    using \<open>n < LENGTH(64)\<close> by (simp add: bit_ram_read64 ram_write64_def u bit_simps)
qed

lemma ram_read_cong:
  assumes "\<And>i. i < 8 \<Longrightarrow> mem' (a + of_nat i) = mem (a + of_nat i)"
  shows "ram_read64 mem' a = ram_read64 mem a"
  by (rule bit_word_eqI) (simp add: bit_ram_read64 assms)

lemma entry_address:
  assumes "page_aligned t" and "i < 512"
  shows "unat (t + 8 * of_nat i) = unat t + 8 * i"
proof -
  have "4096 dvd (2 ^ 64 :: nat)" by simp
  with assms(1) u64_bound [of t] have "unat t + 4096 \<le> 2 ^ 64" unfolding page_aligned_def
    by (metis dvd_imp_le dvd_diff_nat less_imp_le_nat le_add_diff_inverse nat_add_left_cancel_le zero_less_diff)
  moreover have "unat (8 * of_nat i :: u64) = 8 * i"
    using assms(2) unat_of_nat_small [of "8 * i", where 'a = 64] by simp
  ultimately show ?thesis using assms(2) by (subst unat_add_nowrap) auto
qed

lemma byte_outside:
  fixes a b :: u64
  assumes "m dvd unat a" and "m dvd unat b" and m: "m dvd 2 ^ 64" "0 < m" and "a \<noteq> b" and "i < m"
  shows "m \<le> unat (a + of_nat i - b)"
proof -
  have "unat (a - b) = (if unat b \<le> unat a then unat a - unat b else unat a + 2 ^ 64 - unat b)"
    by (simp add: unat_sub_if_size word_size word_le_nat_alt)
  then have d: "m dvd unat (a - b)" using assms(1,2) m(1) by (metis dvd_add dvd_diff_nat)
  moreover have "unat (a - b) \<noteq> 0" using assms(5) by (simp add: unat_eq_zero)
  ultimately have le: "m \<le> unat (a - b)" by (simp add: dvd_imp_le)
  have "unat (a - b) + m \<le> 2 ^ 64"
    using d u64_bound [of "a - b"] m(1)
    by (metis dvd_imp_le dvd_diff_nat less_imp_le_nat le_add_diff_inverse nat_add_left_cancel_le zero_less_diff)
  then have n: "unat (a - b) + i < 2 ^ 64" using assms(6) by linarith
  then have "unat (of_nat i :: u64) = i" by (intro unat_of_nat_small) simp
  then have "unat (a - b + of_nat i) = unat (a - b) + i" using n by (subst unat_add_nowrap) simp_all
  then show ?thesis using le unfolding diff_add_eq by simp
qed

lemma entry_address_inj:
  assumes "page_aligned t" "i < 512" "page_aligned c" "j < 512" and "t + 8 * of_nat i = c + 8 * of_nat j"
  shows "t = c \<and> i = j"
proof -
  have e: "unat t + 8 * i = unat c + 8 * j" using assms entry_address by metis
  have "unat t = unat t div 4096 * 4096" "unat c = unat c div 4096 * 4096"
    using assms(1,3) by (simp_all add: page_aligned_def)
  then have "unat t div 4096 = unat c div 4096" using e assms(2,4) by linarith
  with \<open>unat t = _\<close> \<open>unat c = _\<close> have "unat t = unat c" by simp
  then show ?thesis using e by (simp add: word_unat_eq_iff)
qed

lemma pte_set_pte:
  assumes "page_aligned t" "i < 512" "page_aligned c" "j < 512"
  shows "pte (ram (set_pte c j w st)) t i = (if t = c \<and> i = j then w else pte (ram st) t i)"
proof (cases "t = c \<and> i = j")
  case True
  then show ?thesis by (simp add: pte_def set_pte_def ram_read_write)
next
  case False
  then have "t + 8 * of_nat i \<noteq> c + 8 * of_nat j" using entry_address_inj assms by blast
  moreover have "8 dvd unat (t + 8 * of_nat i)" "8 dvd unat (c + 8 * of_nat j)"
    using assms by (auto simp: entry_address page_aligned_def elim: dvd_trans [rotated])
  ultimately have "\<not> t + 8 * of_nat i + of_nat k - (c + 8 * of_nat j) < 8" if "k < 8" for k
    using byte_outside [of 8 "t + 8 * of_nat i" "c + 8 * of_nat j" k] that by (simp add: word_less_nat_alt)
  then show ?thesis using False by (auto simp: pte_def set_pte_def ram_write64_def intro!: ram_read_cong)
qed

lemma pte_mem_set:
  assumes "page_aligned t" "page_aligned p" "i < 512"
  shows "pte (mem_set p 0 0x1000 mem) t i = (if t = p then 0 else pte mem t i)"
proof -
  have a: "t + 8 * of_nat i + of_nat k - p = t + of_nat (8 * i + k) - p" for k by simp
  show ?thesis
  proof (cases "t = p")
    case True
    have "(of_nat (8 * i + k) :: u64) < 0x1000" if "k < 8" for k
      using that assms(3) unat_of_nat_small [of "8 * i + k", where 'a = 64] by (simp add: word_less_nat_alt)
    then have "mem_set p 0 0x1000 mem (t + 8 * of_nat i + of_nat k) = 0" if "k < 8" for k
      using that True by (simp add: mem_set_def a)
    then show ?thesis using True by (auto intro!: bit_word_eqI simp: pte_def bit_ram_read64)
  next
    case False
    have "\<not> t + 8 * of_nat i + of_nat k - p < 0x1000" if "k < 8" for k
      unfolding a using byte_outside [of 4096 t p "8 * i + k"] False assms that by (simp add: word_less_nat_alt page_aligned_def)
    then show ?thesis using False by (auto simp: pte_def mem_set_def intro!: ram_read_cong)
  qed
qed

lemma pml_entry_nat: "pml_entry l v = unat v div 2 ^ (12 + 9 * l) mod 512"
proof -
  have "(0x1ff :: u64) = mask 9" by (simp add: mask_eq_exp_minus_1)
  then have "drop_bit (12 + 9 * l) (v AND push_bit (12 + 9 * l) 0x1ff) = drop_bit (12 + 9 * l) (v AND push_bit (12 + 9 * l) (mask 9))"
    by (simp only:)
  also have "\<dots> = take_bit 9 (drop_bit (12 + 9 * l) v)"
    by (rule bit_word_eqI) (auto simp: bit_simps dest: bit_imp_le_length)
  finally have "drop_bit (12 + 9 * l) (v AND push_bit (12 + 9 * l) 0x1ff) = take_bit 9 (drop_bit (12 + 9 * l) v)" .
  then show ?thesis unfolding pml_entry_def
    by (simp add: unsigned_take_bit_eq unat_drop_bit_eq) (simp add: drop_bit_eq_div take_bit_eq_mod)
qed

lemma pml_entry_less [simp]: "pml_entry l v < 512"
  by (simp add: pml_entry_nat)

section \<open>Bits of entries\<close>

lemma bit_push_1: "bit (push_bit k (1 :: u64)) n \<longleftrightarrow> n = k \<and> k < 64"
  by (auto simp: bit_simps)

lemma bit_flags [simp]:
  "bit PT_FLAG_VALID n \<longleftrightarrow> n = 0" "bit PT_FLAG_WRITE n \<longleftrightarrow> n = 1" "bit PT_FLAG_USER n \<longleftrightarrow> n = 2"
  "bit PT_FLAG_LARGE n \<longleftrightarrow> n = 7" "bit PT_FLAG_NX n \<longleftrightarrow> n = 63"
  "bit VMM_FLAG_FB n \<longleftrightarrow> n = 3 \<or> n = 12" "bit PT_TABLE_FLAGS n \<longleftrightarrow> n \<le> 2"
  unfolding PT_FLAG_VALID_def PT_FLAG_WRITE_def PT_FLAG_USER_def PT_FLAG_LARGE_def PT_FLAG_NX_def PT_TABLE_FLAGS_def
    VMM_FLAG_FB_def bit_or_iff bit_push_1 by auto

lemma address_masks: "(0x0000FFFFFFFFF000 :: u64) = push_bit 12 (mask 36)" "(0x000FFFFFFFFFF000 :: u64) = push_bit 12 (mask 40)"
  by (simp_all add: mask_eq_exp_minus_1)

lemma bit_PT_PADDR_MASK [simp]: "bit PT_PADDR_MASK n \<longleftrightarrow> 12 \<le> n \<and> n < 48"
  unfolding PT_PADDR_MASK_def address_masks by (auto simp: bit_simps)

lemma PT_IS_TABLE_bits: "PT_IS_TABLE e \<longleftrightarrow> bit e 0 \<and> \<not> bit e 7"
proof
  assume "PT_IS_TABLE e"
  then have "bit (e AND (PT_FLAG_VALID OR PT_FLAG_LARGE)) n = bit PT_FLAG_VALID n" for n by (simp only: PT_IS_TABLE_def)
  from this [of 0] this [of 7] show "bit e 0 \<and> \<not> bit e 7" by (simp add: bit_simps)
next
  assume "bit e 0 \<and> \<not> bit e 7"
  then show "PT_IS_TABLE e" unfolding PT_IS_TABLE_def by (auto intro!: bit_word_eqI simp: bit_simps)
qed

lemma PT_IS_LARGE_bits: "PT_IS_LARGE e \<longleftrightarrow> bit e 0 \<and> bit e 7"
proof
  assume "PT_IS_LARGE e"
  then have "bit (e AND (PT_FLAG_VALID OR PT_FLAG_LARGE)) n = bit (PT_FLAG_VALID OR PT_FLAG_LARGE) n" for n
    by (simp only: PT_IS_LARGE_def)
  from this [of 0] this [of 7] show "bit e 0 \<and> bit e 7" by (simp add: bit_simps)
next
  assume "bit e 0 \<and> bit e 7"
  then show "PT_IS_LARGE e" unfolding PT_IS_LARGE_def by (auto intro!: bit_word_eqI simp: bit_simps)
qed

text \<open>A number that is a multiple of a power of two below another one, in bits.\<close>

lemma aligned_bits:
  fixes a :: u64
  assumes "2 ^ s dvd unat a" and "unat a < 2 ^ t"
  shows "bit a n \<Longrightarrow> s \<le> n \<and> n < t"
proof -
  assume "bit a n"
  then have n: "bit (unat a) n" by (simp add: bit_unsigned_iff)
  have "take_bit s (unat a) = 0" "take_bit t (unat a) = unat a" using assms by (simp_all add: take_bit_eq_mod)
  with n show ?thesis by (metis bit_take_bit_iff bit_0_eq bot_apply bot_bool_def not_le)
qed

lemma table_entry:
  assumes "page_aligned p" and "unat p < 2 ^ 48"
  shows "PT_IS_TABLE (pte_new p PT_TABLE_FLAGS)" and "pte_addr (pte_new p PT_TABLE_FLAGS) = p"
    and "pte_new p PT_TABLE_FLAGS AND 0x000FFFFFFFFFF000 = p"
    and "bit (pte_new p PT_TABLE_FLAGS) 1" and "\<not> bit (pte_new p PT_TABLE_FLAGS) 63"
proof -
  have b: "bit p n \<Longrightarrow> 12 \<le> n \<and> n < 48" for n
    using aligned_bits [of 12 p 48 n] assms by (simp add: page_aligned_def)
  show "PT_IS_TABLE (pte_new p PT_TABLE_FLAGS)" "bit (pte_new p PT_TABLE_FLAGS) 1" "\<not> bit (pte_new p PT_TABLE_FLAGS) 63"
    using b [of 0] b [of 1] b [of 7] b [of 63] by (auto simp: PT_IS_TABLE_bits pte_new_def bit_simps)
  show "pte_addr (pte_new p PT_TABLE_FLAGS) = p"
    by (rule bit_word_eqI) (auto simp: pte_addr_def pte_new_def bit_simps dest: b)
  show "pte_new p PT_TABLE_FLAGS AND 0x000FFFFFFFFFF000 = p"
    unfolding address_masks by (rule bit_word_eqI) (auto simp: pte_new_def bit_simps dest: b)
qed

section \<open>Trees of tables\<close>

text \<open>Where the walk for an address ends: the first entry that is no table, with its level.\<close>

fun pt_lookup :: "memory \<Rightarrow> nat \<Rightarrow> u64 \<Rightarrow> u64 \<Rightarrow> nat \<times> u64" where
  "pt_lookup mem 0 t v = (0, pte mem t (pml_entry 0 v))"
| "pt_lookup mem (Suc l) t v =
     (let e = pte mem t (pml_entry (Suc l) v) in if PT_IS_TABLE e then pt_lookup mem l (pte_addr e) v else (Suc l, e))"

text \<open>The table of level \<open>k\<close> on the way of an address.\<close>

fun table_at :: "memory \<Rightarrow> nat \<Rightarrow> u64 \<Rightarrow> nat \<Rightarrow> u64 \<Rightarrow> u64 option" where
  "table_at mem 0 t k v = (if k = 0 then Some t else None)"
| "table_at mem (Suc l) t k v =
     (if k = Suc l then Some t
      else let e = pte mem t (pml_entry (Suc l) v) in if PT_IS_TABLE e then table_at mem l (pte_addr e) k v else None)"

fun pt_tables :: "memory \<Rightarrow> nat \<Rightarrow> u64 \<Rightarrow> u64 set" where
  "pt_tables mem 0 t = {t}"
| "pt_tables mem (Suc l) t =
     insert t (\<Union>i \<in> {i. i < 512 \<and> PT_IS_TABLE (pte mem t i)}. pt_tables mem l (pte_addr (pte mem t i)))"

text \<open>Flags that the callers of \<^verbatim>\<open>map_page\<close> pass, and the entries of large pages made from them.\<close>

definition vm_flags :: "u64 \<Rightarrow> bool" where
  "vm_flags fl \<longleftrightarrow> (\<forall>n. bit fl n \<longrightarrow> n \<in> {0, 1, 3, 12, 63}) \<and> (bit fl 3 \<longleftrightarrow> bit fl 12)"

definition large_entry :: "nat \<Rightarrow> u64 \<Rightarrow> bool" where
  "large_entry l e \<longleftrightarrow> (\<exists>phys fl. e = phys OR fl OR PT_FLAG_LARGE \<and> vm_flags fl \<and> bit fl 0
     \<and> 2 ^ (12 + 9 * l) dvd unat phys \<and> unat phys < 2 ^ 48)"

definition entry_ok :: "nat \<Rightarrow> u64 \<Rightarrow> bool" where
  "entry_ok l e \<longleftrightarrow> \<not> bit e 0 \<or> l \<le> 2 \<and> large_entry l e"

definition table_ok :: "u64 \<Rightarrow> bool" where
  "table_ok t \<longleftrightarrow> page_aligned t \<and> unat t < 2 ^ 48"

text \<open>The tables below \<open>t\<close> form a tree: every table is reached in one way only.\<close>

fun pt_ok :: "memory \<Rightarrow> nat \<Rightarrow> u64 \<Rightarrow> bool" where
  "pt_ok mem 0 t \<longleftrightarrow> table_ok t"
| "pt_ok mem (Suc l) t \<longleftrightarrow> table_ok t
     \<and> (\<forall>i < 512. let e = pte mem t i in
          if PT_IS_TABLE e then e = pte_new (pte_addr e) PT_TABLE_FLAGS \<and> pt_ok mem l (pte_addr e) \<and> t \<notin> pt_tables mem l (pte_addr e)
          else entry_ok (Suc l) e)
     \<and> (\<forall>i < 512. \<forall>j < 512. i \<noteq> j \<and> PT_IS_TABLE (pte mem t i) \<and> PT_IS_TABLE (pte mem t j) \<longrightarrow>
          pt_tables mem l (pte_addr (pte mem t i)) \<inter> pt_tables mem l (pte_addr (pte mem t j)) = {})"

definition same_entries :: "memory \<Rightarrow> memory \<Rightarrow> u64 set \<Rightarrow> bool" where
  "same_entries mem mem' T \<longleftrightarrow> (\<forall>t \<in> T. \<forall>i < 512. pte mem' t i = pte mem t i)"

lemma same_entries_subset: "same_entries mem mem' T \<Longrightarrow> S \<subseteq> T \<Longrightarrow> same_entries mem mem' S"
  by (auto simp: same_entries_def)

lemma root_in_tables [simp]: "t \<in> pt_tables mem l t"
  by (cases l) simp_all

lemma child_tables:
  "i < 512 \<Longrightarrow> PT_IS_TABLE (pte mem t i) \<Longrightarrow> pt_tables mem l (pte_addr (pte mem t i)) \<subseteq> pt_tables mem (Suc l) t"
  by auto

lemma pt_ok_table: "pt_ok mem l t \<Longrightarrow> table_ok t"
  by (cases l) simp_all

lemma pt_ok_child:
  assumes "pt_ok mem (Suc l) t" and "i < 512" and "PT_IS_TABLE (pte mem t i)"
  shows "pte mem t i = pte_new (pte_addr (pte mem t i)) PT_TABLE_FLAGS" and "pt_ok mem l (pte_addr (pte mem t i))"
    and "t \<notin> pt_tables mem l (pte_addr (pte mem t i))"
  using assms by (auto simp: Let_def)

lemma table_at_in_tables: "table_at mem l t k v = Some c \<Longrightarrow> c \<in> pt_tables mem l t"
proof (induction l arbitrary: t)
  case (Suc l)
  then show ?case using child_tables [of "pml_entry (Suc l) v" mem t l] by (auto simp: Let_def split: if_splits)
qed (simp split: if_splits)

lemma table_at_level: "table_at mem l t k v = Some c \<Longrightarrow> k \<le> l"
  by (induction l arbitrary: t) (auto simp: Let_def split: if_splits intro: le_SucI)

lemma pt_tables_ok: "pt_ok mem l t \<Longrightarrow> c \<in> pt_tables mem l t \<Longrightarrow> table_ok c"
  by (induction l arbitrary: t) (auto simp: Let_def split: if_splits)

lemma same_entries_frame:
  assumes "same_entries mem mem' (pt_tables mem l t)"
  shows "pt_tables mem' l t = pt_tables mem l t" and "pt_ok mem' l t = pt_ok mem l t"
    and "pt_lookup mem' l t v = pt_lookup mem l t v" and "table_at mem' l t k v = table_at mem l t k v"
proof -
  have "pt_tables mem' l t = pt_tables mem l t \<and> pt_ok mem' l t = pt_ok mem l t
    \<and> pt_lookup mem' l t v = pt_lookup mem l t v \<and> table_at mem' l t k v = table_at mem l t k v"
    using assms
  proof (induction l arbitrary: t)
    case 0
    then show ?case by (simp add: same_entries_def)
  next
    case (Suc l)
    have e: "i < 512 \<Longrightarrow> pte mem' t i = pte mem t i" for i using Suc.prems by (simp add: same_entries_def)
    have c: "pt_tables mem' l c = pt_tables mem l c" "pt_ok mem' l c = pt_ok mem l c"
      "pt_lookup mem' l c v = pt_lookup mem l c v" "table_at mem' l c k v = table_at mem l c k v"
      if "i < 512" "PT_IS_TABLE (pte mem t i)" "c = pte_addr (pte mem t i)" for i c
      using Suc.IH [of c] same_entries_subset [OF Suc.prems child_tables [OF that(1,2)]] that(3) by simp_all
    have "pt_tables mem' (Suc l) t = pt_tables mem (Suc l) t" by (auto simp: e c)
    moreover have "pt_ok mem' (Suc l) t = pt_ok mem (Suc l) t" by (simp add: e c Let_def cong: conj_cong)
    moreover have "pt_lookup mem' (Suc l) t v = pt_lookup mem (Suc l) t v" "table_at mem' (Suc l) t k v = table_at mem (Suc l) t k v"
      by (auto simp: e c(3,4) [OF pml_entry_less _ refl] Let_def)
    ultimately show ?case by blast
  qed
  then show "pt_tables mem' l t = pt_tables mem l t" "pt_ok mem' l t = pt_ok mem l t"
    "pt_lookup mem' l t v = pt_lookup mem l t v" "table_at mem' l t k v = table_at mem l t k v" by blast+
qed

section \<open>Writing an entry\<close>

lemma zero_entry [simp]: "\<not> PT_IS_TABLE 0" "entry_ok l 0"
  by (simp_all add: PT_IS_TABLE_bits entry_ok_def)

lemma zero_table:
  assumes "\<forall>i < 512. pte mem p i = 0" and "table_ok p"
  shows "pt_ok mem l p" and "pt_tables mem l p = {p}" and "pt_lookup mem l p v = (l, 0)"
  using assms by (cases l; auto)+

text \<open>Two addresses agree from level \<open>k\<close> up to level \<open>l\<close> when the walks for them take the same way there.\<close>

definition agree :: "nat \<Rightarrow> nat \<Rightarrow> u64 \<Rightarrow> u64 \<Rightarrow> bool" where
  "agree k l v v' \<longleftrightarrow> (\<forall>j. k \<le> j \<and> j \<le> l \<longrightarrow> pml_entry j v' = pml_entry j v)"

lemma agree_same: "agree k k v v' \<longleftrightarrow> pml_entry k v' = pml_entry k v"
  by (auto simp: agree_def)

lemma agree_Suc: "k \<le> l \<Longrightarrow> agree k (Suc l) v v' \<longleftrightarrow> pml_entry (Suc l) v' = pml_entry (Suc l) v \<and> agree k l v v'"
  by (auto simp: agree_def le_Suc_eq)

definition new_table :: "nat \<Rightarrow> u64 \<Rightarrow> u64 set" where
  "new_table k w = (if k > 0 \<and> PT_IS_TABLE w then {pte_addr w} else {})"

text \<open>One entry has changed, that of the table \<open>c\<close> for \<open>v\<close> at level \<open>k\<close>; a new table is empty.\<close>

definition entry_written :: "memory \<Rightarrow> memory \<Rightarrow> u64 \<Rightarrow> nat \<Rightarrow> u64 \<Rightarrow> u64 \<Rightarrow> bool" where
  "entry_written mem mem' c k v w \<longleftrightarrow>
     (\<forall>t i. table_ok t \<longrightarrow> i < 512 \<longrightarrow> pte mem' t i = (if t = c \<and> i = pml_entry k v then w else pte mem t i))"

definition new_entry :: "memory \<Rightarrow> u64 set \<Rightarrow> nat \<Rightarrow> u64 \<Rightarrow> bool" where
  "new_entry mem T k w \<longleftrightarrow>
     (if k > 0 \<and> PT_IS_TABLE w then
        \<exists>p. w = pte_new p PT_TABLE_FLAGS \<and> table_ok p \<and> p \<notin> T \<and> (\<forall>i < 512. pte mem p i = 0)
      else k > 0 \<longrightarrow> entry_ok k w)"

definition written :: "memory \<Rightarrow> memory \<Rightarrow> nat \<Rightarrow> u64 \<Rightarrow> u64 \<Rightarrow> nat \<Rightarrow> u64 \<Rightarrow> u64 \<Rightarrow> bool" where
  "written mem mem' l t c k v w \<longleftrightarrow>
     pt_ok mem' l t \<and> pt_tables mem' l t \<subseteq> pt_tables mem l t \<union> new_table k w
     \<and> (\<forall>v'. pt_lookup mem' l t v' =
          (if agree k l v v' then if new_table k w = {} then (k, w) else (k - 1, 0) else pt_lookup mem l t v'))
     \<and> (\<forall>k' v' d. k \<le> k' \<or> \<not> PT_IS_TABLE (pte mem c (pml_entry k v)) \<longrightarrow> table_at mem l t k' v' = Some d \<longrightarrow>
          table_at mem' l t k' v' = Some d)
     \<and> (\<forall>p \<in> new_table k w. table_at mem' l t (k - 1) v = Some p)"

lemma new_entry_table:
  assumes "new_entry mem T k w" and "k > 0" and "PT_IS_TABLE w"
  obtains p where "w = pte_new p PT_TABLE_FLAGS" "pte_addr w = p" "table_ok p" "p \<notin> T" "\<forall>i < 512. pte mem p i = 0"
  using assms that by (auto simp: new_entry_def table_ok_def table_entry)

lemma written_root:
  assumes ok: "pt_ok mem l t" and w: "entry_written mem mem' t l v w" and new: "new_entry mem (pt_tables mem l t) l w"
  shows "written mem mem' l t t l v w"
proof (cases l)
  case 0
  have "table_ok t" using pt_ok_table [OF ok] .
  then show ?thesis using w unfolding 0 written_def by (auto simp: entry_written_def new_table_def agree_same)
next
  case (Suc m)
  let ?i = "pml_entry (Suc m) v"
  have t: "table_ok t" using pt_ok_table [OF ok] .
  have e: "pte mem' t i = (if i = ?i then w else pte mem t i)" if "i < 512" for i
    using w t that by (simp add: entry_written_def Suc)
  have same: "same_entries mem mem' T" if "\<forall>c \<in> T. table_ok c" "t \<notin> T" for T
    using w that by (auto simp: entry_written_def same_entries_def)
  have fr: "pt_tables mem' m c = pt_tables mem m c" "pt_ok mem' m c" "pt_lookup mem' m c v' = pt_lookup mem m c v'"
    "table_at mem' m c k' v' = table_at mem m c k' v'" "t \<notin> pt_tables mem m c"
    if "i < 512" "PT_IS_TABLE (pte mem t i)" "c = pte_addr (pte mem t i)" for i c v' k'
  proof -
    note ch = pt_ok_child [OF ok [unfolded Suc] that(1,2), folded that(3)]
    have "same_entries mem mem' (pt_tables mem m c)" using ch(2,3) pt_tables_ok by (intro same) auto
    note f = same_entries_frame [OF this]
    show "pt_tables mem' m c = pt_tables mem m c" "pt_ok mem' m c" "pt_lookup mem' m c v' = pt_lookup mem m c v'"
      "table_at mem' m c k' v' = table_at mem m c k' v'" "t \<notin> pt_tables mem m c" using f ch by simp_all
  qed
  have p: "w = pte_new (pte_addr w) PT_TABLE_FLAGS \<and> pt_ok mem' m (pte_addr w) \<and> pt_tables mem' m (pte_addr w) = {pte_addr w}
    \<and> pt_lookup mem' m (pte_addr w) v' = (m, 0) \<and> pte_addr w \<notin> pt_tables mem (Suc m) t" if tw: "PT_IS_TABLE w" for v'
  proof -
    obtain p where p: "w = pte_new p PT_TABLE_FLAGS" "pte_addr w = p" "table_ok p" "p \<notin> pt_tables mem (Suc m) t"
      "\<forall>i < 512. pte mem p i = 0" using new_entry_table [OF new _ tw] Suc by auto
    then have "\<forall>i < 512. pte mem' p i = 0" using w by (auto simp: entry_written_def)
    from zero_table [OF this p(3)] p show ?thesis by simp
  qed
  have leaf: "\<not> PT_IS_TABLE w \<Longrightarrow> entry_ok (Suc m) w" using new by (simp add: new_entry_def Suc)
  have okt: "pt_ok mem (Suc m) t" using ok by (simp add: Suc)
  have "pt_ok mem' (Suc m) t"
  proof -
    have a: "let f = pte mem' t i in
        if PT_IS_TABLE f then f = pte_new (pte_addr f) PT_TABLE_FLAGS \<and> pt_ok mem' m (pte_addr f) \<and> t \<notin> pt_tables mem' m (pte_addr f)
        else entry_ok (Suc m) f" if i: "i < 512" for i
    proof (cases "i = ?i")
      case True
      then show ?thesis using e [OF i] p leaf by (cases "PT_IS_TABLE w") (auto simp: Let_def)
    next
      case False
      then show ?thesis using e [OF i] okt i fr(1,2,5) [OF i _ refl] by (auto simp: Let_def)
    qed
    have b: "pt_tables mem' m (pte_addr (pte mem' t i)) \<inter> pt_tables mem' m (pte_addr (pte mem' t j)) = {}"
      if i: "i < 512" and j: "j < 512" "i \<noteq> j" "PT_IS_TABLE (pte mem' t i)" "PT_IS_TABLE (pte mem' t j)" for i j
    proof -
      have new: "pt_tables mem' m (pte_addr (pte mem' t i)) \<inter> pt_tables mem' m (pte_addr (pte mem' t j)) = {}"
        if "i = ?i" "j \<noteq> ?i" "j < 512" "PT_IS_TABLE (pte mem' t i)" "PT_IS_TABLE (pte mem' t j)" for i j
        using that e p fr(1) [of j] child_tables [of j mem t m] by auto
      have old: "pt_tables mem' m (pte_addr (pte mem' t i)) \<inter> pt_tables mem' m (pte_addr (pte mem' t j)) = {}"
        if "i \<noteq> ?i" "j \<noteq> ?i" using that i j e okt fr(1) [of i] fr(1) [of j] by auto
      show ?thesis using new [of i j] new [of j i] old i j by (metis Int_commute)
    qed
    from a b t show ?thesis by simp
  qed
  moreover have "pt_tables mem' (Suc m) t \<subseteq> pt_tables mem (Suc m) t \<union> new_table (Suc m) w"
    using e p fr(1) by (auto simp: new_table_def split: if_splits)
  moreover have "pt_lookup mem' (Suc m) t v' = (if agree (Suc m) (Suc m) v v' then if new_table (Suc m) w = {} then (Suc m, w)
      else (Suc m - 1, 0) else pt_lookup mem (Suc m) t v')" for v'
    using e [OF pml_entry_less, of "Suc m" v'] p fr(3) [OF pml_entry_less _ refl, of "Suc m" v' v']
    by (auto simp: agree_same new_table_def Let_def)
  moreover have "table_at mem' (Suc m) t k' v' = Some d"
    if "Suc m \<le> k' \<or> \<not> PT_IS_TABLE (pte mem t ?i)" "table_at mem (Suc m) t k' v' = Some d" for k' v' d
  proof (cases "pml_entry (Suc m) v' = ?i")
    case True
    then show ?thesis using that table_at_level [of mem m] by (fastforce simp: Let_def split: if_splits)
  next
    case False
    then show ?thesis
      using that e [OF pml_entry_less, of "Suc m" v'] fr(4) [OF pml_entry_less _ refl, of "Suc m" v' k' v']
      by (auto simp: Let_def split: if_splits)
  qed
  moreover have "table_at mem' (Suc m) t (Suc m - 1) v = Some q" if "q \<in> new_table (Suc m) w" for q
    using that e [OF pml_entry_less, of "Suc m" v] by (cases m) (auto simp: new_table_def Let_def split: if_splits)
  ultimately show ?thesis unfolding written_def Suc by blast
qed

lemma written_step:
  assumes ok: "pt_ok mem (Suc m) t" and w: "entry_written mem mem' c k v w" and new: "new_entry mem (pt_tables mem (Suc m) t) k w"
    and k: "k \<le> m" and tab: "PT_IS_TABLE (pte mem t (pml_entry (Suc m) v))" and c0: "c0 = pte_addr (pte mem t (pml_entry (Suc m) v))"
    and at: "table_at mem m c0 k v = Some c" and IH: "written mem mem' m c0 c k v w"
  shows "written mem mem' (Suc m) t c k v w"
proof -
  let ?i = "pml_entry (Suc m) v"
  note ch = pt_ok_child [OF ok pml_entry_less tab, folded c0]
  have c: "c \<in> pt_tables mem m c0" using table_at_in_tables [OF at] .
  have t: "table_ok t" "t \<noteq> c" using pt_ok_table [OF ok] ch(3) c by auto
  have e: "pte mem' t i = pte mem t i" if "i < 512" for i using w t that by (simp add: entry_written_def)
  have fr: "pt_tables mem' m d = pt_tables mem m d" "pt_ok mem' m d" "pt_lookup mem' m d v' = pt_lookup mem m d v'"
    "table_at mem' m d k' v' = table_at mem m d k' v'" "t \<notin> pt_tables mem m d" "pt_tables mem m d \<inter> pt_tables mem m c0 = {}"
    if "i < 512" "PT_IS_TABLE (pte mem t i)" "d = pte_addr (pte mem t i)" "i \<noteq> ?i" for i d v' k'
  proof -
    note ch' = pt_ok_child [OF ok that(1,2), folded that(3)]
    show dis: "pt_tables mem m d \<inter> pt_tables mem m c0 = {}" using ok tab that c0 by auto
    then have "same_entries mem mem' (pt_tables mem m d)"
      using w c pt_tables_ok [OF ch'(2)] by (auto simp: entry_written_def same_entries_def)
    note f = same_entries_frame [OF this]
    show "pt_tables mem' m d = pt_tables mem m d" "pt_ok mem' m d" "pt_lookup mem' m d v' = pt_lookup mem m d v'"
      "table_at mem' m d k' v' = table_at mem m d k' v'" "t \<notin> pt_tables mem m d" using f ch' by simp_all
  qed
  have N: "new_table k w \<inter> pt_tables mem (Suc m) t = {}"
    using new by (auto simp: new_table_def new_entry_def table_ok_def table_entry split: if_splits)
  have T: "pt_tables mem' m c0 \<subseteq> pt_tables mem m c0 \<union> new_table k w" and okc: "pt_ok mem' m c0" using IH by (simp_all add: written_def)
  have sub: "pt_tables mem m (pte_addr (pte mem t j)) \<subseteq> pt_tables mem (Suc m) t" if "j < 512" "PT_IS_TABLE (pte mem t j)" for j
    using child_tables that by simp
  have tc: "t \<notin> pt_tables mem' m c0" using T ch(3) N by auto
  have dis: "pt_tables mem' m c0 \<inter> pt_tables mem' m (pte_addr (pte mem t j)) = {}"
    if "j < 512" "PT_IS_TABLE (pte mem t j)" "j \<noteq> ?i" for j
    using T N sub [OF that(1,2)] fr(1,6) [OF that(1,2) refl that(3)] by blast
  have "pt_ok mem' (Suc m) t"
  proof -
    have a: "let f = pte mem t i in
        if PT_IS_TABLE f then f = pte_new (pte_addr f) PT_TABLE_FLAGS \<and> pt_ok mem' m (pte_addr f) \<and> t \<notin> pt_tables mem' m (pte_addr f)
        else entry_ok (Suc m) f" if i: "i < 512" for i
      using ok i okc tc fr(1,2,5) [OF i _ refl] c0 by (cases "i = ?i") (auto simp: Let_def)
    have b: "pt_tables mem' m (pte_addr (pte mem t i)) \<inter> pt_tables mem' m (pte_addr (pte mem t j)) = {}"
      if i: "i < 512" and j: "j < 512" "i \<noteq> j" "PT_IS_TABLE (pte mem t i)" "PT_IS_TABLE (pte mem t j)" for i j
    proof -
      have old: "pt_tables mem' m (pte_addr (pte mem t i)) \<inter> pt_tables mem' m (pte_addr (pte mem t j)) = {}"
        if "i \<noteq> ?i" "j \<noteq> ?i" using that i j ok fr(1) [of i] fr(1) [of j] by auto
      show ?thesis using dis [of i] dis [of j] old i j c0 by (metis Int_commute)
    qed
    from a b t show ?thesis by (simp add: e)
  qed
  moreover have "pt_tables mem' (Suc m) t \<subseteq> pt_tables mem (Suc m) t \<union> new_table k w"
  proof -
    have S: "pt_tables mem' m (pte_addr (pte mem t i)) \<subseteq> pt_tables mem (Suc m) t \<union> new_table k w"
      if "i < 512" "PT_IS_TABLE (pte mem t i)" for i
      using T sub [OF that] fr(1) [OF that refl] c0 by (cases "i = ?i") auto
    have "pt_tables mem' (Suc m) t
        = insert t (\<Union>i \<in> {i. i < 512 \<and> PT_IS_TABLE (pte mem t i)}. pt_tables mem' m (pte_addr (pte mem t i)))"
      by (auto simp: e)
    also have "\<dots> \<subseteq> pt_tables mem (Suc m) t \<union> new_table k w"
      by (rule insert_subsetI, rule UnI1, rule root_in_tables, rule UN_least, rule S) auto
    finally show ?thesis .
  qed
  moreover have "pt_lookup mem' (Suc m) t v' = (if agree k (Suc m) v v' then if new_table k w = {} then (k, w)
      else (k - 1, 0) else pt_lookup mem (Suc m) t v')" for v'
  proof (cases "pml_entry (Suc m) v' = ?i")
    case True
    then show ?thesis using IH c0 tab by (simp add: agree_Suc [OF k] e written_def Let_def)
  next
    case False
    then show ?thesis using fr(3) [OF pml_entry_less _ refl, of "Suc m" v' v'] by (simp add: agree_Suc [OF k] e Let_def)
  qed
  moreover have "table_at mem' (Suc m) t k' v' = Some d"
    if "k \<le> k' \<or> \<not> PT_IS_TABLE (pte mem c (pml_entry k v))" "table_at mem (Suc m) t k' v' = Some d" for k' v' d
    using that IH c0 fr(4) [OF pml_entry_less _ refl, of "Suc m" v' k' v']
    by (cases "pml_entry (Suc m) v' = ?i") (auto simp: e written_def Let_def split: if_splits)
  moreover have "table_at mem' (Suc m) t (k - 1) v = Some q" if "q \<in> new_table k w" for q
    using that IH c0 tab k by (auto simp: written_def e Let_def)
  ultimately show ?thesis unfolding written_def by blast
qed

text \<open>Writing an entry on the way of an address.\<close>

lemma entry_written_written:
  assumes "pt_ok mem l t" and "table_at mem l t k v = Some c" and w: "entry_written mem mem' c k v w"
    and "new_entry mem (pt_tables mem l t) k w"
  shows "written mem mem' l t c k v w"
  using assms(1,2,4)
proof (induction l arbitrary: t)
  case 0
  then show ?case using written_root [of mem 0 t mem' v w] w by (simp split: if_splits)
next
  case (Suc m)
  show ?case
  proof (cases "k = Suc m")
    case True
    then have "c = t" using Suc.prems(2) by simp
    from written_root [OF Suc.prems(1)] w Suc.prems(3) show ?thesis unfolding True \<open>c = t\<close> by blast
  next
    case False
    let ?e = "pte mem t (pml_entry (Suc m) v)"
    have tab: "PT_IS_TABLE ?e" and at: "table_at mem m (pte_addr ?e) k v = Some c"
      using Suc.prems(2) False by (auto simp: Let_def split: if_splits)
    have k: "k \<le> m" using table_at_level [OF at] .
    have "new_entry mem (pt_tables mem m (pte_addr ?e)) k w"
      using Suc.prems(3) child_tables [OF pml_entry_less tab, of m] by (auto simp: new_entry_def split: if_splits)
    then have "written mem mem' m (pte_addr ?e) c k v w"
      using Suc.IH pt_ok_child(2) [OF Suc.prems(1) pml_entry_less tab] at by blast
    then show ?thesis using written_step [OF Suc.prems(1) w Suc.prems(3) k tab refl at] by blast
  qed
qed

end
