(* ===== verification/Vmm_Map.thy ===== *)
theory Vmm_Map
  imports Vmm_Tables
begin

text \<open>
  Correctness of \<^verbatim>\<open>map_page\<close> and \<^verbatim>\<open>map_pages\<close>: what the processor finds for an address before and after. An address counts by its
  low bits, those the levels of the page tables look at.
\<close>

unbundle bit_operations_syntax

section \<open>Addresses and levels\<close>

definition va_part :: "nat \<Rightarrow> u64 \<Rightarrow> nat" where
  "va_part h v = unat v mod 2 ^ (12 + 9 * Suc h)"

lemma va_part_less: "va_part h v < 2 ^ (12 + 9 * Suc h)"
  by (simp add: va_part_def)

lemma mod_mult_div: "0 < a \<Longrightarrow> x mod (a * b) div a = x div a mod (b :: nat)"
  by (simp add: mod_mult2_eq)

lemma div_digit: "x div a = 512 * (x div (a * 512)) + x div a mod (512 :: nat)"
  by (simp add: div_mult2_eq)

lemma pml_entry_va_part: "j \<le> h \<Longrightarrow> pml_entry j v = va_part h v div 2 ^ (12 + 9 * j) mod 512"
proof -
  assume "j \<le> h"
  then have "(12 + 9 * Suc h) = (12 + 9 * j) + (9 + 9 * (h - j))" by simp
  then have "(2 :: nat) ^ (12 + 9 * Suc h) = 2 ^ (12 + 9 * j) * 2 ^ (9 + 9 * (h - j))" by (simp only: power_add)
  then have "va_part h v div 2 ^ (12 + 9 * j) = unat v div 2 ^ (12 + 9 * j) mod 2 ^ (9 + 9 * (h - j))"
    unfolding va_part_def by (simp only: mod_mult_div zero_less_power zero_less_numeral)
  then show ?thesis by (simp add: pml_entry_nat power_add mod_mod_cancel)
qed

lemma agree_va_part:
  assumes "k \<le> Suc h"
  shows "agree k h v v' \<longleftrightarrow> va_part h v' div 2 ^ (12 + 9 * k) = va_part h v div 2 ^ (12 + 9 * k)"
  using assms
proof (induction rule: inc_induct)
  case base
  then show ?case using va_part_less [of h v] va_part_less [of h v'] by (simp add: agree_def)
next
  case (step n)
  then have nh: "n \<le> h" by simp
  have d: "x div 2 ^ (12 + 9 * n) = 512 * (x div 2 ^ (12 + 9 * Suc n)) + x div 2 ^ (12 + 9 * n) mod 512" for x :: nat
    using div_digit [of x "2 ^ (12 + 9 * n)"] by (simp add: power_add)
  have "agree n h v v' \<longleftrightarrow> pml_entry n v' = pml_entry n v \<and> agree (Suc n) h v v'"
    using step.hyps by (auto simp: agree_def Suc_le_eq dest: le_neq_implies_less)
  also have "\<dots> \<longleftrightarrow> va_part h v' div 2 ^ (12 + 9 * n) = va_part h v div 2 ^ (12 + 9 * n)"
    unfolding step.IH pml_entry_va_part [OF nh] using d [of "va_part h v"] d [of "va_part h v'"] by auto
  finally show ?case .
qed

text \<open>The addresses of an aligned page.\<close>

lemma agree_page:
  assumes "k \<le> h" and "2 ^ (12 + 9 * k) dvd unat v"
  shows "agree k h v v' \<longleftrightarrow> va_part h v \<le> va_part h v' \<and> va_part h v' < va_part h v + 2 ^ (12 + 9 * k)"
    and "agree k h v v' \<Longrightarrow> va_part h v' - va_part h v = unat v' mod 2 ^ (12 + 9 * k)"
proof -
  let ?s = "2 ^ (12 + 9 * k) :: nat"
  have dv: "?s dvd 2 ^ (12 + 9 * Suc h)" using assms(1) by (intro le_imp_power_dvd) simp
  then have v: "?s dvd va_part h v" using assms(2) by (simp add: va_part_def dvd_mod_iff)
  have q: "agree k h v v' \<longleftrightarrow> va_part h v' div ?s = va_part h v div ?s" for v'
    using agree_va_part [of k h v v'] assms(1) by simp
  have e: "va_part h v' = va_part h v' div ?s * ?s + va_part h v' mod ?s" for v' by (rule div_mult_mod_eq [symmetric])
  obtain x where x: "va_part h v = ?s * x" using v by (auto elim: dvdE)
  have "y div ?s = x \<longleftrightarrow> ?s * x \<le> y \<and> y < ?s * x + ?s" for y :: nat
    using div_nat_eqI [of ?s x y] times_div_less_eq_dividend [of ?s y] dividend_less_times_div [of ?s y] by auto
  then show "agree k h v v' \<longleftrightarrow> va_part h v \<le> va_part h v' \<and> va_part h v' < va_part h v + ?s"
    unfolding q x by simp
  have "va_part h v' mod ?s = unat v' mod ?s" using dv by (simp add: va_part_def mod_mod_cancel)
  then show "va_part h v' - va_part h v = unat v' mod ?s" if "agree k h v v'"
    using that e [of v'] unfolding q x by simp
qed

section \<open>What an entry translates to\<close>

definition leaf_translation :: "nat \<times> u64 \<Rightarrow> u64 \<Rightarrow> translation option" where
  "leaf_translation x v = (case x of (l, e) \<Rightarrow>
     if \<not> bit e 0 then None
     else Some \<lparr>t_phys = (e AND 0x000FFFFFFFFFF000 AND NOT (mask (12 + 9 * l))) OR (v AND mask (12 + 9 * l)),
       t_write = bit e 1, t_noexec = bit e 63, t_pwt = bit e 3, t_pat = bit e (if l = 0 then 7 else 12)\<rparr>)"

lemma walk_lookup: "pt_ok mem l t \<Longrightarrow> walk mem l t v True False = leaf_translation (pt_lookup mem l t v) v"
proof (induction l arbitrary: t)
  case 0
  have "(e :: u64) AND 0x000FFFFFFFFFF000 AND NOT (mask 12) = e AND 0x000FFFFFFFFFF000" for e
    unfolding address_masks by (rule bit_word_eqI) (auto simp: bit_simps)
  moreover have "(0xfff :: u64) = mask 12" by (simp add: mask_eq_exp_minus_1)
  ultimately show ?case by (simp add: walk.simps [of mem 0] leaf_translation_def Let_def)
next
  case (Suc l)
  let ?e = "pte mem t (pml_entry (Suc l) v)"
  show ?case
  proof (cases "PT_IS_TABLE ?e")
    case True
    note c = pt_ok_child [OF Suc.prems pml_entry_less True]
    have "table_ok (pte_addr ?e)" using pt_ok_table [OF c(2)] .
    then have "?e AND 0x000FFFFFFFFFF000 = pte_addr ?e" "bit ?e 1" "\<not> bit ?e 63"
      using table_entry [of "pte_addr ?e", folded c(1)] by (simp_all add: table_ok_def)
    moreover have "bit ?e 0" "\<not> bit ?e 7" using True by (simp_all add: PT_IS_TABLE_bits)
    ultimately show ?thesis using Suc.IH [OF c(2)] True by (simp add: walk.simps [of mem "Suc l"] Let_def)
  next
    case False
    then have "entry_ok (Suc l) ?e" using Suc.prems pml_entry_less [of "Suc l" v] by (auto simp: Let_def)
    moreover have "\<not> bit ?e 0 \<or> bit ?e 7" using False by (simp add: PT_IS_TABLE_bits)
    ultimately show ?thesis using False
      by (auto simp: walk.simps [of mem "Suc l"] Let_def leaf_translation_def entry_ok_def)
  qed
qed

text \<open>The translation that the callers of \<^verbatim>\<open>map_page\<close> ask for.\<close>

definition page_translation :: "bool \<Rightarrow> u64 \<Rightarrow> nat \<Rightarrow> translation" where
  "page_translation pat fl p =
     \<lparr>t_phys = of_nat p, t_write = bit fl 1, t_noexec = bit fl 63, t_pwt = (pat \<and> bit fl 3), t_pat = (pat \<and> bit fl 12)\<rparr>"

lemma bit_entry_flags:
  assumes "vm_flags fl"
  shows "bit (entry_flags pat fl) n \<longleftrightarrow> n = 0 \<or> bit fl n \<and> (n = 3 \<or> n = 12 \<longrightarrow> pat)"
proof -
  have "bit (fl OR PT_FLAG_VALID) n \<longleftrightarrow> n = 0 \<or> bit fl n" for n by (auto simp: bit_simps)
  moreover have "(fl OR PT_FLAG_VALID) AND VMM_FLAG_FB = 0 \<longleftrightarrow> \<not> bit fl 3 \<and> \<not> bit fl 12"
  proof
    assume z: "(fl OR PT_FLAG_VALID) AND VMM_FLAG_FB = 0"
    from arg_cong [OF z, of "\<lambda>x. bit x 3"] arg_cong [OF z, of "\<lambda>x. bit x 12"] show "\<not> bit fl 3 \<and> \<not> bit fl 12"
      by (simp add: bit_simps)
  qed (auto intro!: bit_word_eqI simp: bit_simps)
  moreover have fb: "bit fl 3 \<longleftrightarrow> bit fl 12" using assms unfolding vm_flags_def by (rule conjunct2)
  ultimately have "entry_flags pat fl = (if bit fl 12 \<and> \<not> pat then (fl OR PT_FLAG_VALID) AND NOT VMM_FLAG_FB else fl OR PT_FLAG_VALID)"
    by (simp add: entry_flags_def Let_def)
  then show ?thesis using fb bit_imp_le_length [of fl n] by (auto simp: bit_and_iff bit_or_iff bit_not_iff)
qed

lemma vm_flags_entry_flags: "vm_flags fl \<Longrightarrow> vm_flags (entry_flags pat fl)"
  by (auto simp: vm_flags_def bit_entry_flags)

lemma address_or:
  fixes a v :: u64
  assumes "2 ^ s dvd unat a" and "unat a + 2 ^ s \<le> 2 ^ 64"
  shows "a OR (v AND mask s) = of_nat (unat a + unat v mod 2 ^ s)"
proof -
  have "\<not> bit a n" if "n < s" for n using aligned_bits [OF assms(1) u64_bound, of n] that by auto
  then have "a AND (v AND mask s) = 0" by (intro bit_word_eqI) (auto simp: bit_simps)
  then have "a OR (v AND mask s) = a + (v AND mask s)" using word_plus_and_or [of a "v AND mask s"] by simp
  moreover have u: "unat (v AND mask s) = unat v mod 2 ^ s"
    by (simp add: take_bit_eq_mask [symmetric] unsigned_take_bit_eq) (simp add: take_bit_eq_mod)
  ultimately show ?thesis by (simp flip: u)
qed

text \<open>The entries that \<^verbatim>\<open>map_page\<close> writes.\<close>

lemma large_leaf:
  assumes fl: "vm_flags fl" and l: "0 < l" and al: "2 ^ (12 + 9 * l) dvd unat phys" "unat phys + 2 ^ (12 + 9 * l) \<le> 2 ^ 48"
  shows "large_entry l (phys OR entry_flags pat fl OR PT_FLAG_LARGE)"
    and "leaf_translation (l, phys OR entry_flags pat fl OR PT_FLAG_LARGE) v
      = Some (page_translation pat fl (unat phys + unat v mod 2 ^ (12 + 9 * l)))"
proof -
  have "0 < (2 :: nat) ^ (12 + 9 * l)" by simp
  then have lt: "unat phys < 2 ^ 48" using al(2) by linarith
  note b = aligned_bits [OF al(1) lt]
  show "large_entry l (phys OR entry_flags pat fl OR PT_FLAG_LARGE)"
    unfolding large_entry_def using al(1) lt fl by (intro exI [of _ phys] exI [of _ "entry_flags pat fl"])
      (simp add: vm_flags_entry_flags bit_entry_flags)
  let ?e = "phys OR entry_flags pat fl OR PT_FLAG_LARGE"
  have "?e AND 0x000FFFFFFFFFF000 AND NOT (mask (12 + 9 * l)) = phys"
    unfolding address_masks using l fl
    by (intro bit_word_eqI) (auto simp: bit_simps bit_entry_flags vm_flags_def dest: b)
  moreover have "phys OR (v AND mask (12 + 9 * l)) = of_nat (unat phys + unat v mod 2 ^ (12 + 9 * l))"
    using al by (intro address_or) simp_all
  moreover have "\<not> bit phys 0" "\<not> bit phys 1" "\<not> bit phys 3" "\<not> bit phys 12" "\<not> bit phys 63"
    using l by (auto dest: b)
  ultimately show "leaf_translation (l, ?e) v = Some (page_translation pat fl (unat phys + unat v mod 2 ^ (12 + 9 * l)))"
    using l fl by (simp add: leaf_translation_def page_translation_def bit_simps bit_entry_flags) blast
qed

lemma small_leaf:
  assumes fl: "vm_flags fl" and al: "4096 dvd unat phys" "unat phys + 4096 \<le> 2 ^ 48"
  shows "leaf_translation (0, phys OR pml1_flags (entry_flags pat fl)) v = Some (page_translation pat fl (unat phys + unat v mod 4096))"
proof -
  define flags where "flags = entry_flags pat fl"
  define flags' where "flags' = pml1_flags flags"
  have lt: "unat phys < 2 ^ 48" using al(2) by simp
  have b: "bit phys n \<Longrightarrow> 12 \<le> n \<and> n < 48" for n using aligned_bits [of 12 phys 48 n] al(1) lt by simp
  have t: "flags AND push_bit 12 1 \<noteq> 0 \<longleftrightarrow> bit flags 12"
  proof
    have "\<not> bit flags 12 \<Longrightarrow> flags AND push_bit 12 1 = 0"
      by (rule bit_word_eqI) (unfold bit_and_iff bit_push_1, auto)
    then show "flags AND push_bit 12 1 \<noteq> 0 \<Longrightarrow> bit flags 12" by blast
    assume "bit flags 12"
    then have "bit (flags AND push_bit 12 1) 12" unfolding bit_and_iff bit_push_1 by simp
    then show "flags AND push_bit 12 1 \<noteq> 0" by auto
  qed
  have f: "bit flags' n \<longleftrightarrow> (n = 7 \<and> bit flags 12 \<or> n \<noteq> 12 \<and> bit flags n)" for n
  proof -
    have "flags' = (if bit flags 12 then flags AND NOT (push_bit 12 1) OR push_bit 7 1 else flags)"
      unfolding flags'_def pml1_flags_def t ..
    then have "bit flags' n = bit (if bit flags 12 then flags AND NOT (push_bit 12 1) OR push_bit 7 1 else flags) n" by (rule arg_cong)
    then show ?thesis
      unfolding if_distrib [of "\<lambda>x. bit x n"] bit_or_iff bit_and_iff bit_not_iff bit_push_1 by (auto dest: bit_imp_le_length)
  qed
  have fb: "bit flags n \<longleftrightarrow> n = 0 \<or> bit fl n \<and> (n = 3 \<or> n = 12 \<longrightarrow> pat)" for n
    unfolding flags_def by (rule bit_entry_flags [OF fl])
  have "(phys OR flags') AND 0x000FFFFFFFFFF000 AND NOT (mask 12) = phys"
    unfolding address_masks using fl by (intro bit_word_eqI) (auto simp: bit_simps f fb vm_flags_def dest: b)
  moreover have "phys OR (v AND mask 12) = of_nat (unat phys + unat v mod 4096)"
    using al address_or [of 12 phys v] by simp
  moreover have "\<not> bit phys 0" "\<not> bit phys 1" "\<not> bit phys 3" "\<not> bit phys 7" "\<not> bit phys 63" "\<not> bit fl 7"
    using fl by (auto simp: vm_flags_def dest: b)
  ultimately have "leaf_translation (0, phys OR flags') v = Some (page_translation pat fl (unat phys + unat v mod 4096))"
    using fl by (auto simp: leaf_translation_def page_translation_def bit_simps f fb)
  then show ?thesis unfolding flags'_def flags_def .
qed

section \<open>Page tables in the memory of the allocator\<close>

abbreviation pt_top :: "pagemap \<Rightarrow> nat" where
  "pt_top pm \<equiv> nat (levels pm) - 1"

definition usable_at :: "pmm \<Rightarrow> u64 \<Rightarrow> bool" where
  "usable_at st a \<longleftrightarrow> MEMMAP_USABLE \<in># types_at (memmap st) a"

definition pm_tables :: "pagemap \<Rightarrow> pmm \<Rightarrow> u64 set" where
  "pm_tables pm st = pt_tables (ram st) (pt_top pm) (top_level pm)"

definition pm_lookup :: "pagemap \<Rightarrow> pmm \<Rightarrow> u64 \<Rightarrow> nat \<times> u64" where
  "pm_lookup pm st v = pt_lookup (ram st) (pt_top pm) (top_level pm) v"

definition pm_table :: "pagemap \<Rightarrow> pmm \<Rightarrow> nat \<Rightarrow> u64 \<Rightarrow> u64 option" where
  "pm_table pm st k v = table_at (ram st) (pt_top pm) (top_level pm) k v"

text \<open>The invariant: four or five levels, a tree of tables, none of whose bytes the allocator may give away.\<close>

definition vm_inv :: "pagemap \<Rightarrow> pmm \<Rightarrow> bool" where
  "vm_inv pm st \<longleftrightarrow> pmm_inv st \<and> (levels pm = 4 \<or> levels pm = 5) \<and> pt_ok (ram st) (pt_top pm) (top_level pm)
     \<and> (\<forall>t \<in> pm_tables pm st. \<forall>a. a - t < 0x1000 \<longrightarrow> \<not> usable_at st a)"

lemma translate_lookup: "vm_inv pm st \<Longrightarrow> translate pm st v = leaf_translation (pm_lookup pm st v) v"
  by (simp add: vm_inv_def translate_def pm_lookup_def walk_lookup)

text \<open>Only tables and memory that was free are written.\<close>

definition table_byte :: "pagemap \<Rightarrow> pmm \<Rightarrow> u64 \<Rightarrow> bool" where
  "table_byte pm st a \<longleftrightarrow> (\<exists>t \<in> pm_tables pm st. a - t < 0x1000)"

definition grows :: "pagemap \<Rightarrow> pmm \<Rightarrow> pmm \<Rightarrow> bool" where
  "grows pm st st' \<longleftrightarrow> (\<forall>a. usable_at st' a \<longrightarrow> usable_at st a)
     \<and> (\<forall>a. table_byte pm st' a \<longrightarrow> table_byte pm st a \<or> usable_at st a)
     \<and> (\<forall>a. \<not> usable_at st a \<and> \<not> table_byte pm st a \<longrightarrow> ram st' a = ram st a)"

lemma grows_refl: "grows pm st st"
  by (simp add: grows_def)

lemma grows_trans: "grows pm st st1 \<Longrightarrow> grows pm st1 st2 \<Longrightarrow> grows pm st st2"
  unfolding grows_def by metis

lemma set_pte_simps [simp]: "memmap (set_pte c i w st) = memmap st" "pmm_inv (set_pte c i w st) = pmm_inv st"
  by (simp_all add: set_pte_def pmm_inv_def)

lemma entry_written_set_pte:
  "table_ok c \<Longrightarrow> entry_written (ram st) (ram (set_pte c (pml_entry k v) w st)) c k v w"
  by (simp add: entry_written_def table_ok_def pte_set_pte)

lemma set_pte_byte:
  assumes "page_aligned c" and "i < 512" and "\<not> a - c < 0x1000"
  shows "ram (set_pte c i w st) a = ram st a"
proof -
  have "\<not> a - (c + 8 * of_nat i) < 8"
  proof
    assume lt: "a - (c + 8 * of_nat i) < 8"
    define d where "d = a - (c + 8 * of_nat i)"
    have i: "unat (8 * of_nat i :: u64) = 8 * i" using assms(2) unat_of_nat_small [of "8 * i", where 'a = 64] by simp
    have d: "unat d < 8" using lt by (simp add: word_less_nat_alt d_def)
    then have "unat (8 * of_nat i + d) = 8 * i + unat d" using i assms(2) by (subst unat_add_nowrap) simp_all
    moreover have "a - c = 8 * of_nat i + d" by (simp add: d_def)
    ultimately have "unat (a - c) < 0x1000" using d assms(2) by simp
    then show False using assms(3) by (simp add: word_less_nat_alt)
  qed
  then show ?thesis by (simp add: set_pte_def ram_write64_def)
qed

text \<open>Writing an entry that is no table.\<close>

lemma set_leaf:
  assumes inv: "vm_inv pm st" and at: "pm_table pm st k v = Some c" and w: "k > 0 \<longrightarrow> \<not> PT_IS_TABLE w \<and> entry_ok k w"
  defines "st' \<equiv> set_pte c (pml_entry k v) w st"
  shows "vm_inv pm st'" and "grows pm st st'"
    and "pm_lookup pm st' v' = (if agree k (pt_top pm) v v' then (k, w) else pm_lookup pm st v')"
    and "k \<le> j \<Longrightarrow> pm_table pm st j v' = Some d \<Longrightarrow> pm_table pm st' j v' = Some d"
proof -
  let ?l = "pt_top pm" and ?t = "top_level pm"
  have ok: "pt_ok (ram st) ?l ?t" using inv by (simp add: vm_inv_def)
  have c: "c \<in> pm_tables pm st" using table_at_in_tables at by (simp add: pm_tables_def pm_table_def)
  then have cok: "table_ok c" using pt_tables_ok ok by (simp add: pm_tables_def)
  have N: "new_table k w = {}" using w by (auto simp: new_table_def)
  have "written (ram st) (ram st') ?l ?t c k v w"
    unfolding st'_def using ok at [unfolded pm_table_def] entry_written_set_pte [OF cok] w
    by (intro entry_written_written) (auto simp: new_entry_def)
  then have wr: "pt_ok (ram st') ?l ?t" "pm_tables pm st' \<subseteq> pm_tables pm st"
    "pm_lookup pm st' v' = (if agree k ?l v v' then (k, w) else pm_lookup pm st v')"
    "k \<le> j \<Longrightarrow> pm_table pm st j v' = Some d \<Longrightarrow> pm_table pm st' j v' = Some d" for v' j d
    unfolding written_def N pm_tables_def pm_lookup_def pm_table_def by auto
  have u: "usable_at st' a = usable_at st a" for a by (simp add: usable_at_def st'_def)
  show "vm_inv pm st'" using inv wr(1,2) by (auto simp: vm_inv_def u) (simp_all add: st'_def)
  have "ram st' a = ram st a" if "\<not> table_byte pm st a" for a
    unfolding st'_def using that c cok by (intro set_pte_byte) (auto simp: table_byte_def table_ok_def)
  then show "grows pm st st'" using wr(2) by (auto simp: grows_def u table_byte_def)
  show "pm_lookup pm st' v' = (if agree k ?l v v' then (k, w) else pm_lookup pm st v')" by (rule wr(3))
  show "k \<le> j \<Longrightarrow> pm_table pm st j v' = Some d \<Longrightarrow> pm_table pm st' j v' = Some d" by (rule wr(4))
qed

text \<open>A new table comes from the allocator: zeroed, aligned, and free before.\<close>

lemma alloc_table:
  assumes "pmm_inv st" and "ext_mem_alloc st PT_SIZE = Inr (p, st1)"
  shows "pmm_inv st1" and "table_ok p" and "\<forall>a. a - p < 0x1000 \<longrightarrow> usable_at st a \<and> \<not> usable_at st1 a"
    and "\<forall>a. usable_at st1 a \<longrightarrow> usable_at st a" and "ram st1 = mem_set p 0 0x1000 (ram st)"
proof -
  have run: "ext_mem_alloc_type_aligned_mode st 0x1000 MEMMAP_BOOTLOADER_RECLAIMABLE 0x1000 False = Inr (p, st1)"
    using assms(2) by (simp add: ext_mem_alloc_def ext_mem_alloc_type_def ext_mem_alloc_type_aligned_def PT_SIZE_def)
  have one: "ALIGN_UP 0x1000 0x1000 = (0x1000 :: u64)" by (simp add: ALIGN_UP_def DIV_ROUNDUP_def)
  obtain len where a: "pmm_inv st1" "allocated st MEMMAP_BOOTLOADER_RECLAIMABLE p len 0x1000 st1" "4096 dvd unat p"
    "4096 \<le> unat len" "unat p + unat len \<le> 2 ^ 32"
    using ext_mem_alloc_sound [OF assms(1) _ _ _ run] one by auto
  show "pmm_inv st1" by (rule a(1))
  show "table_ok p" using a(3-5) by (simp add: table_ok_def page_aligned_def)
  show "ram st1 = mem_set p 0 0x1000 (ram st)" by (rule allocated_frame(4) [OF a(2)])
  have t: "p \<le> a \<and> a < p + len \<Longrightarrow> usable_at st a" "usable_at st1 a = (usable_at st a \<and> \<not> (p \<le> a \<and> a < p + len))" for a
    using a(2) by (auto simp: allocated_def usable_at_def memmap_type_defs)
  then show "\<forall>a. usable_at st1 a \<longrightarrow> usable_at st a" by simp
  have "p \<le> a \<and> a < p + len" if "a - p < 0x1000" for a
  proof -
    have n: "unat (a - p) < 4096" using that by (simp add: word_less_nat_alt)
    then have "unat (p + (a - p)) = unat p + unat (a - p)" using a(4,5) by (subst unat_add_nowrap) simp_all
    moreover have "unat (p + len) = unat p + unat len" using a(5) by (subst unat_add_nowrap) simp_all
    ultimately show ?thesis using n a(4) by (simp add: word_le_nat_alt word_less_nat_alt)
  qed
  with t show "\<forall>a. a - p < 0x1000 \<longrightarrow> usable_at st a \<and> \<not> usable_at st1 a" by blast
qed

lemma set_table:
  assumes inv: "vm_inv pm st" and at: "pm_table pm st k v = Some c" and k: "k > 0"
    and old: "\<not> PT_IS_TABLE (pte (ram st) c (pml_entry k v))" and run: "ext_mem_alloc st PT_SIZE = Inr (p, st1)"
  defines "st' \<equiv> set_pte c (pml_entry k v) (pte_new p PT_TABLE_FLAGS) st1"
  shows "vm_inv pm st'" and "grows pm st st'"
    and "pm_lookup pm st' v' = (if agree k (pt_top pm) v v' then (k - 1, 0) else pm_lookup pm st v')"
    and "pm_table pm st j v' = Some d \<Longrightarrow> pm_table pm st' j v' = Some d" and "pm_table pm st' (k - 1) v = Some p"
proof -
  let ?l = "pt_top pm" and ?t = "top_level pm" and ?w = "pte_new p PT_TABLE_FLAGS"
  have pinv: "pmm_inv st" and ok: "pt_ok (ram st) ?l ?t" using inv by (simp_all add: vm_inv_def)
  note al = alloc_table [OF pinv run]
  have c: "c \<in> pm_tables pm st" using table_at_in_tables at by (simp add: pm_tables_def pm_table_def)
  have tok: "table_ok t" if "t \<in> pm_tables pm st" for t using pt_tables_ok [OF ok] that by (simp add: pm_tables_def)
  have pn: "p \<notin> pm_tables pm st" using inv al(3) [rule_format, of p] by (fastforce simp: vm_inv_def)
  have e1: "pte (ram st1) t i = (if t = p then 0 else pte (ram st) t i)" if "table_ok t" "i < 512" for t i
    using pte_mem_set [of t p i "ram st"] that al(2,5) by (simp add: table_ok_def)
  have same: "same_entries (ram st) (ram st1) (pt_tables (ram st) ?l ?t)"
    using e1 tok pn by (auto simp: same_entries_def pm_tables_def)
  note f = same_entries_frame [OF same]
  have w: "PT_IS_TABLE ?w" "pte_addr ?w = p" using table_entry [of p] al(2) by (simp_all add: table_ok_def)
  have N: "new_table k ?w = {p}" using k w by (simp add: new_table_def)
  have old1: "\<not> PT_IS_TABLE (pte (ram st1) c (pml_entry k v))" using old e1 [OF tok [OF c]] c pn by auto
  have "written (ram st1) (ram st') ?l ?t c k v ?w"
    unfolding st'_def using ok f at [unfolded pm_table_def] entry_written_set_pte [OF tok [OF c]] k w al(2) pn e1
    by (intro entry_written_written) (auto simp: new_entry_def pm_tables_def)
  then have wr: "pt_ok (ram st') ?l ?t" "pm_tables pm st' \<subseteq> pm_tables pm st \<union> {p}"
    "pm_lookup pm st' v' = (if agree k ?l v v' then (k - 1, 0) else pm_lookup pm st v')"
    "pm_table pm st j v' = Some d \<Longrightarrow> pm_table pm st' j v' = Some d" "pm_table pm st' (k - 1) v = Some p" for v' j d
    using old1 unfolding written_def N pm_tables_def pm_lookup_def pm_table_def f by auto
  have u: "usable_at st' a = usable_at st1 a" for a by (simp add: usable_at_def st'_def)
  have "\<not> usable_at st' a" if "t \<in> pm_tables pm st'" "a - t < 0x1000" for t a
  proof (cases "t = p")
    case True
    then show ?thesis using that(2) al(3) by (simp add: u)
  next
    case False
    then have "t \<in> pm_tables pm st" using wr(2) that(1) by auto
    then have "\<not> usable_at st a" using inv that(2) by (simp add: vm_inv_def)
    then show ?thesis using al(4) by (auto simp: u)
  qed
  moreover have "pmm_inv st'" using al(1) by (simp add: st'_def)
  ultimately show "vm_inv pm st'" using inv wr(1) by (simp add: vm_inv_def)
  have "ram st' a = ram st a" if "\<not> table_byte pm st a" "\<not> usable_at st a" for a
  proof -
    have "ram st' a = ram st1 a" unfolding st'_def using that c tok [OF c]
      by (intro set_pte_byte) (auto simp: table_byte_def table_ok_def)
    moreover have "\<not> a - p < 0x1000" using that al(3) by blast
    ultimately show ?thesis by (simp add: al(5) mem_set_def)
  qed
  then show "grows pm st st'" using wr(2) al(3,4) by (auto simp: grows_def u table_byte_def)
  show "pm_lookup pm st' v' = (if agree k ?l v v' then (k - 1, 0) else pm_lookup pm st v')" by (rule wr(3))
  show "pm_table pm st j v' = Some d \<Longrightarrow> pm_table pm st' j v' = Some d" by (rule wr(4))
  show "pm_table pm st' (k - 1) v = Some p" by (rule wr(5))
qed

end
