(* ===== verification/Vmm_Pages.thy ===== *)
theory Vmm_Pages
  imports Vmm_Map
begin

text \<open>
  The mapping of pages: \<^verbatim>\<open>get_next_level\<close> changes no translation, whether it finds, makes or splits an entry, and \<^verbatim>\<open>map_page\<close>
  changes those of its page only. The recursion between the two ends after three calls.
\<close>

unbundle bit_operations_syntax

section \<open>Entries on the way of an address\<close>

lemma lookup_agree:
  "table_at mem l t k v = Some c \<Longrightarrow> agree k l v v' \<Longrightarrow> k = 0 \<or> \<not> PT_IS_TABLE (pte mem c (pml_entry k v)) \<Longrightarrow>
     pt_lookup mem l t v' = (k, pte mem c (pml_entry k v))"
proof (induction l arbitrary: t)
  case (Suc l)
  then show ?case
    using agree_same [of "Suc l" v v'] agree_Suc [of k l v v'] table_at_level [of mem l _ k v c]
    by (auto simp: Let_def split: if_splits)
qed (auto simp: agree_same split: if_splits)

lemma table_at_next:
  "table_at mem l t k v = Some c \<Longrightarrow> k > 0 \<Longrightarrow> PT_IS_TABLE (pte mem c (pml_entry k v)) \<Longrightarrow>
     table_at mem l t (k - 1) v = Some (pte_addr (pte mem c (pml_entry k v)))"
proof (induction l arbitrary: t)
  case (Suc l)
  show ?case
  proof (cases "k = Suc l")
    case True
    then show ?thesis using Suc.prems by (cases l) (auto simp: Let_def)
  next
    case False
    then have at: "PT_IS_TABLE (pte mem t (pml_entry (Suc l) v))"
      "table_at mem l (pte_addr (pte mem t (pml_entry (Suc l) v))) k v = Some c"
      using Suc.prems(1) by (auto simp: Let_def split: if_splits)
    then have "k - 1 \<noteq> Suc l" using table_at_level [OF at(2)] by simp
    then show ?thesis using Suc.IH [OF at(2) Suc.prems(2,3)] at(1) by (simp add: Let_def)
  qed
qed (simp split: if_splits)

lemma lookup_entry_ok:
  "pt_ok mem l t \<Longrightarrow> pt_lookup mem l t v = (j, e) \<Longrightarrow> j > 0 \<Longrightarrow> entry_ok j e \<and> \<not> PT_IS_TABLE e"
proof (induction l arbitrary: t)
  case (Suc l)
  let ?e = "pte mem t (pml_entry (Suc l) v)"
  show ?case
  proof (cases "PT_IS_TABLE ?e")
    case True
    then show ?thesis using Suc.IH [of "pte_addr ?e"] pt_ok_child(2) [OF Suc.prems(1) pml_entry_less True] Suc.prems(2,3)
      by (simp add: Let_def)
  next
    case False
    then show ?thesis using Suc.prems pml_entry_less [of "Suc l" v] by (auto simp: Let_def)
  qed
qed simp

section \<open>What mapping promises\<close>

definition small_at :: "pagemap \<Rightarrow> nat \<Rightarrow> pmm \<Rightarrow> u64 \<Rightarrow> bool" where
  "small_at pm s st v \<longleftrightarrow> (case pm_lookup pm st v of (l, e) \<Rightarrow> s < l \<longrightarrow> \<not> bit e 0)"

definition keeps :: "pagemap \<Rightarrow> nat \<Rightarrow> pmm \<Rightarrow> pmm \<Rightarrow> bool" where
  "keeps pm s st st' \<longleftrightarrow>
     (\<forall>k v c. s \<le> k \<longrightarrow> pm_table pm st k v = Some c \<longrightarrow> pm_table pm st' k v = Some c)
     \<and> (\<forall>v. small_at pm s st v \<longrightarrow> small_at pm s st' v)"

text \<open>From \<open>st\<close> to \<open>st'\<close> the addresses from \<open>lo\<close> on have got the physical addresses from \<open>ph\<close> on, \<open>n\<close> of them, and the others are
  translated as before. Pages not larger than those of level \<open>s\<close> were used.\<close>

definition maps :: "bool \<Rightarrow> pagemap \<Rightarrow> nat \<Rightarrow> u64 \<Rightarrow> nat \<Rightarrow> nat \<Rightarrow> nat \<Rightarrow> pmm \<Rightarrow> pmm \<Rightarrow> bool" where
  "maps pat pm s fl lo ph n st st' \<longleftrightarrow> vm_inv pm st' \<and> grows pm st st' \<and> keeps pm s st st'
     \<and> (\<forall>v. let x = va_part (pt_top pm) v in
          translate pm st' v =
            (if lo \<le> x \<and> x < lo + n then Some (page_translation pat fl (ph + (x - lo))) else translate pm st v))"

text \<open>The ways in which mapping may fail: no memory, or a split of a large page with page attributes.\<close>

definition pt_failure :: "panic \<Rightarrow> bool" where
  "pt_failure e \<longleftrightarrow> e = Panic False ''Unexpected page table entry address in get_next_level''
     \<or> (\<exists>st. ext_mem_alloc st PT_SIZE = Inl e)"

definition page_bytes :: "page_size \<Rightarrow> nat" where
  "page_bytes sz = 2 ^ (12 + 9 * page_size_value sz)"

definition page_request :: "page_size \<Rightarrow> u64 \<Rightarrow> u64 \<Rightarrow> u64 \<Rightarrow> bool" where
  "page_request sz fl virt phys \<longleftrightarrow> vm_flags fl \<and> page_bytes sz dvd unat virt \<and> page_bytes sz dvd unat phys
     \<and> unat phys + page_bytes sz \<le> 2 ^ 48"

definition mapped_or_failed :: "bool \<Rightarrow> pagemap \<Rightarrow> nat \<Rightarrow> u64 \<Rightarrow> nat \<Rightarrow> nat \<Rightarrow> nat \<Rightarrow> pmm \<Rightarrow> pmm res \<Rightarrow> bool" where
  "mapped_or_failed pat pm s fl lo ph n st r \<longleftrightarrow>
     (case r of Inl e \<Rightarrow> pt_failure e | Inr st' \<Rightarrow> maps pat pm s fl lo ph n st st')"

definition maps_page :: "bool \<Rightarrow> pagemap \<Rightarrow> page_size \<Rightarrow> mapper \<Rightarrow> (pmm \<Rightarrow> u64 \<Rightarrow> bool) \<Rightarrow> bool" where
  "maps_page pat pm sz mp C \<longleftrightarrow> (\<forall>virt phys fl st. vm_inv pm st \<and> page_request sz fl virt phys \<and> C st virt \<longrightarrow>
     mapped_or_failed pat pm (page_size_value sz) fl (va_part (pt_top pm) virt) (unat phys) (page_bytes sz) st
       (mp pm virt phys fl sz st))"

lemma keeps_refl: "keeps pm s st st"
  by (simp add: keeps_def)

lemma keeps_trans: "keeps pm s st st1 \<Longrightarrow> keeps pm s st1 st2 \<Longrightarrow> keeps pm s st st2"
  by (simp add: keeps_def)

lemma maps_none: "vm_inv pm st \<Longrightarrow> maps pat pm s fl lo ph 0 st st"
  by (auto simp: maps_def grows_refl keeps_refl Let_def)

lemma maps_append:
  assumes a: "maps pat pm s fl lo ph m st st1" and b: "maps pat pm s fl (lo + m) (ph + m) n st1 st2"
  shows "maps pat pm s fl lo ph (m + n) st st2"
proof -
  have "translate pm st2 v = (if lo \<le> va_part (pt_top pm) v \<and> va_part (pt_top pm) v < lo + (m + n)
      then Some (page_translation pat fl (ph + (va_part (pt_top pm) v - lo))) else translate pm st v)" for v
    using a b by (simp add: maps_def Let_def)
  then show ?thesis using a b grows_trans keeps_trans unfolding maps_def Let_def by blast
qed

lemma page_bytes_dvd: "page_bytes sz dvd 2 ^ 64" "page_bytes sz < 2 ^ 64" "0 < page_bytes sz"
  by (cases sz; simp add: page_bytes_def)+

lemma vm_inv_top: "vm_inv pm st \<Longrightarrow> pt_top pm = 3 \<or> pt_top pm = 4"
  by (auto simp: vm_inv_def)

lemma va_part_add:
  assumes "pt = 3 \<or> pt = 4" and "unat step = b" and "va_part pt virt + b < 2 ^ (12 + 9 * Suc pt)"
  shows "va_part pt (virt + step) = va_part pt virt + b"
proof -
  have "(2 :: nat) ^ (12 + 9 * Suc pt) dvd 2 ^ 64" using assms(1) by (intro le_imp_power_dvd) auto
  then have "va_part pt (virt + step) = (unat virt + b) mod 2 ^ (12 + 9 * Suc pt)"
    unfolding va_part_def by (simp add: unat_word_ariths assms(2) mod_mod_cancel)
  also have "\<dots> = (va_part pt virt + b) mod 2 ^ (12 + 9 * Suc pt)" by (simp add: va_part_def mod_add_left_eq)
  finally show ?thesis using assms(3) by simp
qed

lemma va_part_room:
  assumes "k \<le> h" and "2 ^ (12 + 9 * k) dvd unat v"
  shows "va_part h v + 2 ^ (12 + 9 * k) \<le> 2 ^ (12 + 9 * Suc h)"
proof -
  let ?S = "2 ^ (12 + 9 * k) :: nat"
  have "?S dvd 2 ^ (12 + 9 * Suc h)" using assms(1) by (intro le_imp_power_dvd) simp
  then have "?S dvd 2 ^ (12 + 9 * Suc h) - va_part h v" using assms(2) by (auto simp: va_part_def dvd_mod_iff intro!: dvd_diff_nat)
  then show ?thesis using va_part_less [of h v] dvd_imp_le [of ?S "2 ^ (12 + 9 * Suc h) - va_part h v"] by linarith
qed

lemma aligned_add:
  fixes a b :: u64
  assumes "m dvd unat a" and "m dvd unat b" and "m dvd 2 ^ 64"
  shows "m dvd unat (a + b)"
  using assms by (simp add: unat_word_ariths dvd_mod)

text \<open>Runs of pages.\<close>

lemma map_run_ok:
  assumes mp: "maps_page pat pm sz mp C" and closed: "\<And>st st' v. keeps pm (page_size_value sz) st st' \<Longrightarrow> C st v \<Longrightarrow> C st' v"
    and step: "unat step = page_bytes sz" and fl: "vm_flags fl"
  shows "vm_inv pm st \<Longrightarrow> page_bytes sz dvd unat virt \<Longrightarrow> page_bytes sz dvd unat phys \<Longrightarrow>
    unat phys + n * page_bytes sz \<le> 2 ^ 48 \<Longrightarrow> va_part (pt_top pm) virt + n * page_bytes sz \<le> 2 ^ (12 + 9 * Suc (pt_top pm)) \<Longrightarrow>
    (\<forall>j < n. C st (virt + of_nat j * step)) \<Longrightarrow>
    mapped_or_failed pat pm (page_size_value sz) fl (va_part (pt_top pm) virt) (unat phys) (n * page_bytes sz) st
      (map_run mp pm fl sz step n virt phys st)"
proof (induction n arbitrary: virt phys st)
  case 0
  then show ?case by (simp add: mapped_or_failed_def maps_none)
next
  case (Suc n)
  let ?b = "page_bytes sz" and ?s = "page_size_value sz" and ?va = "va_part (pt_top pm)"
  have "page_request sz fl virt phys" using Suc.prems fl by (simp add: page_request_def)
  moreover have "C st virt" using Suc.prems(6) by (auto dest: spec [of _ 0])
  ultimately have first: "mapped_or_failed pat pm ?s fl (?va virt) (unat phys) ?b st (mp pm virt phys fl sz st)"
    using mp Suc.prems(1) by (simp add: maps_page_def)
  show ?case
  proof (cases "mp pm virt phys fl sz st")
    case (Inl e)
    then show ?thesis using first by (simp add: mapped_or_failed_def)
  next
    case (Inr st1)
    then have m: "maps pat pm ?s fl (?va virt) (unat phys) ?b st st1" using first by (simp add: mapped_or_failed_def)
    show ?thesis
    proof (cases "n = 0")
      case True
      then show ?thesis using m Inr by (simp add: mapped_or_failed_def)
    next
      case False
      have ph: "unat (phys + step) = unat phys + ?b" using Suc.prems(4) step by (subst unat_add_nowrap) simp_all
      have "0 < n * ?b" using False page_bytes_dvd(3) [of sz] by simp
      then have "?va virt + ?b < 2 ^ (12 + 9 * Suc (pt_top pm))" using Suc.prems(5) unfolding mult_Suc by linarith
      then have va: "?va (virt + step) = ?va virt + ?b"
        using vm_inv_top [OF Suc.prems(1)] step by (intro va_part_add)
      have "mapped_or_failed pat pm ?s fl (?va (virt + step)) (unat (phys + step)) (n * ?b) st1
          (map_run mp pm fl sz step n (virt + step) (phys + step) st1)"
      proof (rule Suc.IH)
        show "vm_inv pm st1" using m by (simp add: maps_def)
        show "?b dvd unat (virt + step)" "?b dvd unat (phys + step)"
          using Suc.prems(2,3) step page_bytes_dvd by (auto intro!: aligned_add)
        show "unat (phys + step) + n * ?b \<le> 2 ^ 48" using Suc.prems(4) ph by simp
        show "?va (virt + step) + n * ?b \<le> 2 ^ (12 + 9 * Suc (pt_top pm))" using Suc.prems(5) va by simp
        show "\<forall>j < n. C st1 (virt + step + of_nat j * step)"
        proof (intro allI impI)
          fix j assume "j < n"
          then have "C st (virt + of_nat (Suc j) * step)" using Suc.prems(6) by blast
          then show "C st1 (virt + step + of_nat j * step)"
            using closed [of st st1] m by (simp add: maps_def algebra_simps)
        qed
      qed
      then show ?thesis using maps_append [OF m] Inr va ph by (auto simp: mapped_or_failed_def split: sum.splits)
    qed
  qed
qed

section \<open>The next level\<close>

text \<open>What a step of the walk down to the table \<open>c\<close> of level \<open>k\<close> for \<open>virt\<close> leaves.\<close>

definition steps :: "pagemap \<Rightarrow> nat \<Rightarrow> u64 \<Rightarrow> nat \<Rightarrow> u64 \<Rightarrow> pmm \<Rightarrow> pmm \<Rightarrow> bool" where
  "steps pm s virt k c st st' \<longleftrightarrow> vm_inv pm st' \<and> grows pm st st' \<and> keeps pm s st st'
     \<and> (\<forall>v. translate pm st' v = translate pm st v) \<and> pm_table pm st' k virt = Some c"

lemma steps_trans: "steps pm s virt k c st st1 \<Longrightarrow> steps pm s virt j d st1 st2 \<Longrightarrow> steps pm s virt j d st st2"
  unfolding steps_def using grows_trans keeps_trans by metis

text \<open>The entry is empty: a new table takes its place.\<close>

lemma new_table_steps:
  assumes inv: "vm_inv pm st" and at: "pm_table pm st k virt = Some c" and k: "k > 0"
    and e: "\<not> bit (pte (ram st) c (pml_entry k virt)) 0" and run: "ext_mem_alloc st PT_SIZE = Inr (p, st1)"
  shows "steps pm s virt (k - 1) p st (set_pte c (pml_entry k virt) (pte_new p PT_TABLE_FLAGS) st1)"
proof -
  let ?e = "pte (ram st) c (pml_entry k virt)" and ?st = "set_pte c (pml_entry k virt) (pte_new p PT_TABLE_FLAGS) st1"
  have nt: "\<not> PT_IS_TABLE ?e" using e by (simp add: PT_IS_TABLE_bits)
  note t = set_table [OF inv at k nt run]
  have old: "pm_lookup pm st v = (k, ?e)" if "agree k (pt_top pm) virt v" for v
    using lookup_agree [OF at [unfolded pm_table_def] that] nt by (simp add: pm_lookup_def)
  have "translate pm ?st v = translate pm st v" for v
    unfolding translate_lookup [OF inv] translate_lookup [OF t(1)] t(3) using old [of v] e
    by (simp add: leaf_translation_def)
  moreover have "small_at pm s st v \<Longrightarrow> small_at pm s ?st v" for v unfolding small_at_def t(3) by simp
  ultimately show ?thesis using t(1,2,4,5) by (simp add: steps_def keeps_def)
qed

text \<open>Large pages: their size, and what their entry says.\<close>

lemma page_sizes_nth:
  assumes "k \<le> 2"
  shows "unat (page_sizes ! k) = 2 ^ (12 + 9 * k)" and "page_sizes ! k - 1 = mask (12 + 9 * k)"
proof -
  consider "k = 0" | "k = 1" | "k = 2" using assms by linarith
  then show "unat (page_sizes ! k) = 2 ^ (12 + 9 * k)" "page_sizes ! k - 1 = mask (12 + 9 * k)"
    by (cases; simp add: page_sizes_def mask_eq_exp_minus_1)+
qed

lemma base_address:
  fixes v :: u64 and k :: nat
  defines "b \<equiv> v AND NOT (mask (12 + 9 * k))"
  shows "unat b = unat v div 2 ^ (12 + 9 * k) * 2 ^ (12 + 9 * k)" and "agree k h v b"
proof -
  let ?s = "12 + 9 * k"
  have "b = push_bit ?s (drop_bit ?s v)" unfolding b_def by (rule bit_word_eqI) (auto simp: bit_simps)
  then have "unat b = take_bit 64 (push_bit ?s (unat v div 2 ^ ?s))"
    by (simp add: unsigned_push_bit_eq unat_drop_bit_eq) (simp add: drop_bit_eq_div)
  moreover have "unat v div 2 ^ ?s * 2 ^ ?s < 2 ^ 64" using u64_bound [of v] div_times_less_eq_dividend [of "unat v" "2 ^ ?s"] by linarith
  ultimately show u: "unat b = unat v div 2 ^ ?s * 2 ^ ?s" by (simp add: push_bit_eq_mult take_bit_nat_eq_self)
  have "unat b div 2 ^ (12 + 9 * j) = unat v div 2 ^ (12 + 9 * j)" if "k \<le> j" for j
  proof -
    have "12 + 9 * j = ?s + 9 * (j - k)" using that by simp
    then have p: "(2 :: nat) ^ (12 + 9 * j) = 2 ^ ?s * 2 ^ (9 * (j - k))" by (simp only: power_add)
    show ?thesis unfolding u p div_mult2_eq by simp
  qed
  then show "agree k h v b" by (simp add: agree_def pml_entry_nat)
qed

lemma large_page:
  assumes "large_entry k e" and k: "0 < k" "k \<le> 2" and al: "pte_addr e AND (page_sizes ! k - 1) = 0"
  shows "2 ^ (12 + 9 * k) dvd unat (pte_addr e)" and "unat (pte_addr e) + 2 ^ (12 + 9 * k) \<le> 2 ^ 48"
    and "vm_flags (PT_TO_VMM_FLAGS e)"
    and "leaf_translation (k, e) v = Some (page_translation pat (PT_TO_VMM_FLAGS e) (unat (pte_addr e) + unat v mod 2 ^ (12 + 9 * k)))"
proof -
  let ?s = "12 + 9 * k"
  from assms(1) obtain phys fl where e: "e = phys OR fl OR PT_FLAG_LARGE" and fl: "vm_flags fl" "bit fl 0"
    and ph: "2 ^ ?s dvd unat phys" "unat phys < 2 ^ 48" by (auto simp: large_entry_def)
  have pb: "bit phys n \<Longrightarrow> ?s \<le> n \<and> n < 48" for n using aligned_bits [OF ph] by blast
  have flb: "bit fl n \<Longrightarrow> n \<in> {0, 1, 3, 12, 63}" and fb: "bit fl 3 = bit fl 12" for n using fl(1) by (auto simp: vm_flags_def)
  have "bit (pte_addr e AND (page_sizes ! k - 1)) 12 = bit fl 12"
    unfolding page_sizes_nth(2) [OF k(2)] using k pb [of 12] by (auto simp: e pte_addr_def bit_simps)
  then have n12: "\<not> bit fl 12" "\<not> bit fl 3" using al fb by simp_all
  have addr: "pte_addr e = phys"
  proof (rule bit_word_eqI)
    fix n
    show "bit (pte_addr e) n = bit phys n" using flb [of n] pb [of n] n12 by (auto simp: e pte_addr_def bit_simps)
  qed
  have ef: "entry_flags pat fl = fl" using fl n12 by (intro bit_word_eqI) (auto simp: bit_entry_flags)
  have fx: "bit (PT_TO_VMM_FLAGS e) n \<longleftrightarrow> bit fl n \<and> n \<noteq> 0" for n
    using k flb [of n] n12 pb [of n] by (auto simp: PT_TO_VMM_FLAGS_def e bit_simps)
  show "2 ^ ?s dvd unat (pte_addr e)" using ph addr by simp
  have "(2 :: nat) ^ ?s dvd 2 ^ 48" using k by (intro le_imp_power_dvd) simp
  then have "2 ^ ?s dvd 2 ^ 48 - unat phys" using ph(1) by (simp add: dvd_diff_nat)
  then have le: "unat phys + 2 ^ ?s \<le> 2 ^ 48" using ph(2) dvd_imp_le [of "2 ^ ?s" "2 ^ 48 - unat phys"] by linarith
  then show "unat (pte_addr e) + 2 ^ ?s \<le> 2 ^ 48" using addr by simp
  show "vm_flags (PT_TO_VMM_FLAGS e)" using flb n12 by (auto simp: vm_flags_def fx)
  show "leaf_translation (k, e) v = Some (page_translation pat (PT_TO_VMM_FLAGS e) (unat (pte_addr e) + unat v mod 2 ^ ?s))"
    using large_leaf(2) [OF fl(1) k(1) ph(1) le, of pat v] unfolding ef e [symmetric] addr by (simp add: page_translation_def fx)
qed

text \<open>A large page in the way is split into smaller ones with the same translations.\<close>

lemma split_steps:
  assumes inv: "vm_inv pm st" and at: "pm_table pm st k virt = Some c" and s: "page_size_value sz < k" and k: "k \<le> 2"
    and nt: "\<not> PT_IS_TABLE (pte (ram st) c (pml_entry k virt))"
    and large: "large_entry k (pte (ram st) c (pml_entry k virt))"
    and al: "pte_addr (pte (ram st) c (pml_entry k virt)) AND (page_sizes ! k - 1) = 0"
    and run: "ext_mem_alloc st PT_SIZE = Inr (p, st1)"
    and mp: "maps_page pat pm sz mp (small_at pm (page_size_value sz))"
  defines "e \<equiv> pte (ram st) c (pml_entry k virt)" and "st2 \<equiv> set_pte c (pml_entry k virt) (pte_new p PT_TABLE_FLAGS) st1"
  shows "case map_run mp pm (PT_TO_VMM_FLAGS e) sz (page_sizes ! page_size_value sz)
      (unat (page_sizes ! k div page_sizes ! page_size_value sz)) (virt AND NOT (page_sizes ! k - 1)) (pte_addr e) st2 of
    Inl e \<Rightarrow> pt_failure e | Inr st' \<Rightarrow> steps pm (page_size_value sz) virt (k - 1) p st st'"
proof -
  let ?s = "page_size_value sz" and ?b = "page_bytes sz" and ?S = "2 ^ (12 + 9 * k) :: nat" and ?h = "pt_top pm"
  let ?n = "unat (page_sizes ! k div page_sizes ! ?s)" and ?v = "virt AND NOT (mask (12 + 9 * k))" and ?va = "va_part (pt_top pm)"
  have k0: "0 < k" using s by simp
  note t = set_table [OF inv at k0 nt run, folded st2_def]
  note lp = large_page [OF large k0 k al, folded e_def]
  have h: "k \<le> ?h" using vm_inv_top [OF inv] k by auto
  have step: "unat (page_sizes ! ?s) = ?b" using page_sizes_nth(1) [of ?s] s k by (simp add: page_bytes_def)
  have bS: "?b dvd ?S" "?n * ?b = ?S"
  proof -
    show "?b dvd ?S" unfolding page_bytes_def using s by (intro le_imp_power_dvd) simp
    then show "?n * ?b = ?S" using page_sizes_nth(1) [OF k] step by (simp add: unat_div)
  qed
  note base = base_address [where k = k and v = virt]
  have vS: "?S dvd unat ?v" unfolding base(1) by simp
  note ag = agree_page [OF h vS]
  have agv: "agree k ?h ?v v \<longleftrightarrow> agree k ?h virt v" for v using base(2) [of ?h] by (auto simp: agree_def)
  have va: "?va ?v + ?S \<le> 2 ^ (12 + 9 * Suc ?h)" by (rule va_part_room [OF h vS])
  have small: "small_at pm ?s st2 (?v + of_nat j * page_sizes ! ?s)" if j: "j < ?n" for j
  proof -
    have "Suc j * ?b \<le> ?n * ?b" using j by (intro mult_le_mono1) simp
    then have jb: "j * ?b < ?S" using bS(2) page_bytes_dvd(3) [of sz] by simp
    have "?S \<le> 2 ^ 30" using k by (intro power_increasing) simp_all
    then have "unat (of_nat (j * ?b) :: u64) = j * ?b" using jb by (intro unat_of_nat_small) simp
    moreover have "of_nat j * page_sizes ! ?s = (of_nat (j * ?b) :: u64)" by (simp flip: step)
    ultimately have "unat (of_nat j * page_sizes ! ?s) = j * ?b" by simp
    then have "?va (?v + of_nat j * page_sizes ! ?s) = ?va ?v + j * ?b"
      using jb va by (intro va_part_add [OF vm_inv_top [OF inv]]) simp_all
    then have "agree k ?h virt (?v + of_nat j * page_sizes ! ?s)" unfolding agv [symmetric] ag(1) using jb by simp
    then show ?thesis by (simp add: small_at_def t(3))
  qed
  have run: "mapped_or_failed pat pm ?s (PT_TO_VMM_FLAGS e) (?va ?v) (unat (pte_addr e)) (?n * ?b) st2
      (map_run mp pm (PT_TO_VMM_FLAGS e) sz (page_sizes ! ?s) ?n ?v (pte_addr e) st2)"
    using bS vS lp(1,2) va small t(1) by (intro map_run_ok [OF mp _ step lp(3)]) (auto simp: keeps_def intro: dvd_trans)
  show ?thesis
  proof (cases "map_run mp pm (PT_TO_VMM_FLAGS e) sz (page_sizes ! ?s) ?n ?v (pte_addr e) st2")
    case (Inl x)
    then show ?thesis using run by (simp add: mapped_or_failed_def page_sizes_nth(2) [OF k])
  next
    case (Inr st')
    then have m: "maps pat pm ?s (PT_TO_VMM_FLAGS e) (?va ?v) (unat (pte_addr e)) ?S st2 st'"
      using run by (simp add: mapped_or_failed_def bS(2))
    have "translate pm st' v = translate pm st v" for v
    proof (cases "agree k ?h virt v")
      case True
      then have r: "?va ?v \<le> ?va v" "?va v < ?va ?v + ?S" "?va v - ?va ?v = unat v mod ?S" using ag agv by blast+
      have "pm_lookup pm st v = (k, e)"
        using lookup_agree [OF at [unfolded pm_table_def] True] nt by (simp add: pm_lookup_def e_def)
      then show ?thesis using m r lp(4) by (simp add: maps_def Let_def translate_lookup [OF inv])
    next
      case False
      then have "\<not> (?va ?v \<le> ?va v \<and> ?va v < ?va ?v + ?S)" using ag(1) agv by blast
      then have "translate pm st' v = translate pm st2 v" using m by (auto simp: maps_def Let_def)
      then show ?thesis using False t(3) by (simp add: translate_lookup [OF inv] translate_lookup [OF t(1)])
    qed
    moreover have "keeps pm ?s st st2" using t(3,4) by (auto simp: keeps_def small_at_def)
    then have "keeps pm ?s st st'" using m keeps_trans by (auto simp: maps_def)
    moreover have "pm_table pm st' (k - 1) virt = Some p" using m s t(5) by (auto simp: maps_def keeps_def)
    ultimately have "steps pm ?s virt (k - 1) p st st'" using m grows_trans [OF t(2)] by (simp add: steps_def maps_def)
    then show ?thesis using Inr by (simp add: page_sizes_nth(2) [OF k])
  qed
qed

lemma get_next_level_steps:
  assumes inv: "vm_inv pm st" and at: "pm_table pm st k virt = Some c" and s: "page_size_value sz < k"
    and mp: "small_at pm (page_size_value sz) st virt \<or> maps_page pat pm sz mp (small_at pm (page_size_value sz))"
  shows "case get_next_level mp pm c virt sz k (pml_entry k virt) st of
    Inl e \<Rightarrow> pt_failure e | Inr (ret, st') \<Rightarrow> steps pm (page_size_value sz) virt (k - 1) ret st st'"
proof -
  let ?e = "pte (ram st) c (pml_entry k virt)" and ?s = "page_size_value sz"
  have k0: "k > 0" using s by simp
  have at': "table_at (ram st) (pt_top pm) (top_level pm) k virt = Some c" using at by (simp add: pm_table_def)
  have alloc: "pt_failure x" if "ext_mem_alloc st PT_SIZE = Inl x" for x using that by (auto simp: pt_failure_def)
  consider (table) "PT_IS_TABLE ?e" | (empty) "\<not> bit ?e 0" | (large) "bit ?e 0" "bit ?e 7" "\<not> PT_IS_TABLE ?e"
    by (auto simp: PT_IS_TABLE_bits)
  then show ?thesis
  proof cases
    case table
    then have "pm_table pm st (k - 1) virt = Some (pte_addr ?e)" using table_at_next [OF at' k0] by (simp add: pm_table_def)
    then show ?thesis using table inv by (simp add: get_next_level_def steps_def grows_refl keeps_refl)
  next
    case empty
    then have "\<not> PT_IS_TABLE ?e" "\<not> PT_IS_LARGE ?e" by (simp_all add: PT_IS_TABLE_bits PT_IS_LARGE_bits)
    then show ?thesis using new_table_steps [OF inv at k0 empty] alloc
      by (cases "ext_mem_alloc st PT_SIZE") (auto simp: get_next_level_def)
  next
    case large
    have l: "pm_lookup pm st virt = (k, ?e)" using lookup_agree [OF at', of virt] large(3) by (simp add: pm_lookup_def agree_def)
    have "entry_ok k ?e" using lookup_entry_ok [of _ _ _ virt k ?e] l k0 inv by (auto simp: vm_inv_def pm_lookup_def)
    then have le: "k \<le> 2" "large_entry k ?e" using large(1) by (auto simp: entry_ok_def)
    have m: "maps_page pat pm sz mp (small_at pm ?s)" using mp l s large(1) by (auto simp: small_at_def)
    have z: "?s < 3" by (cases sz) simp_all
    have L: "PT_IS_LARGE ?e" using large by (simp add: PT_IS_LARGE_bits)
    show ?thesis
    proof (cases "pte_addr ?e AND (page_sizes ! k - 1) = 0")
      case False
      then show ?thesis using large(3) L le k0 z by (simp add: get_next_level_def VMM_MAX_LEVEL_def Let_def pt_failure_def)
    next
      case True
      show ?thesis
      proof (cases "ext_mem_alloc st PT_SIZE")
        case (Inl x)
        then show ?thesis using large(3) L le k0 z True alloc by (simp add: get_next_level_def VMM_MAX_LEVEL_def Let_def)
      next
        case (Inr q)
        obtain p st1 where q: "q = (p, st1)" by (cases q)
        note sp = split_steps [OF inv at s le(1) large(3) le(2) True Inr [unfolded q] m]
        show ?thesis using sp large(3) L le k0 z True Inr q
          by (simp add: get_next_level_def VMM_MAX_LEVEL_def Let_def split: sum.splits)
      qed
    qed
  qed
qed

section \<open>One page\<close>

lemma leaf_maps:
  assumes st1: "steps pm s virt s c st st1" and s: "s \<le> 2" and al: "2 ^ (12 + 9 * s) dvd unat virt"
    and w: "s > 0 \<longrightarrow> \<not> PT_IS_TABLE w \<and> entry_ok s w"
    and leaf: "\<And>v. leaf_translation (s, w) v = Some (page_translation pat fl (ph + unat v mod 2 ^ (12 + 9 * s)))"
  shows "maps pat pm s fl (va_part (pt_top pm) virt) ph (2 ^ (12 + 9 * s)) st (set_pte c (pml_entry s virt) w st1)"
proof -
  let ?st = "set_pte c (pml_entry s virt) w st1" and ?h = "pt_top pm"
  have inv: "vm_inv pm st1" and at: "pm_table pm st1 s virt = Some c" using st1 by (simp_all add: steps_def)
  note l = set_leaf [OF inv at w]
  have h: "s \<le> ?h" using vm_inv_top [OF inv] s by auto
  note ag = agree_page [OF h al]
  have "translate pm ?st v = (if va_part ?h virt \<le> va_part ?h v \<and> va_part ?h v < va_part ?h virt + 2 ^ (12 + 9 * s)
      then Some (page_translation pat fl (ph + (va_part ?h v - va_part ?h virt))) else translate pm st v)" for v
  proof (cases "agree s ?h virt v")
    case True
    then show ?thesis using leaf [of v] ag(1) [of v] ag(2) [of v] by (simp add: translate_lookup [OF l(1)] l(3))
  next
    case False
    then have "translate pm ?st v = translate pm st1 v" by (simp add: translate_lookup [OF l(1)] translate_lookup [OF inv] l(3))
    then show ?thesis using False ag(1) [of v] st1 by (auto simp: steps_def)
  qed
  moreover have "keeps pm s st1 ?st" using l(3,4) by (auto simp: keeps_def small_at_def)
  ultimately show ?thesis
    using st1 l(1) grows_trans [OF _ l(2)] keeps_trans unfolding steps_def maps_def Let_def by blast
qed

definition stepped :: "pagemap \<Rightarrow> nat \<Rightarrow> u64 \<Rightarrow> nat \<Rightarrow> pmm \<Rightarrow> (u64 \<times> pmm) res \<Rightarrow> bool" where
  "stepped pm s virt k st r \<longleftrightarrow> (case r of Inl e \<Rightarrow> pt_failure e | Inr (c, st') \<Rightarrow> steps pm s virt k c st st')"

lemma stepped_bind:
  assumes "stepped pm s virt k st r" and "\<And>c st'. steps pm s virt k c st st' \<Longrightarrow> mapped_or_failed pat pm j fl lo ph n st (f (c, st'))"
  shows "mapped_or_failed pat pm j fl lo ph n st (bind_res r f)"
  using assms by (cases r) (auto simp: stepped_def mapped_or_failed_def)

lemma stepped_next:
  assumes st1: "steps pm (page_size_value sz) virt k c st st1" and s: "page_size_value sz < k"
    and mp: "small_at pm (page_size_value sz) st virt \<or> maps_page pat pm sz mp (small_at pm (page_size_value sz))"
  shows "stepped pm (page_size_value sz) virt (k - 1) st (get_next_level mp pm c virt sz k (pml_entry k virt) st1)"
proof -
  have "case get_next_level mp pm c virt sz k (pml_entry k virt) st1 of
      Inl e \<Rightarrow> pt_failure e | Inr (ret, st') \<Rightarrow> steps pm (page_size_value sz) virt (k - 1) ret st1 st'"
    using st1 s mp by (intro get_next_level_steps) (auto simp: steps_def keeps_def)
  then show ?thesis using steps_trans [OF st1] by (auto simp: stepped_def split: sum.splits)
qed

lemma small_at_top: "vm_inv pm st \<Longrightarrow> small_at pm 2 st v"
  using lookup_entry_ok [of "ram st" "pt_top pm" "top_level pm" v]
  by (auto simp: small_at_def pm_lookup_def vm_inv_def entry_ok_def split: prod.splits)

lemma page_translation_entry_flags: "vm_flags fl \<Longrightarrow> page_translation pat (entry_flags pat fl) p = page_translation pat fl p"
  by (auto simp: page_translation_def bit_entry_flags)

text \<open>The stages of \<^verbatim>\<open>map_page\<close>, from the last to the first.\<close>

lemma large_stage:
  assumes "steps pm (page_size_value sz) virt (page_size_value sz) c st st'" and req: "page_request sz fl virt phys"
    and sz: "sz \<noteq> Size4KiB"
  shows "mapped_or_failed pat pm (page_size_value sz) fl (va_part (pt_top pm) virt) (unat phys) (page_bytes sz) st
    (Inr (set_pte c (pml_entry (page_size_value sz) virt) (phys OR entry_flags pat fl OR PT_FLAG_LARGE) st'))"
proof -
  let ?s = "page_size_value sz"
  have s: "0 < ?s" "?s \<le> 2" using sz by (cases sz; simp)+
  have rq: "vm_flags fl" "2 ^ (12 + 9 * ?s) dvd unat virt" "2 ^ (12 + 9 * ?s) dvd unat phys"
    "unat phys + 2 ^ (12 + 9 * ?s) \<le> 2 ^ 48" using req by (simp_all add: page_request_def page_bytes_def)
  show ?thesis
    using leaf_maps [OF assms(1) s(2) rq(2)] large_leaf [OF rq(1) s(1) rq(3,4)] s
    by (simp add: mapped_or_failed_def entry_ok_def PT_IS_TABLE_bits bit_or_iff page_bytes_def)
qed

lemma pml1_stage:
  assumes "steps pm 0 virt 0 c st st'" and req: "page_request Size4KiB fl virt phys"
  shows "mapped_or_failed pat pm 0 fl (va_part (pt_top pm) virt) (unat phys) (page_bytes Size4KiB) st
    (Inr (set_pte c (pml_entry 0 virt) (phys OR pml1_flags (entry_flags pat fl)) st'))"
  using leaf_maps [OF assms(1), of "phys OR pml1_flags (entry_flags pat fl)" pat fl "unat phys"] req small_leaf [of fl phys pat]
  by (simp add: mapped_or_failed_def page_request_def page_bytes_def)

lemma emulation_stage:
  assumes st3: "steps pm 2 virt 2 c st st3" and req: "page_request Size1GiB fl virt phys"
    and mp: "maps_page pat pm Size2MiB mp (\<lambda>_ _. True)"
  shows "mapped_or_failed pat pm 2 fl (va_part (pt_top pm) virt) (unat phys) (page_bytes Size1GiB) st
    (map_run mp pm (entry_flags pat fl) Size2MiB 0x200000 512 virt phys st3)"
proof -
  have rq: "vm_flags fl" "2 ^ 30 dvd unat virt" "2 ^ 30 dvd unat phys" "unat phys + 2 ^ 30 \<le> 2 ^ 48"
    using req by (simp_all add: page_request_def page_bytes_def)
  have inv: "vm_inv pm st3" using st3 by (simp add: steps_def)
  have d: "0x200000 dvd unat virt" "0x200000 dvd unat phys" using rq(2,3) dvd_trans [of "0x200000 :: nat" "2 ^ 30"] by simp_all
  have h: "2 \<le> pt_top pm" using vm_inv_top [OF inv] by auto
  have "mapped_or_failed pat pm 1 (entry_flags pat fl) (va_part (pt_top pm) virt) (unat phys) (512 * page_bytes Size2MiB) st3
      (map_run mp pm (entry_flags pat fl) Size2MiB 0x200000 512 virt phys st3)"
    using map_run_ok [OF mp, of "0x200000" "entry_flags pat fl" st3 virt phys 512] rq va_part_room [OF h, of virt] inv d
    by (auto simp: page_bytes_def vm_flags_entry_flags)
  then show ?thesis
  proof (cases "map_run mp pm (entry_flags pat fl) Size2MiB 0x200000 512 virt phys st3")
    case (Inr st')
    with \<open>mapped_or_failed pat pm 1 _ _ _ _ _ _\<close>
    have m: "maps pat pm 1 (entry_flags pat fl) (va_part (pt_top pm) virt) (unat phys) (page_bytes Size1GiB) st3 st'"
      by (simp add: mapped_or_failed_def page_bytes_def)
    have "keeps pm 2 st st'" using st3 m small_at_top by (auto simp: keeps_def maps_def steps_def)
    moreover have "grows pm st st'" using m st3 grows_trans [of pm st st3 st'] by (simp add: maps_def steps_def)
    ultimately have "maps pat pm 2 fl (va_part (pt_top pm) virt) (unat phys) (page_bytes Size1GiB) st st'"
      using m st3 page_translation_entry_flags [OF rq(1)] unfolding maps_def steps_def Let_def by simp
    then show ?thesis using Inr by (simp add: mapped_or_failed_def)
  qed (simp add: mapped_or_failed_def)
qed

lemma pml2_stage:
  assumes st3: "steps pm (page_size_value sz) virt 2 c st st3" and req: "page_request sz fl virt phys" and sz: "sz \<noteq> Size1GiB"
    and mp: "small_at pm (page_size_value sz) st virt \<or> maps_page pat pm sz mp (small_at pm (page_size_value sz))"
  shows "mapped_or_failed pat pm (page_size_value sz) fl (va_part (pt_top pm) virt) (unat phys) (page_bytes sz) st
    (bind_res (get_next_level mp pm c virt sz 2 (pml_entry 2 virt) st3) (\<lambda>(pml2, st).
       if sz = Size2MiB then Inr (set_pte pml2 (pml_entry 1 virt) (phys OR entry_flags pat fl OR PT_FLAG_LARGE) st)
       else
         bind_res (get_next_level mp pm pml2 virt sz 1 (pml_entry 1 virt) st)
           (\<lambda>(pml1, st). Inr (set_pte pml1 (pml_entry 0 virt) (phys OR pml1_flags (entry_flags pat fl)) st))))"
proof (cases sz)
  case Size2MiB
  note n = stepped_next [OF st3 _ mp]
  show ?thesis
    by (rule stepped_bind [OF n]) (use large_stage [OF _ req] Size2MiB in simp_all)
next
  case Size4KiB
  show ?thesis
  proof (rule stepped_bind [OF stepped_next [OF st3 _ mp]], simp add: Size4KiB, unfold prod.case)
    fix c2 st2 assume "steps pm (page_size_value sz) virt (2 - 1) c2 st st2"
    then have st2: "steps pm (page_size_value sz) virt 1 c2 st st2" by simp
    have "mapped_or_failed pat pm (page_size_value sz) fl (va_part (pt_top pm) virt) (unat phys) (page_bytes sz) st
      (bind_res (get_next_level mp pm c2 virt sz 1 (pml_entry 1 virt) st2)
        (\<lambda>(pml1, st). Inr (set_pte pml1 (pml_entry 0 virt) (phys OR pml1_flags (entry_flags pat fl)) st)))"
      by (rule stepped_bind [OF stepped_next [OF st2 _ mp]]) (use pml1_stage req Size4KiB in simp_all)
    then show "mapped_or_failed pat pm (page_size_value sz) fl (va_part (pt_top pm) virt) (unat phys) (page_bytes sz) st
      (if sz = Size2MiB then Inr (set_pte c2 (pml_entry 1 virt) (phys OR entry_flags pat fl OR PT_FLAG_LARGE) st2)
       else
         bind_res (get_next_level mp pm c2 virt sz 1 (pml_entry 1 virt) st2)
           (\<lambda>(pml1, st). Inr (set_pte pml1 (pml_entry 0 virt) (phys OR pml1_flags (entry_flags pat fl)) st)))"
      by (simp add: Size4KiB)
  qed
qed (use sz in simp)

lemma map_page_body_ok:
  assumes inv: "vm_inv pm st" and req: "page_request sz fl virt phys"
    and mp: "small_at pm (page_size_value sz) st virt \<or> maps_page pat pm sz mp (small_at pm (page_size_value sz))"
    and emu: "sz = Size1GiB \<Longrightarrow> \<not> gib \<Longrightarrow> maps_page pat pm Size2MiB mp (\<lambda>_ _. True)"
  shows "mapped_or_failed pat pm (page_size_value sz) fl (va_part (pt_top pm) virt) (unat phys) (page_bytes sz) st
    (map_page_body pat gib mp pm virt phys fl sz st)"
proof -
  let ?s = "page_size_value sz"
  have s: "?s < 3" "?s < 4" by (cases sz; simp)+
  have top: "table_at mem l t l v = Some t" for mem l t v by (cases l) simp_all
  then have st: "steps pm ?s virt (pt_top pm) (top_level pm) st st"
    using inv by (simp add: steps_def grows_refl keeps_refl pm_table_def)
  have pml4: "stepped pm ?s virt 3 st (if levels pm = 5
      then get_next_level mp pm (top_level pm) virt sz 4 (pml_entry 4 virt) st else Inr (top_level pm, st))"
  proof (cases "levels pm = 5")
    case True
    then have "steps pm ?s virt 4 (top_level pm) st st" using st by simp
    from stepped_next [OF this s(2) mp] True show ?thesis by simp
  next
    case False
    then have "levels pm = 4" using inv by (simp add: vm_inv_def)
    then show ?thesis using st by (simp add: stepped_def)
  qed
  show ?thesis
    unfolding map_page_body_def Let_def
    apply (rule stepped_bind [OF pml4], unfold prod.case, rule stepped_bind [OF stepped_next [OF _ s(1) mp]], assumption)
    subgoal for c4 st4 c3 st3
      using pml2_stage [of pm sz virt c3 st st3, OF _ req _ mp] large_stage [OF _ req, of pm c3 st st3]
        emulation_stage [of pm virt c3 st st3] req emu
      by (cases "sz = Size1GiB") auto
    done
qed

text \<open>The depth of the recursion. A page that needs no split is mapped by the first call, other pages by the second, and a
  page of 1 GiB that is emulated by the third.\<close>

lemma map_page_depth_ok:
  assumes "sz \<noteq> Size1GiB \<or> gib"
  shows "maps_page pat pm sz (map_page_depth pat gib (Suc n)) (small_at pm (page_size_value sz))"
    and "maps_page pat pm sz (map_page_depth pat gib (Suc (Suc n))) (\<lambda>_ _. True)"
proof -
  show *: "maps_page pat pm sz (map_page_depth pat gib (Suc n)) (small_at pm (page_size_value sz))" for n
    unfolding maps_page_def map_page_depth.simps
    by (intro allI impI, elim conjE, rule map_page_body_ok) (use assms in auto)
  show "maps_page pat pm sz (map_page_depth pat gib (Suc (Suc n))) (\<lambda>_ _. True)"
    unfolding maps_page_def map_page_depth.simps(2) [of pat gib "Suc n"]
    by (intro allI impI, elim conjE, rule map_page_body_ok) (use assms * [of n] in auto)
qed

lemma map_page_ok: "maps_page pat pm sz (map_page pat gib) (\<lambda>_ _. True)"
proof -
  have d: "map_page pat gib = map_page_depth pat gib (Suc (Suc (Suc 0)))" by (simp add: map_page_def numeral_3_eq_3)
  show ?thesis
  proof (cases "sz \<noteq> Size1GiB \<or> gib")
    case True
    then show ?thesis unfolding d by (rule map_page_depth_ok(2))
  next
    case False
    have e: "maps_page pat pm Size2MiB (map_page_depth pat gib (Suc (Suc 0))) (\<lambda>_ _. True)"
      by (rule map_page_depth_ok(2)) simp
    have "mapped_or_failed pat pm 2 fl (va_part (pt_top pm) virt) (unat phys) (page_bytes Size1GiB) st
        (map_page_body pat gib (map_page_depth pat gib (Suc (Suc 0))) pm virt phys fl Size1GiB st)"
      if "vm_inv pm st" "page_request Size1GiB fl virt phys" for virt phys fl st
      using map_page_body_ok [OF that] e small_at_top [OF that(1)] by simp
    then show ?thesis unfolding d maps_page_def using False by simp
  qed
qed

end
