(* ===== verification/Vmm_Properties.thy ===== *)
theory Vmm_Properties
  imports Vmm_Pages
begin

text \<open>
  The promises of \<^verbatim>\<open>new_pagemap\<close> and \<^verbatim>\<open>map_pages\<close>, and a defect in the splitting of large pages.
\<close>

unbundle bit_operations_syntax

section \<open>New page maps\<close>

text \<open>A new page map satisfies the invariant and translates nothing.\<close>

lemma new_pagemap_inv:
  assumes inv: "pmm_inv st" and run: "new_pagemap mode st = Inr (pm, st')"
  shows "vm_inv pm st'" and "translate pm st' v = None" and "pm_tables pm st' = {top_level pm}"
proof -
  obtain p where al: "ext_mem_alloc st PT_SIZE = Inr (p, st')"
    and pm: "top_level pm = p" "levels pm = 4 \<or> levels pm = 5"
    using run by (auto simp: new_pagemap_def split: if_splits)
  note a = alloc_table [OF inv al]
  have z: "\<forall>i < 512. pte (ram st') p i = 0" using a(2,5) by (simp add: table_ok_def pte_mem_set)
  note zt = zero_table [OF z a(2)]
  show t: "pm_tables pm st' = {top_level pm}" by (simp add: pm_tables_def pm(1) zt(2))
  then show i: "vm_inv pm st'" using a(1,3) zt(1) pm by (auto simp: vm_inv_def)
  show "translate pm st' v = None" by (simp add: translate_lookup [OF i] pm_lookup_def pm(1) zt(3) leaf_translation_def)
qed

section \<open>Ranges of pages\<close>

lemma maps_weaken: "maps pat pm s fl lo ph n st st' \<Longrightarrow> s \<le> 2 \<Longrightarrow> maps pat pm 2 fl lo ph n st st'"
  using small_at_top by (auto simp: maps_def keeps_def)

lemma mapped_bind:
  assumes "mapped_or_failed pat pm s fl lo ph m st x" and "s \<le> 2"
    and "\<And>st1. vm_inv pm st1 \<Longrightarrow> mapped_or_failed pat pm 2 fl (lo + m) (ph + m) n st1 (f st1)"
  shows "mapped_or_failed pat pm 2 fl lo ph (m + n) st (bind_res x f)"
proof (cases x)
  case (Inl e)
  then show ?thesis using assms(1) by (simp add: mapped_or_failed_def)
next
  case (Inr st1)
  then have m: "maps pat pm 2 fl lo ph m st st1" using assms(1,2) maps_weaken by (simp add: mapped_or_failed_def)
  then have "mapped_or_failed pat pm 2 fl (lo + m) (ph + m) n st1 (f st1)" using assms(3) by (simp add: maps_def)
  then show ?thesis using Inr maps_append [OF m] by (auto simp: mapped_or_failed_def split: sum.splits)
qed

lemma mask_dvd:
  fixes x :: u64
  assumes "x AND mask s = 0"
  shows "2 ^ s dvd unat x"
proof -
  have "take_bit s (unat x) = unat (take_bit s x)" by (simp add: unsigned_take_bit_eq)
  also have "\<dots> = 0" using assms by (simp add: take_bit_eq_mask)
  finally have "take_bit s (unat x) = 0" .
  then show ?thesis by (simp add: take_bit_eq_mod mod_eq_0_iff_dvd)
qed

lemma page_masks: "(0x40000000 - 1 :: u64) = mask 30" "(0x200000 - 1 :: u64) = mask 21"
  by (simp_all add: mask_eq_exp_minus_1)

text \<open>One turn of the loop: a page of any size that fits.\<close>

lemma map_pages_turn:
  assumes inv: "vm_inv pm st" and fl: "vm_flags fl" and k: "k < n" and b: "page_bytes sz = 4096 * m" and fits: "k + m \<le> n"
    and ph: "unat phys + 4096 * n \<le> 2 ^ 48" and va: "va_part (pt_top pm) virt + 4096 * n \<le> 2 ^ (12 + 9 * Suc (pt_top pm))"
    and dv: "page_bytes sz dvd unat (virt + 0x1000 * of_nat k)" "page_bytes sz dvd unat (phys + 0x1000 * of_nat k)"
    and rest: "\<And>st1. vm_inv pm st1 \<Longrightarrow> mapped_or_failed pat pm 2 fl (va_part (pt_top pm) virt + 4096 * (k + m))
        (unat phys + 4096 * (k + m)) (4096 * (n - (k + m))) st1 (f st1)"
  shows "mapped_or_failed pat pm 2 fl (va_part (pt_top pm) virt + 4096 * k) (unat phys + 4096 * k) (4096 * (n - k)) st
    (bind_res (map_page pat gib pm (virt + 0x1000 * of_nat k) (phys + 0x1000 * of_nat k) fl sz st) f)"
proof -
  let ?va = "va_part (pt_top pm)" and ?i = "0x1000 * of_nat k :: u64"
  have i: "unat ?i = 4096 * k" using ph k unat_of_nat_small [of "4096 * k", where 'a = 64] by simp
  have p: "unat (phys + ?i) = unat phys + 4096 * k" using ph k i by (subst unat_add_nowrap) simp_all
  have v: "?va (virt + ?i) = ?va virt + 4096 * k" using va k i by (intro va_part_add [OF vm_inv_top [OF inv]]) simp_all
  have "page_request sz fl (virt + ?i) (phys + ?i)" using fl dv ph p b fits by (simp add: page_request_def)
  then have first: "mapped_or_failed pat pm (page_size_value sz) fl (?va virt + 4096 * k) (unat phys + 4096 * k) (4096 * m) st
      (map_page pat gib pm (virt + ?i) (phys + ?i) fl sz st)"
    using map_page_ok [of pat pm sz gib] inv unfolding maps_page_def v [symmetric] p [symmetric] b [symmetric] by blast
  have "page_size_value sz \<le> 2" by (cases sz) simp_all
  moreover have "4096 * m + 4096 * (n - (k + m)) = 4096 * (n - k)" using fits by simp
  ultimately show ?thesis using mapped_bind [OF first, of "4096 * (n - (k + m))" f] rest by (simp add: algebra_simps)
qed

lemma map_pages_loop_ok:
  assumes "vm_flags fl" and "4096 dvd unat virt" and "4096 dvd unat phys" and "unat phys + 4096 * n \<le> 2 ^ 48"
    and "va_part (pt_top pm) virt + 4096 * n \<le> 2 ^ (12 + 9 * Suc (pt_top pm))"
  shows "vm_inv pm st \<Longrightarrow> k \<le> n \<Longrightarrow> mapped_or_failed pat pm 2 fl (va_part (pt_top pm) virt + 4096 * k) (unat phys + 4096 * k)
    (4096 * (n - k)) st (map_pages_loop pat gib pm virt phys fl n k st)"
proof (induction "n - k" arbitrary: k st rule: less_induct)
  case less
  let ?i = "0x1000 * of_nat k :: u64" and ?left = "0x1000 * of_nat n - 0x1000 * of_nat k :: u64"
  show ?case
  proof (cases "k < n")
    case False
    then show ?thesis using less.prems by (subst map_pages_loop.simps) (simp add: mapped_or_failed_def maps_none)
  next
    case True
    have rest: "mapped_or_failed pat pm 2 fl (va_part (pt_top pm) virt + 4096 * (k + m)) (unat phys + 4096 * (k + m))
        (4096 * (n - (k + m))) st1 (map_pages_loop pat gib pm virt phys fl n (k + m) st1)"
      if "vm_inv pm st1" "0 < m" "k + m \<le> n" for st1 m
      using less.hyps [of "k + m" st1] that True by simp
    have small: "unat (0x1000 * of_nat j :: u64) = 4096 * j" if "j \<le> n" for j
      using assms(4) that unat_of_nat_small [of "4096 * j", where 'a = 64] by simp
    have left: "unat ?left = 4096 * (n - k)"
      using small [of n] small [of k] True by (subst unat_sub) (simp_all add: word_le_nat_alt right_diff_distrib')
    have dv: "4096 dvd unat (virt + ?i)" "4096 dvd unat (phys + ?i)"
      using assms(2,3) small [of k] True by (auto intro!: aligned_add)
    note turn = map_pages_turn [OF less.prems(1) assms(1) True _ _ assms(4,5)]
    consider (gib) "(phys + ?i) AND mask 30 = 0" "(virt + ?i) AND mask 30 = 0" "?left \<ge> 0x40000000"
      | (mib) "\<not> ((phys + ?i) AND mask 30 = 0 \<and> (virt + ?i) AND mask 30 = 0 \<and> ?left \<ge> 0x40000000)"
        "(phys + ?i) AND mask 21 = 0" "(virt + ?i) AND mask 21 = 0" "?left \<ge> 0x200000"
      | (kib) "\<not> ((phys + ?i) AND mask 30 = 0 \<and> (virt + ?i) AND mask 30 = 0 \<and> ?left \<ge> 0x40000000)"
        "\<not> ((phys + ?i) AND mask 21 = 0 \<and> (virt + ?i) AND mask 21 = 0 \<and> ?left \<ge> 0x200000)" by blast
    then show ?thesis
    proof cases
      case gib
      then have fits: "k + 0x40000 \<le> n" using left by (simp add: word_le_nat_alt)
      show ?thesis
        by (subst map_pages_loop.simps, unfold Let_def page_masks, simp only: True gib simp_thms if_False if_True,
            rule turn [of Size1GiB "0x40000"])
          (use fits mask_dvd [OF gib(1)] mask_dvd [OF gib(2)] rest [of _ "0x40000"] in \<open>simp_all add: page_bytes_def\<close>)
    next
      case mib
      then have fits: "k + 0x200 \<le> n" using left by (simp add: word_le_nat_alt)
      show ?thesis
        by (subst map_pages_loop.simps, unfold Let_def page_masks, simp only: True mib simp_thms if_False if_True,
            rule turn [of Size2MiB "0x200"])
          (use fits mask_dvd [OF mib(2)] mask_dvd [OF mib(3)] rest [of _ "0x200"] in \<open>simp_all add: page_bytes_def\<close>)
    next
      case kib
      then have fits: "k + 1 \<le> n" using True by simp
      show ?thesis
        by (subst map_pages_loop.simps, unfold Let_def page_masks, simp only: True kib simp_thms if_False if_True,
            rule turn [of Size4KiB 1]) (use fits dv rest [of _ 1] in \<open>simp_all add: page_bytes_def\<close>)
    qed
  qed
qed

section \<open>Properties\<close>

definition va_bits :: "pagemap \<Rightarrow> nat" where
  "va_bits pm = 12 + 9 * nat (levels pm)"

definition linear :: "pagemap \<Rightarrow> u64 \<Rightarrow> nat" where
  "linear pm v = unat v mod 2 ^ va_bits pm"

lemma linear_va_part: "vm_inv pm st \<Longrightarrow> linear pm v = va_part (pt_top pm) v" "vm_inv pm st \<Longrightarrow> va_bits pm = 12 + 9 * Suc (pt_top pm)"
  by (auto simp: linear_def va_part_def va_bits_def vm_inv_def)

text \<open>C4: Mapping a range of pages, in whatever page sizes and through whatever existing large pages, gives every address of the
  range the physical address at the same offset with the rights and the memory type asked for, as the processor will find them,
  and changes the translation of no other address. The page tables stay a tree in memory that is not free, and no byte outside
  of tables and free memory is written. It fails only for want of memory or at the split of a large page with page
  attributes; the recursion between \<^verbatim>\<open>map_page\<close> and \<^verbatim>\<open>get_next_level\<close> always ends.\<close>

theorem map_pages_correct:
  assumes "vm_inv pm st" and "vm_flags fl" and "4096 dvd unat virt" and "4096 dvd unat phys" and "4096 dvd unat cnt"
    and "unat phys + unat cnt \<le> 2 ^ 48" and "linear pm virt + unat cnt \<le> 2 ^ va_bits pm"
  shows "case map_pages pat gib pm virt phys fl cnt st of
      Inl e \<Rightarrow> pt_failure e
    | Inr st' \<Rightarrow> vm_inv pm st'
        \<and> (\<forall>v. translate pm st' v =
             (if linear pm virt \<le> linear pm v \<and> linear pm v < linear pm virt + unat cnt
              then Some (page_translation pat fl (unat phys + (linear pm v - linear pm virt)))
              else translate pm st v))
        \<and> (\<forall>a. \<not> usable_at st a \<and> \<not> table_byte pm st a \<longrightarrow> ram st' a = ram st a)"
proof -
  note lin = linear_va_part [OF assms(1)]
  let ?n = "unat cnt div 4096"
  have n: "4096 * ?n = unat cnt" "unat (cnt div 0x1000) = ?n" using assms(5) by (simp_all add: unat_div)
  have z: "x mod 0x1000 = 0 \<longleftrightarrow> 4096 dvd unat x" for x :: u64
    by (simp add: word_unat_eq_iff unat_mod mod_eq_0_iff_dvd)
  have "map_pages pat gib pm virt phys fl cnt st = map_pages_loop pat gib pm virt phys fl ?n 0 st"
    using assms(3-5) by (simp add: map_pages_def z n(2))
  moreover have "mapped_or_failed pat pm 2 fl (va_part (pt_top pm) virt) (unat phys) (unat cnt) st
      (map_pages_loop pat gib pm virt phys fl ?n 0 st)"
    using map_pages_loop_ok [OF assms(2-4), of ?n pm st 0 pat gib] assms(1,6,7) unfolding n lin by (simp add: n(1))
  ultimately show ?thesis unfolding lin by (auto simp: mapped_or_failed_def maps_def grows_def Let_def split: sum.splits)
qed

text \<open>The witness: one page in tables that exist already.\<close>

definition four_levels :: pagemap where
  "four_levels = \<lparr>levels = 4, top_level = 0x1000\<rparr>"

definition bare :: pmm where
  "bare = \<lparr>memmap = [], memmap_max_entries = 0, allocations_disallowed = False, pmm_sanitiser_keep_first_page = False,
     conv_base = 0x1000, ram = (\<lambda>_. 0)\<rparr>"

definition tables :: pmm where
  "tables = set_pte 0x3000 0 0x4007 (set_pte 0x2000 0 0x3007 (set_pte 0x1000 0 0x2007 bare))"

lemma pte_tables:
  assumes "page_aligned t" and "i < 512"
  shows "pte (ram tables) t i = (if i = 0 \<and> t = 0x3000 then 0x4007 else if i = 0 \<and> t = 0x2000 then 0x3007
    else if i = 0 \<and> t = 0x1000 then 0x2007 else 0)"
proof -
  have "page_aligned 0x1000" "page_aligned 0x2000" "page_aligned 0x3000" by (simp_all add: page_aligned_def)
  moreover have "pte (ram bare) t i = 0" for t i by (rule bit_word_eqI) (simp add: pte_def bare_def bit_ram_read64)
  ultimately show ?thesis using assms unfolding tables_def by (simp add: pte_set_pte)
qed

lemma only_child:
  assumes "table_ok t" and "pte mem t 0 = pte_new c PT_TABLE_FLAGS" and "\<forall>i < 512. i \<noteq> 0 \<longrightarrow> pte mem t i = 0"
    and "pt_ok mem l c" and "t \<notin> pt_tables mem l c"
  shows "pt_ok mem (Suc l) t" and "pt_tables mem (Suc l) t = insert t (pt_tables mem l c)"
proof -
  have c: "PT_IS_TABLE (pte mem t 0)" "pte_addr (pte mem t 0) = c"
    using table_entry [of c] pt_ok_table [OF assms(4)] assms(2) by (simp_all add: table_ok_def)
  have i: "PT_IS_TABLE (pte mem t i) \<longleftrightarrow> i = 0" if "i < 512" for i using c(1) assms(3) that by (cases "i = 0") simp_all
  then have "let e = pte mem t i in if PT_IS_TABLE e then e = pte_new (pte_addr e) PT_TABLE_FLAGS \<and> pt_ok mem l (pte_addr e)
      \<and> t \<notin> pt_tables mem l (pte_addr e) else entry_ok (Suc l) e" if "i < 512" for i
    using c assms that by (cases "i = 0") (simp_all add: Let_def)
  then show "pt_ok mem (Suc l) t" using i assms(1) by simp
  have "{i. i < 512 \<and> PT_IS_TABLE (pte mem t i)} = {0}" using i by auto
  then show "pt_tables mem (Suc l) t = insert t (pt_tables mem l c)" using c(2) by simp
qed

lemma tables_inv: "vm_inv four_levels tables"
proof -
  have e: "0x4007 = pte_new 0x4000 PT_TABLE_FLAGS" "0x3007 = pte_new 0x3000 PT_TABLE_FLAGS" "0x2007 = pte_new 0x2000 PT_TABLE_FLAGS"
    by (simp_all add: pte_new_def PT_TABLE_FLAGS_def PT_FLAG_VALID_def PT_FLAG_WRITE_def PT_FLAG_USER_def)
  have ok: "table_ok 0x1000" "table_ok 0x2000" "table_ok 0x3000" "table_ok 0x4000" by (simp_all add: table_ok_def page_aligned_def)
  note p = pte_tables [of _ 0] pte_tables
  let ?m = "ram tables"
  have l0: "pt_ok ?m 0 0x4000" "pt_tables ?m 0 0x4000 = {0x4000}" using ok by simp_all
  have "pt_ok ?m (Suc 0) 0x3000 \<and> pt_tables ?m (Suc 0) 0x3000 = {0x3000, 0x4000}"
    using only_child [of "0x3000" ?m "0x4000" 0] ok l0 by (simp add: pte_tables e table_ok_def)
  then have "pt_ok ?m (Suc (Suc 0)) 0x2000 \<and> pt_tables ?m (Suc (Suc 0)) 0x2000 = {0x2000, 0x3000, 0x4000}"
    using only_child [of "0x2000" ?m "0x3000" "Suc 0"] ok by (simp add: pte_tables e table_ok_def del: pt_ok.simps pt_tables.simps)
  then have "pt_ok ?m (Suc (Suc (Suc 0))) 0x1000"
    using only_child(1) [of "0x1000" ?m "0x2000" "Suc (Suc 0)"] ok by (simp add: pte_tables e table_ok_def del: pt_ok.simps pt_tables.simps)
  moreover have "memmap tables = []" by (simp add: tables_def bare_def)
  ultimately show ?thesis
    by (simp add: vm_inv_def four_levels_def pmm_inv_def wf_map_def low_clean_def low_types_def usable_at_def numeral_3_eq_3 del: pt_ok.simps)
qed

lemma map_one_page: "\<exists>st'. map_pages True True four_levels 0 0x5000 2 0x1000 tables = Inr st'"
proof -
  have t: "pte (ram tables) 0x1000 0 = 0x2007" "pte (ram tables) 0x2000 0 = 0x3007" "pte (ram tables) 0x3000 0 = 0x4007"
    by (simp_all add: pte_tables page_aligned_def)
  have T: "PT_IS_TABLE 0x2007" "PT_IS_TABLE 0x3007" "PT_IS_TABLE 0x4007"
    by (simp_all add: PT_IS_TABLE_def PT_FLAG_VALID_def PT_FLAG_LARGE_def)
  have a: "pte_addr 0x2007 = 0x2000" "pte_addr 0x3007 = 0x3000" "pte_addr 0x4007 = 0x4000"
    by (simp_all add: pte_addr_def PT_PADDR_MASK_def)
  have z: "pml_entry k 0 = 0" for k by (simp add: pml_entry_nat)
  show ?thesis
    by (simp add: map_pages_def map_pages_loop.simps [of _ _ _ _ _ _ _ 0] map_pages_loop.simps [of _ _ _ _ _ _ _ "Suc 0"]
        map_page_def numeral_3_eq_3 map_page_body_def get_next_level_def four_levels_def z t T a Let_def)
qed

theorem map_pages_correct_witness:
  "\<exists>st'. map_pages True True four_levels 0 0x5000 2 0x1000 tables = Inr st'
    \<and> translate four_levels st' 0x123 = Some (page_translation True 2 0x5123) \<and> translate four_levels st' 0x1000 = None"
proof -
  obtain st' where r: "map_pages True True four_levels 0 0x5000 2 0x1000 tables = Inr st'" using map_one_page by blast
  have f: "vm_flags 2"
  proof -
    have "bit (2 :: u64) n \<longleftrightarrow> n = 1" for n using bit_push_1 [of 1 n] by simp
    then show ?thesis by (simp add: vm_flags_def)
  qed
  have "translate four_levels tables 0x1000 = None"
    unfolding translate_lookup [OF tables_inv]
    by (simp add: pm_lookup_def four_levels_def numeral_3_eq_3 pml_entry_nat pte_tables page_aligned_def
        PT_IS_TABLE_def PT_FLAG_VALID_def PT_FLAG_LARGE_def pte_addr_def PT_PADDR_MASK_def leaf_translation_def Let_def)
  then show ?thesis
    using map_pages_correct [OF tables_inv f, of 0 "0x5000" "0x1000" True True] r
    by (simp add: linear_def va_bits_def four_levels_def)
qed

section \<open>Large pages with page attributes\<close>

text \<open>In the entry of a large page bit 12 selects the memory type, and \<^verbatim>\<open>PT_PADDR_MASK\<close> takes it for an address bit: the split
  of a page that was mapped with \<^verbatim>\<open>VMM_FLAG_FB\<close> panics, although \<^verbatim>\<open>PT_TO_VMM_FLAGS\<close> means to keep its memory type.\<close>

lemma split_of_attributes_panics:
  assumes "PT_IS_LARGE e" and "bit e 12" and "pte (ram st) c i = e" and "0 < k" and "k \<le> 2"
  shows "get_next_level mp pm c virt sz k i st
    = Inl (Panic False ''Unexpected page table entry address in get_next_level'')"
proof -
  have "bit (pte_addr e AND (page_sizes ! k - 1)) 12"
    unfolding page_sizes_nth(2) [OF assms(5)] using assms(2,4) by (simp add: pte_addr_def bit_simps)
  then have "pte_addr e AND (page_sizes ! k - 1) \<noteq> 0" by auto
  moreover have "\<not> PT_IS_TABLE e" using assms(1) by (simp add: PT_IS_TABLE_bits PT_IS_LARGE_bits)
  moreover have "page_size_value sz < 3" by (cases sz) simp_all
  ultimately show ?thesis using assms by (simp add: get_next_level_def Let_def VMM_MAX_LEVEL_def)
qed

end
