(* ===== verification/Spec2Isabelle.thy ===== *)
theory Spec2Isabelle
  imports Allocator Memory_Queries Guid Misc Cc_Trap Blake2b Partitions Elsewhere Vmm_Properties
begin

text \<open>
  Verification of the Limine boot loader sources under \<^verbatim>\<open>src/limine-10.8.2\<close>.
\<close>

end
